(* ===== verification/Prelude.thy ===== *)
theory Prelude
  imports Main "HOL-Library.Word"
begin

unbundle bit_operations_syntax

text \<open>
  The types and the generic lemmas that the component theories share.

  The kernel is compiled for MIPS with \<^verbatim>\<open>-mabi=32 -EL\<close> (\<^verbatim>\<open>env.am\<close>): \<^verbatim>\<open>unsigned long\<close>,
  \<^verbatim>\<open>size_t\<close> and pointers have 32 bits, \<^verbatim>\<open>addr_t\<close> and \<^verbatim>\<open>lsize_t\<close> have 64
  (\<^verbatim>\<open>include/sys/types.h\<close>). Unsigned C integers are words of their width, so that their
  arithmetic wraps as it does in C.
\<close>

section \<open>Types\<close>

type_synonym u8 = "8 word"
type_synonym u16 = "16 word"
type_synonym u32 = "32 word"
type_synonym u64 = "64 word"

text \<open>A pointer of the 32-bit kernel; \<^verbatim>\<open>NULL\<close> is 0.\<close>

type_synonym ptr = "32 word"

abbreviation (input) NULL :: ptr where
  "NULL \<equiv> 0"

text \<open>
  What can happen to a C function instead of returning: \<^verbatim>\<open>panic()\<close> or a failed
  \<^verbatim>\<open>assert()\<close> stops the machine (\<open>Panic\<close>), an access outside an object or through a bad
  pointer has no defined meaning (\<open>Fault\<close>), and a loop may never end (\<open>NoReturn\<close>).
\<close>

datatype kerr = Panic | Fault | NoReturn

type_synonym 'a res = "kerr + 'a"

text \<open>Sequencing: the second computation runs on the value of the first, if there is one.\<close>

definition and_then :: "'a res \<Rightarrow> ('a \<Rightarrow> 'b res) \<Rightarrow> 'b res" where
  "and_then m f = (case m of Inl e \<Rightarrow> Inl e | Inr x \<Rightarrow> f x)"

lemma and_then_simps [simp]:
  "and_then (Inl e) f = Inl e"
  "and_then (Inr x) f = f x"
  by (simp_all add: and_then_def)

lemma and_then_eq_Inr:
  "and_then m f = Inr y \<longleftrightarrow> (\<exists>x. m = Inr x \<and> f x = Inr y)"
  by (cases m) simp_all

text \<open>The outcome of a loop that may not return: not returning is an error value of its own.\<close>

definition returns :: "'a res option \<Rightarrow> 'a res" where
  "returns r = (case r of None \<Rightarrow> Inl NoReturn | Some x \<Rightarrow> x)"

lemma returns_simps [simp]:
  "returns None = Inl NoReturn"
  "returns (Some x) = x"
  by (simp_all add: returns_def)

section \<open>Arrays\<close>

text \<open>
  A C array is a list; reading or writing outside it is a \<open>Fault\<close>. The index is the
  natural number the C expression denotes.
\<close>

definition rd :: "'a list \<Rightarrow> nat \<Rightarrow> 'a res" where
  "rd a i = (if i < length a then Inr (a ! i) else Inl Fault)"

definition wr :: "'a list \<Rightarrow> nat \<Rightarrow> 'a \<Rightarrow> 'a list res" where
  "wr a i v = (if i < length a then Inr (a[i := v]) else Inl Fault)"

lemma rd_ok [simp]: "i < length a \<Longrightarrow> rd a i = Inr (a ! i)"
  by (simp add: rd_def)

lemma wr_ok [simp]: "i < length a \<Longrightarrow> wr a i v = Inr (a[i := v])"
  by (simp add: wr_def)

lemma rd_fault: "length a \<le> i \<Longrightarrow> rd a i = Inl Fault"
  by (simp add: rd_def)

lemma wr_fault: "length a \<le> i \<Longrightarrow> wr a i v = Inl Fault"
  by (simp add: wr_def)

section \<open>Objects in memory\<close>

text \<open>
  The objects of one type are a map from their addresses; reading or changing an object at an
  address that holds none is a \<open>Fault\<close>.
\<close>

definition ld :: "('p \<rightharpoonup> 'b) \<Rightarrow> 'p \<Rightarrow> 'b res" where
  "ld H p = (case H p of None \<Rightarrow> Inl Fault | Some b \<Rightarrow> Inr b)"

definition upd :: "('p \<rightharpoonup> 'b) \<Rightarrow> 'p \<Rightarrow> ('b \<Rightarrow> 'b) \<Rightarrow> ('p \<rightharpoonup> 'b) res" where
  "upd H p f = (case H p of None \<Rightarrow> Inl Fault | Some b \<Rightarrow> Inr (H(p \<mapsto> f b)))"

lemma ld_Some [simp]: "H p = Some b \<Longrightarrow> ld H p = Inr b"
  by (simp add: ld_def)

lemma upd_Some [simp]: "H p = Some b \<Longrightarrow> upd H p f = Inr (H(p \<mapsto> f b))"
  by (simp add: upd_def)

section \<open>Loops\<close>

text \<open>
  \<open>for_n m k body s\<close> runs the body for the \<open>m\<close> indices from \<open>k\<close> on, and
  \<open>for_up lo hi body s\<close> is the C loop \<^verbatim>\<open>for (k = lo; k < hi; k++)\<close> over the state \<open>s\<close>.
  \<open>scan lo hi c\<close> is such a loop whose body returns early when the condition holds.
\<close>

primrec for_n :: "nat \<Rightarrow> nat \<Rightarrow> (nat \<Rightarrow> 's \<Rightarrow> 's res) \<Rightarrow> 's \<Rightarrow> 's res" where
  "for_n 0 k body s = Inr s"
| "for_n (Suc m) k body s = and_then (body k s) (for_n m (Suc k) body)"

definition for_up :: "nat \<Rightarrow> nat \<Rightarrow> (nat \<Rightarrow> 's \<Rightarrow> 's res) \<Rightarrow> 's \<Rightarrow> 's res" where
  "for_up lo hi = for_n (hi - lo) lo"

primrec scan_n :: "nat \<Rightarrow> nat \<Rightarrow> (nat \<Rightarrow> bool res) \<Rightarrow> bool res" where
  "scan_n 0 k c = Inr False"
| "scan_n (Suc m) k c = and_then (c k) (\<lambda>b. if b then Inr True else scan_n m (Suc k) c)"

definition scan :: "nat \<Rightarrow> nat \<Rightarrow> (nat \<Rightarrow> bool res) \<Rightarrow> bool res" where
  "scan lo hi = scan_n (hi - lo) lo"

lemma for_n_invariant:
  assumes "I k s" and "\<And>j s. k \<le> j \<Longrightarrow> j < k + m \<Longrightarrow> I j s \<Longrightarrow> \<exists>s'. body j s = Inr s' \<and> I (Suc j) s'"
  shows "\<exists>s'. for_n m k body s = Inr s' \<and> I (k + m) s'"
  using assms
proof (induction m arbitrary: k s)
  case 0
  then show ?case by simp
next
  case (Suc m)
  obtain s1 where s1: "body k s = Inr s1" "I (Suc k) s1"
    using Suc.prems(2) [of k s] Suc.prems(1) by auto
  have "\<exists>s'. for_n m (Suc k) body s1 = Inr s' \<and> I (Suc k + m) s'"
    by (rule Suc.IH) (use s1 Suc.prems(2) in auto)
  with s1 show ?case by simp
qed

lemma for_up_invariant:
  assumes "lo \<le> hi" "I lo s"
    and "\<And>j s. lo \<le> j \<Longrightarrow> j < hi \<Longrightarrow> I j s \<Longrightarrow> \<exists>s'. body j s = Inr s' \<and> I (Suc j) s'"
  shows "\<exists>s'. for_up lo hi body s = Inr s' \<and> I hi s'"
  using for_n_invariant [of I lo s "hi - lo" body] assms by (simp add: for_up_def)

lemma scan_n_spec:
  assumes "\<And>j. k \<le> j \<Longrightarrow> j < k + m \<Longrightarrow> c j = Inr (P j)"
  shows "scan_n m k c = Inr (\<exists>j. k \<le> j \<and> j < k + m \<and> P j)"
  using assms
proof (induction m arbitrary: k)
  case 0
  then show ?case by simp
next
  case (Suc m)
  have "scan_n m (Suc k) c = Inr (\<exists>j. Suc k \<le> j \<and> j < Suc k + m \<and> P j)"
    by (rule Suc.IH) (use Suc.prems in auto)
  moreover have "(\<exists>j. k \<le> j \<and> j < k + Suc m \<and> P j) \<longleftrightarrow> P k \<or> (\<exists>j. Suc k \<le> j \<and> j < Suc k + m \<and> P j)"
    (is "?l \<longleftrightarrow> P k \<or> ?r")
  proof
    assume ?l
    then obtain j where "k \<le> j" "j < k + Suc m" "P j" by blast
    then show "P k \<or> ?r" by (cases "j = k") (auto intro!: exI [of _ j])
  next
    assume "P k \<or> ?r"
    then show ?l
    proof
      assume "P k"
      then show ?thesis by (intro exI [of _ k]) simp
    next
      assume ?r
      then obtain j where "Suc k \<le> j" "j < Suc k + m" "P j" by blast
      then show ?thesis by (intro exI [of _ j]) simp
    qed
  qed
  ultimately show ?case
    using Suc.prems [of k] by simp
qed

lemma scan_spec:
  assumes "\<And>j. lo \<le> j \<Longrightarrow> j < hi \<Longrightarrow> c j = Inr (P j)"
  shows "scan lo hi c = Inr (\<exists>j. lo \<le> j \<and> j < hi \<and> P j)"
proof (cases "lo \<le> hi")
  case True
  then show ?thesis
    using scan_n_spec [of lo "hi - lo" c P] assms by (simp add: scan_def)
next
  case False
  then show ?thesis by (simp add: scan_def)
qed

text \<open>A loop that stores \<open>f k\<close> in slot \<open>k\<close> of an array.\<close>

lemma for_up_store:
  assumes "n \<le> length a"
  shows "for_up 0 n (\<lambda>k a. wr a k (f k)) a = Inr (map f [0..<n] @ drop n a)"
proof -
  let ?I = "\<lambda>k s. s = map f [0..<k] @ drop k a"
  have step: "(map f [0..<j] @ drop j a)[j := f j] = map f [0..<Suc j] @ drop (Suc j) a"
    if "j < length a" for j
  proof -
    have "drop j a = a ! j # drop (Suc j) a"
      by (rule Cons_nth_drop_Suc [OF that, symmetric])
    then show ?thesis by (simp add: list_update_append)
  qed
  have "\<exists>s'. for_up 0 n (\<lambda>k a. wr a k (f k)) a = Inr s' \<and> ?I n s'"
  proof (rule for_up_invariant)
    fix j s assume "j < n" "?I j s"
    with assms step [of j] show "\<exists>s'. wr s j (f j) = Inr s' \<and> ?I (Suc j) s'"
      by (simp add: wr_def)
  qed simp_all
  then show ?thesis by blast
qed

section \<open>Loops that may not end\<close>

text \<open>
  \<open>loop body s\<close> runs the body until it breaks with a result; the body contains the test of the
  loop. A loop that goes on for ever has the value \<open>None\<close>.
\<close>

datatype ('s, 'r) flow = Cont 's | Break 'r

partial_function (option) loop :: "('s \<Rightarrow> ('s, 'r) flow res) \<Rightarrow> 's \<Rightarrow> 'r res option" where
  "loop body s =
     (case body s of Inl e \<Rightarrow> Some (Inl e)
      | Inr f \<Rightarrow> (case f of Break r \<Rightarrow> Some (Inr r) | Cont s \<Rightarrow> loop body s))"

lemma loop_Break: "body s = Inr (Break r) \<Longrightarrow> loop body s = Some (Inr r)"
  by (simp add: loop.simps)

lemma loop_Cont: "body s = Inr (Cont s') \<Longrightarrow> loop body s = loop body s'"
  by (subst loop.simps) simp

lemma loop_Inl: "body s = Inl e \<Longrightarrow> loop body s = Some (Inl e)"
  by (simp add: loop.simps)

text \<open>Total correctness: an invariant, and a measure that decreases while the loop goes on.\<close>

lemma loop_rule:
  fixes m :: "'s \<Rightarrow> nat"
  assumes "I s"
    and cont: "\<And>s s'. I s \<Longrightarrow> body s = Inr (Cont s') \<Longrightarrow> I s' \<and> m s' < m s"
    and break: "\<And>s r. I s \<Longrightarrow> body s = Inr (Break r) \<Longrightarrow> Q (Inr r)"
    and err: "\<And>s e. I s \<Longrightarrow> body s = Inl e \<Longrightarrow> Q (Inl e)"
  shows "\<exists>r. loop body s = Some r \<and> Q r"
  using assms(1)
proof (induction "m s" arbitrary: s rule: less_induct)
  case less
  show ?case
  proof (cases "body s")
    case (Inl e)
    with err [OF less.prems] show ?thesis by (auto simp: loop_Inl)
  next
    case (Inr f)
    show ?thesis
    proof (cases f)
      case (Break r)
      with Inr break [OF less.prems] show ?thesis by (auto simp: loop_Break)
    next
      case (Cont s')
      with Inr cont [OF less.prems] less.hyps [of s'] show ?thesis by (auto simp: loop_Cont)
    qed
  qed
qed

text \<open>Partial correctness: the invariant alone, for a loop that is known to have ended.\<close>

lemma loop_partial:
  assumes run: "loop body s = Some x" and "I s"
    and "\<And>s s'. I s \<Longrightarrow> body s = Inr (Cont s') \<Longrightarrow> I s'"
    and "\<And>s r. I s \<Longrightarrow> body s = Inr (Break r) \<Longrightarrow> Q (Inr r)"
    and "\<And>s e. I s \<Longrightarrow> body s = Inl e \<Longrightarrow> Q (Inl e)"
  shows "Q x"
proof -
  define ok where "ok body \<longleftrightarrow> (\<forall>s s'. I s \<longrightarrow> body s = Inr (Cont s') \<longrightarrow> I s') \<and>
    (\<forall>s r. I s \<longrightarrow> body s = Inr (Break r) \<longrightarrow> Q (Inr r)) \<and> (\<forall>s e. I s \<longrightarrow> body s = Inl e \<longrightarrow> Q (Inl e))" for body
  have "I s \<longrightarrow> ok body \<longrightarrow> Q x" using run
  proof (rule loop.raw_induct [where P = "\<lambda>body s x. I s \<longrightarrow> ok body \<longrightarrow> Q x", rotated])
    fix f body s x
    assume IH: "\<And>body s x. f body s = Some x \<Longrightarrow> I s \<longrightarrow> ok body \<longrightarrow> Q x"
      and eq: "(case body s of Inl e \<Rightarrow> Some (Inl e) | Inr (Cont s) \<Rightarrow> f body s | Inr (Break r) \<Rightarrow> Some (Inr r)) = Some x"
    show "I s \<longrightarrow> ok body \<longrightarrow> Q x"
      using eq IH [of body] by (cases "body s") (auto simp: ok_def split: flow.splits)
  qed
  then show ?thesis using assms(2-5) by (auto simp: ok_def)
qed
text \<open>A loop that counts up to \<open>n\<close>, and may leave early.\<close>

lemma loop_for:
  assumes "I 0 s"
    and step: "\<And>i s. i < n \<Longrightarrow> I i s \<Longrightarrow> (\<exists>s'. body s = Inr (Cont s') \<and> I (Suc i) s') \<or> (\<exists>r. loop body s = Some r \<and> Q r)"
    and last: "\<And>s. I n s \<Longrightarrow> \<exists>r. loop body s = Some r \<and> Q r"
  shows "\<exists>r. loop body s = Some r \<and> Q r"
proof -
  have "\<exists>r. loop body s = Some r \<and> Q r" if "I i s" "i \<le> n" for i s
    using that
  proof (induction "n - i" arbitrary: i s)
    case 0
    then show ?case using last by simp
  next
    case (Suc k)
    then have "i < n" by simp
    from step [OF this Suc.prems(1)] show ?case
    proof
      assume "\<exists>s'. body s = Inr (Cont s') \<and> I (Suc i) s'"
      then obtain s' where s': "body s = Inr (Cont s')" "I (Suc i) s'" by blast
      have "\<exists>r. loop body s' = Some r \<and> Q r" by (rule Suc.hyps(1)) (use Suc.hyps(2) \<open>i < n\<close> s'(2) in auto)
      with s'(1) show ?thesis by (simp add: loop_Cont)
    qed
  qed
  with assms(1) show ?thesis by blast
qed

text \<open>Sequencing of statements that may leave the loop or return from the function.\<close>

definition flow_then :: "('s, 'r) flow res \<Rightarrow> ('s \<Rightarrow> ('t, 'r) flow res) \<Rightarrow> ('t, 'r) flow res" where
  "flow_then m f = and_then m (\<lambda>x. case x of Cont s \<Rightarrow> f s | Break r \<Rightarrow> Inr (Break r))"

lemma flow_then_simps [simp]:
  "flow_then (Inl e) f = Inl e"
  "flow_then (Inr (Cont s)) f = f s"
  "flow_then (Inr (Break r)) f = Inr (Break r)"
  by (simp_all add: flow_then_def)

section \<open>Bits of words\<close>

lemma bit_word_less: "bit w n \<Longrightarrow> n < LENGTH('a)" for w :: "'a::len word"
  by (rule bit_imp_le_length)

lemma bit_u32D: "bit w n \<Longrightarrow> n < 32" for w :: u32
  using bit_word_less by fastforce

lemma not_bit_u32 [simp]: "32 \<le> n \<Longrightarrow> \<not> bit w n" for w :: u32
  by (auto dest: bit_u32D)

lemma unat_u32: "unat w < 4294967296" for w :: u32
  using unsigned_less [of w] by simp

lemma unat_of_nat_u32: "n < 4294967296 \<Longrightarrow> unat (of_nat n :: u32) = n"
  by (simp add: unat_of_nat take_bit_nat_eq_self)

lemma word_eq_0_bits: "w = 0 \<longleftrightarrow> (\<forall>j. \<not> bit w j)" for w :: "'a::len word"
  by (auto intro: bit_word_eqI)

lemma take_bit_eq_0_bits: "take_bit n w = 0 \<longleftrightarrow> (\<forall>j<n. \<not> bit w j)" for w :: "'a::len word"
  by (auto simp: word_eq_0_bits bit_take_bit_iff)

lemma and_mask_eq_0_bits: "w AND mask n = 0 \<longleftrightarrow> (\<forall>j<n. \<not> bit w j)" for w :: "'a::len word"
  by (simp add: take_bit_eq_0_bits flip: take_bit_eq_mask)

end
