(* ===== verification/Links.thy ===== *)
theory Links
  imports Prelude
begin

text \<open>
  Doubly linked lists in memory, in the two shapes the kernel uses: the circular lists of
  \<^verbatim>\<open>include/list.h\<close>, and the lists between a \<^verbatim>\<open>head\<close> and a \<^verbatim>\<open>tail\<close> node of the memory allocators.
  \<open>links nx pv L\<close> says that \<open>L\<close> is a chain of nodes linked in both directions; a circular list
  is the chain \<open>h # xs @ [h]\<close> and a bounded one the chain \<open>head # xs @ [tail]\<close>.
\<close>

section \<open>Chains\<close>

fun links :: "(ptr \<Rightarrow> ptr option) \<Rightarrow> (ptr \<Rightarrow> ptr option) \<Rightarrow> ptr list \<Rightarrow> bool" where
  "links nx pv (u # v # L) \<longleftrightarrow> nx u = Some v \<and> pv v = Some u \<and> links nx pv (v # L)"
| "links nx pv L \<longleftrightarrow> True"

lemma links_append:
  "links nx pv (A @ u # B) \<longleftrightarrow> links nx pv (A @ [u]) \<and> links nx pv (u # B)"
proof (induction A)
  case Nil
  then show ?case by simp
next
  case (Cons a A)
  then show ?case by (cases A) auto
qed

lemma links_cong:
  assumes "\<And>p. p \<in> set (butlast L) \<Longrightarrow> nx p = nx' p" "\<And>p. p \<in> set (tl L) \<Longrightarrow> pv p = pv' p"
  shows "links nx pv L \<longleftrightarrow> links nx' pv' L"
  using assms
proof (induction nx pv L rule: links.induct)
  case (1 nx pv u v L)
  have "links nx pv (v # L) \<longleftrightarrow> links nx' pv' (v # L)"
    by (rule 1(1)) (use 1(2,3) in auto)
  with 1(2) [of u] 1(3) [of v] show ?case by simp
qed simp_all

text \<open>Chains whose nodes differ, the two ends of a circular one apart.\<close>

definition chain :: "(ptr \<Rightarrow> ptr option) \<Rightarrow> (ptr \<Rightarrow> ptr option) \<Rightarrow> ptr list \<Rightarrow> bool" where
  "chain nx pv L \<longleftrightarrow> links nx pv L \<and> distinct (butlast L) \<and> distinct (tl L)"

lemma chain_insert:
  assumes "chain nx pv (A @ u # v # B)" "a \<notin> set (A @ u # v # B)"
  shows "chain (nx(u := Some a, a := Some v)) (pv(v := Some a, a := Some u)) (A @ u # a # v # B)"
proof -
  let ?nx = "nx(u := Some a, a := Some v)" and ?pv = "pv(v := Some a, a := Some u)"
  have l: "links nx pv (A @ [u])" "links nx pv (v # B)"
    using assms(1) links_append [of nx pv A u "v # B"] by (auto simp: chain_def)
  have d: "distinct (A @ u # butlast (v # B))" "distinct (tl (A @ u # v # B))"
    using assms(1) by (simp_all add: chain_def butlast_append)
  have "links ?nx ?pv (A @ [u]) \<longleftrightarrow> links nx pv (A @ [u])"
  proof (rule links_cong)
    show "?nx p = nx p" if "p \<in> set (butlast (A @ [u]))" for p
      using that d(1) assms(2) by auto
    show "?pv p = pv p" if "p \<in> set (tl (A @ [u]))" for p
      using that d(2) assms(2) by (cases A) auto
  qed
  moreover have "links ?nx ?pv (v # B) \<longleftrightarrow> links nx pv (v # B)"
  proof (rule links_cong)
    show "?nx p = nx p" if "p \<in> set (butlast (v # B))" for p
      using that d(1) assms(2) by (auto dest: in_set_butlastD split: if_splits)
    show "?pv p = pv p" if "p \<in> set (tl (v # B))" for p
      using that d(2) assms(2) by (cases A) auto
  qed
  moreover have "u \<noteq> a" "v \<noteq> a" using assms(2) by auto
  ultimately have "links ?nx ?pv (A @ u # a # v # B)"
    using l by (subst links_append) simp
  moreover have "distinct (butlast (A @ u # a # v # B))" "distinct (tl (A @ u # a # v # B))"
    using d assms(2) by (auto simp: butlast_append dest: in_set_butlastD split: if_splits)
      (cases A; auto)+
  ultimately show ?thesis by (simp add: chain_def)
qed

lemma chain_delete:
  assumes "chain nx pv (A @ u # a # v # B)"
  shows "chain (nx(u := Some v)) (pv(v := Some u)) (A @ u # v # B)"
proof -
  let ?nx = "nx(u := Some v)" and ?pv = "pv(v := Some u)"
  have l: "links nx pv (A @ [u])" "links nx pv (v # B)"
    using assms links_append [of nx pv A u "a # v # B"] by (auto simp: chain_def)
  have d: "distinct (A @ u # a # butlast (v # B))" "distinct (tl (A @ u # a # v # B))"
    using assms by (simp_all add: chain_def butlast_append)
  have "links ?nx ?pv (A @ [u]) \<longleftrightarrow> links nx pv (A @ [u])"
  proof (rule links_cong)
    show "?nx p = nx p" if "p \<in> set (butlast (A @ [u]))" for p
      using that d(1) by auto
    show "?pv p = pv p" if "p \<in> set (tl (A @ [u]))" for p
      using that d(2) by (cases A) auto
  qed
  moreover have "links ?nx ?pv (v # B) \<longleftrightarrow> links nx pv (v # B)"
  proof (rule links_cong)
    show "?nx p = nx p" if "p \<in> set (butlast (v # B))" for p
      using that d(1) by (auto split: if_splits)
    show "?pv p = pv p" if "p \<in> set (tl (v # B))" for p
      using that d(2) by (cases A) auto
  qed
  ultimately have "links ?nx ?pv (A @ u # v # B)"
    using l by (subst links_append) simp
  moreover have "distinct (butlast (A @ u # v # B))" "distinct (tl (A @ u # v # B))"
    using d by (auto simp: butlast_append split: if_splits) (cases A; auto)+
  ultimately show ?thesis by (simp add: chain_def)
qed

section \<open>Walking a chain\<close>

text \<open>
  \<^verbatim>\<open>for (a = start; a != stop; a = a->next) if (P(a)) break;\<close>: the node where the loop ends, \<open>stop\<close>
  when the condition never held. The walk of a malformed list may leave the nodes (\<open>Fault\<close>) or
  never end (\<open>None\<close>).
\<close>

partial_function (option) walk ::
  "(ptr \<rightharpoonup> 'b) \<Rightarrow> ('b \<Rightarrow> ptr) \<Rightarrow> (ptr \<Rightarrow> 'b \<Rightarrow> bool) \<Rightarrow> ptr \<Rightarrow> ptr \<Rightarrow> ptr res option" where
  "walk H nxt P stop a =
     (if a = stop then Some (Inr a)
      else case H a of None \<Rightarrow> Some (Inl Fault)
           | Some b \<Rightarrow> if P a b then Some (Inr a) else walk H nxt P stop (nxt b))"

abbreviation field :: "(ptr \<rightharpoonup> 'b) \<Rightarrow> ('b \<Rightarrow> 'f) \<Rightarrow> ptr \<Rightarrow> 'f option" where
  "field H f \<equiv> (\<lambda>p. map_option f (H p))"

text \<open>The condition of the walk at a node that exists.\<close>

definition holds_at :: "(ptr \<rightharpoonup> 'b) \<Rightarrow> (ptr \<Rightarrow> 'b \<Rightarrow> bool) \<Rightarrow> ptr \<Rightarrow> bool" where
  "holds_at H P a \<longleftrightarrow> (\<exists>b. H a = Some b \<and> P a b)"

lemma walk_skip:
  assumes "links (field H nxt) pv (xs @ y # ys)" "stop \<notin> set xs" "\<And>x. x \<in> set xs \<Longrightarrow> \<not> holds_at H P x"
  shows "walk H nxt P stop (hd (xs @ [y])) = walk H nxt P stop y"
  using assms
proof (induction xs)
  case (Cons x xs)
  have nx: "map_option nxt (H x) = Some (hd (xs @ [y]))"
    using Cons.prems(1) by (cases xs) auto
  then obtain b where b: "H x = Some b" "nxt b = hd (xs @ [y])" by blast
  have "walk H nxt P stop (hd (xs @ [y])) = walk H nxt P stop y"
  proof (rule Cons.IH)
    show "links (field H nxt) pv (xs @ y # ys)" using Cons.prems(1) by (cases xs) auto
  qed (use Cons.prems in auto)
  with b Cons.prems(2) Cons.prems(3) [of x] show ?case
    by (auto simp: walk.simps [of H nxt P stop x] holds_at_def)
qed simp

lemma walk_found:
  assumes "links (field H nxt) pv (u # xs @ a # ys)" "stop \<notin> set xs" "a \<noteq> stop"
    and "\<And>x. x \<in> set xs \<Longrightarrow> \<not> holds_at H P x" "holds_at H P a"
  shows "walk H nxt P stop (hd (xs @ [a])) = Some (Inr a)"
proof -
  have "links (field H nxt) pv (xs @ a # ys)" using assms(1) by (cases xs) auto
  with assms show ?thesis
    by (subst walk_skip [where pv = pv and ys = ys]) (auto simp: walk.simps [of H nxt P stop a] holds_at_def)
qed

lemma walk_none:
  assumes "links (field H nxt) pv (u # xs @ [stop])" "stop \<notin> set xs"
    and "\<And>x. x \<in> set xs \<Longrightarrow> \<not> holds_at H P x"
  shows "walk H nxt P stop (hd (xs @ [stop])) = Some (Inr stop)"
proof -
  have "links (field H nxt) pv (xs @ [stop])" using assms(1) by (cases xs) auto
  with assms show ?thesis
    by (subst walk_skip [where pv = pv and ys = "[]"]) (auto simp: walk.simps [of H nxt P stop stop])
qed

text \<open>The fields of a map of objects after an update.\<close>

lemma field_update [simp]: "field (H(p \<mapsto> b)) f = (field H f)(p := Some (f b))"
  by (auto simp: fun_eq_iff)

lemma links_member:
  assumes "links (field H nxt) (field H prv) (A @ u # v # B)"
  obtains b c where "H u = Some b" "nxt b = v" "H v = Some c" "prv c = u"
  using assms links_append [of "field H nxt" "field H prv" A u "v # B"] by auto

section \<open>Lists between two sentinels\<close>

text \<open>A bounded list: the nodes \<open>xs\<close> between two sentinels. A walk stops at the first node where the condition holds.\<close>

definition bounded_list :: "(ptr \<rightharpoonup> 'b) \<Rightarrow> ('b \<Rightarrow> ptr) \<Rightarrow> ('b \<Rightarrow> ptr) \<Rightarrow> ptr \<Rightarrow> ptr \<Rightarrow> ptr list \<Rightarrow> bool" where
  "bounded_list H nxt prv h t xs \<longleftrightarrow> chain (field H nxt) (field H prv) (h # xs @ [t]) \<and> distinct (h # xs @ [t])"

lemma bounded_list_head:
  "bounded_list H nxt prv h t xs \<Longrightarrow> \<exists>b. H h = Some b \<and> nxt b = hd (xs @ [t])"
  by (cases xs) (auto simp: bounded_list_def chain_def)

lemma bounded_list_tail:
  assumes "bounded_list H nxt prv h t xs"
  shows "\<exists>b. H t = Some b \<and> prv b = last (h # xs)"
proof -
  obtain A u where L: "h # xs = A @ [u]" by (metis append_butlast_last_id list.discI)
  then have "h # xs @ [t] = A @ u # t # []" by (metis append_Cons append_assoc append_Nil)
  with assms have "links (field H nxt) (field H prv) (A @ u # t # [])" by (simp add: bounded_list_def chain_def)
  from links_member [OF this] obtain b where "H t = Some b" "prv b = u" by metis
  with L show ?thesis by (metis last_snoc)
qed

lemma bounded_list_dom: "bounded_list H nxt prv h t xs \<Longrightarrow> set (h # xs @ [t]) \<subseteq> dom H"
proof -
  assume l: "bounded_list H nxt prv h t xs"
  have "x \<in> dom H" if "x \<in> set xs" for x
  proof -
    from split_list [OF that] obtain A B where x: "xs = A @ x # B" by blast
    obtain v B' where R: "B @ [t] = v # B'" by (cases B) auto
    have "h # xs @ [t] = (h # A) @ x # v # B'" using x R by simp
    with l have "links (field H nxt) (field H prv) ((h # A) @ x # v # B')" unfolding bounded_list_def chain_def by metis
    from links_member [OF this] show ?thesis by (metis domI)
  qed
  with bounded_list_head [OF l] bounded_list_tail [OF l] show ?thesis by auto
qed

lemma bounded_list_cong:
  assumes "bounded_list H nxt prv h t xs"
    and "\<And>p. p \<in> set (h # xs @ [t]) \<Longrightarrow> field H' nxt p = field H nxt p \<and> field H' prv p = field H prv p"
  shows "bounded_list H' nxt prv h t xs"
proof -
  have "links (field H nxt) (field H prv) (h # xs @ [t]) \<longleftrightarrow> links (field H' nxt) (field H' prv) (h # xs @ [t])"
    by (rule links_cong) (use assms(2) in \<open>auto simp: butlast_append dest!: in_set_butlastD\<close>)
  with assms(1) show ?thesis by (simp add: bounded_list_def chain_def)
qed

lemma walk_bounded:
  assumes "bounded_list H nxt prv h t xs" "H h = Some b"
  shows "\<exists>A B. xs = A @ B \<and> walk H nxt P t (nxt b) = Some (Inr (hd (B @ [t]))) \<and>
    (\<forall>p\<in>set A. \<not> holds_at H P p) \<and> (B \<noteq> [] \<longrightarrow> holds_at H P (hd B))"
proof -
  have l: "links (field H nxt) (field H prv) (h # xs @ [t])" and d: "distinct (h # xs @ [t])"
    using assms(1) by (simp_all add: bounded_list_def chain_def)
  have start: "nxt b = hd (xs @ [t])" using bounded_list_head [OF assms(1)] assms(2) by auto
  show ?thesis
  proof (cases "\<exists>p\<in>set xs. holds_at H P p")
    case True
    then obtain A a B where x: "xs = A @ a # B" "holds_at H P a" "\<forall>p\<in>set A. \<not> holds_at H P p"
      using split_list_first_prop [of xs "holds_at H P"] by blast
    have "walk H nxt P t (hd (A @ [a])) = Some (Inr a)"
    proof (rule walk_found)
      show "links (field H nxt) (field H prv) (h # A @ a # B @ [t])" using l x by simp
    qed (use d x in auto)
    moreover have "hd (A @ [a]) = hd (xs @ [t])" using x by (cases A) auto
    ultimately show ?thesis using x start by (intro exI [of _ A] exI [of _ "a # B"]) simp
  next
    case False
    have "walk H nxt P t (hd (xs @ [t])) = Some (Inr t)"
      by (rule walk_none [OF l]) (use d False in auto)
    with False start show ?thesis by (intro exI [of _ xs] exI [of _ "[]"]) simp
  qed
qed

end
