(* ===== verification/ListHead.thy ===== *)
theory ListHead
  imports Links
begin

text \<open>
  The circular doubly linked lists of \<^verbatim>\<open>include/list.h\<close>. A \<^verbatim>\<open>struct list_head\<close> is embedded in the
  objects it links; here the nodes are a map from their addresses, and a list is given by the
  address of its sentry node. \<open>is_list H h xs\<close> says that the list at \<open>h\<close> holds the nodes \<open>xs\<close>.
\<close>

section \<open>Operations\<close>

record list_head =
  lh_next :: ptr
  lh_prev :: ptr

type_synonym list_mem = "ptr \<rightharpoonup> list_head"

definition INIT_LIST_HEAD :: "ptr \<Rightarrow> list_mem \<Rightarrow> list_mem res" where
  "INIT_LIST_HEAD l H =
     and_then (upd H l (lh_next_update (\<lambda>_. l))) (\<lambda>H. upd H l (lh_prev_update (\<lambda>_. l)))"

definition list_add_between :: "ptr \<Rightarrow> ptr \<Rightarrow> ptr \<Rightarrow> list_mem \<Rightarrow> list_mem res" where
  "list_add_between new prv nxt H =
     and_then (upd H nxt (lh_prev_update (\<lambda>_. new))) (\<lambda>H.
     and_then (upd H new (lh_next_update (\<lambda>_. nxt))) (\<lambda>H.
     and_then (upd H new (lh_prev_update (\<lambda>_. prv))) (\<lambda>H.
     upd H prv (lh_next_update (\<lambda>_. new)))))"

definition list_add :: "ptr \<Rightarrow> ptr \<Rightarrow> list_mem \<Rightarrow> list_mem res" where
  "list_add new head H = and_then (ld H head) (\<lambda>hd. list_add_between new head (lh_next hd) H)"

definition list_add_tail :: "ptr \<Rightarrow> ptr \<Rightarrow> list_mem \<Rightarrow> list_mem res" where
  "list_add_tail new head H = and_then (ld H head) (\<lambda>hd. list_add_between new (lh_prev hd) head H)"

definition list_del_between :: "ptr \<Rightarrow> ptr \<Rightarrow> list_mem \<Rightarrow> list_mem res" where
  "list_del_between prv nxt H =
     and_then (upd H nxt (lh_prev_update (\<lambda>_. prv))) (\<lambda>H. upd H prv (lh_next_update (\<lambda>_. nxt)))"

definition list_del :: "ptr \<Rightarrow> list_mem \<Rightarrow> list_mem res" where
  "list_del entry H = and_then (ld H entry) (\<lambda>e. list_del_between (lh_prev e) (lh_next e) H)"

definition list_del_init :: "ptr \<Rightarrow> list_mem \<Rightarrow> list_mem res" where
  "list_del_init entry H =
     and_then (ld H entry) (\<lambda>e.
     and_then (list_del_between (lh_prev e) (lh_next e) H) (\<lambda>H. INIT_LIST_HEAD entry H))"

definition list_is_first :: "ptr \<Rightarrow> ptr \<Rightarrow> list_mem \<Rightarrow> bool res" where
  "list_is_first l head H = and_then (ld H l) (\<lambda>n. Inr (lh_prev n = head))"

definition list_is_last :: "ptr \<Rightarrow> ptr \<Rightarrow> list_mem \<Rightarrow> bool res" where
  "list_is_last l head H = and_then (ld H l) (\<lambda>n. Inr (lh_next n = head))"

definition list_empty :: "ptr \<Rightarrow> list_mem \<Rightarrow> bool res" where
  "list_empty head H = and_then (ld H head) (\<lambda>n. Inr (lh_next n = head))"

definition list_is_singular :: "ptr \<Rightarrow> list_mem \<Rightarrow> bool res" where
  "list_is_singular head H =
     and_then (list_empty head H) (\<lambda>e. if e then Inr False
       else and_then (ld H head) (\<lambda>n. Inr (lh_next n = lh_prev n)))"

section \<open>The list at an address\<close>

definition is_list :: "list_mem \<Rightarrow> ptr \<Rightarrow> ptr list \<Rightarrow> bool" where
  "is_list H h xs \<longleftrightarrow> chain (field H lh_next) (field H lh_prev) (h # xs @ [h])"

lemma is_list_distinct: "is_list H h xs \<Longrightarrow> h \<notin> set xs \<and> distinct xs"
  by (auto simp: is_list_def chain_def butlast_append)

lemma is_list_mem: "is_list H h xs \<Longrightarrow> insert h (set xs) \<subseteq> dom H"
proof -
  assume "is_list H h xs"
  then have l: "links (field H lh_next) (field H lh_prev) (h # xs @ [h])" by (simp add: is_list_def chain_def)
  have "x \<in> dom H" if "x \<in> set (h # xs)" for x
  proof -
    from split_list [OF that] obtain A B where "h # xs = A @ x # B" by blast
    then have "h # xs @ [h] = A @ x # B @ [h]" by (metis append_Cons append_assoc)
    with l have "links (field H lh_next) (field H lh_prev) (A @ x # B @ [h])" by simp
    then have "links (field H lh_next) (field H lh_prev) (x # B @ [h])" using links_append by blast
    then show ?thesis by (cases B) auto
  qed
  then show ?thesis by auto
qed

text \<open>The memory after the four stores of \<^verbatim>\<open>__list_add\<close> and after the two of \<^verbatim>\<open>__list_del\<close>.\<close>

lemma list_add_between_chain:
  assumes "chain (field H lh_next) (field H lh_prev) (A @ u # v # B)"
    and "a \<in> dom H" "a \<notin> set (A @ u # v # B)"
  shows "\<exists>H'. list_add_between a u v H = Inr H' \<and> dom H' = dom H \<and>
    chain (field H' lh_next) (field H' lh_prev) (A @ u # a # v # B) \<and>
    (\<forall>q. q \<notin> {u, a, v} \<longrightarrow> H' q = H q)"
proof -
  obtain b c where bc: "H u = Some b" "lh_next b = v" "H v = Some c" "lh_prev c = u"
    using assms(1) links_member [of lh_next H lh_prev A u v B] by (auto simp: chain_def)
  obtain d where d: "H a = Some d" using assms(2) by blast
  have ne: "a \<noteq> u" "a \<noteq> v" using assms(3) by auto
  let ?c = "c\<lparr>lh_prev := a\<rparr>" and ?d = "d\<lparr>lh_next := v, lh_prev := u\<rparr>"
  let ?b = "(if u = v then ?c else b)\<lparr>lh_next := a\<rparr>"
  let ?H = "H(v \<mapsto> ?c, a \<mapsto> ?d, u \<mapsto> ?b)"
  have "list_add_between a u v H = Inr ?H"
    using bc d ne by (simp add: list_add_between_def)
  moreover have "chain (field ?H lh_next) (field ?H lh_prev) (A @ u # a # v # B)"
  proof -
    have "field ?H lh_next = (field H lh_next)(u := Some a, a := Some v)"
      "field ?H lh_prev = (field H lh_prev)(v := Some a, a := Some u)"
      using bc d ne by (auto simp: fun_eq_iff)
    with chain_insert [OF assms(1,3)] show ?thesis by simp
  qed
  moreover have "dom ?H = dom H" using bc d by auto
  ultimately show ?thesis by auto
qed

lemma list_del_between_chain:
  assumes "chain (field H lh_next) (field H lh_prev) (A @ u # a # v # B)" "a \<noteq> u" "a \<noteq> v"
  shows "\<exists>H'. list_del_between u v H = Inr H' \<and> dom H' = dom H \<and>
    chain (field H' lh_next) (field H' lh_prev) (A @ u # v # B) \<and>
    (\<forall>q. q \<notin> {u, v} \<longrightarrow> H' q = H q)"
proof -
  obtain b e where "H u = Some b" "lh_next b = a" and e: "H a = Some e" "lh_prev e = u"
    using assms(1) links_member [of lh_next H lh_prev A u a "v # B"] by (auto simp: chain_def)
  moreover obtain c where "lh_next e = v" "H v = Some c" "lh_prev c = a"
    using assms(1) links_member [of lh_next H lh_prev "A @ [u]" a v B] e by (auto simp: chain_def)
  ultimately have bc: "H u = Some b" "H v = Some c" "lh_prev c = a" "lh_next b = a" by auto
  let ?c = "c\<lparr>lh_prev := u\<rparr>"
  let ?b = "(if u = v then ?c else b)\<lparr>lh_next := v\<rparr>"
  let ?H = "H(v \<mapsto> ?c, u \<mapsto> ?b)"
  have "list_del_between u v H = Inr ?H"
    using bc by (simp add: list_del_between_def)
  moreover have "chain (field ?H lh_next) (field ?H lh_prev) (A @ u # v # B)"
  proof -
    have "field ?H lh_next = (field H lh_next)(u := Some v)"
      "field ?H lh_prev = (field H lh_prev)(v := Some u)"
      using bc by (auto simp: fun_eq_iff)
    with chain_delete [OF assms(1)] show ?thesis by simp
  qed
  moreover have "dom ?H = dom H" using bc by auto
  ultimately show ?thesis by auto
qed


section \<open>The operations on lists\<close>

lemma list_add_spec:
  assumes "is_list H h xs" "a \<in> dom H" "a \<noteq> h" "a \<notin> set xs"
  shows "\<exists>H'. list_add a h H = Inr H' \<and> dom H' = dom H \<and> is_list H' h (a # xs) \<and>
    (\<forall>q. q \<notin> insert a (insert h (set xs)) \<longrightarrow> H' q = H q)"
proof -
  obtain v B where L: "h # xs @ [h] = [] @ h # v # B" "v = hd (xs @ [h])" "set (v # B) = insert h (set xs)"
    by (cases xs) auto
  then have c: "chain (field H lh_next) (field H lh_prev) ([] @ h # v # B)"
    using assms(1) by (simp add: is_list_def)
  then obtain b where b: "H h = Some b" "lh_next b = v"
    using links_member [of lh_next H lh_prev "[]" h v B] by (auto simp: chain_def)
  have "a \<notin> set ([] @ h # v # B)" using assms(3,4) L(3) by auto
  from list_add_between_chain [OF c assms(2) this] obtain H' where
    H': "list_add_between a h v H = Inr H'" "dom H' = dom H"
    "chain (field H' lh_next) (field H' lh_prev) ([] @ h # a # v # B)" "\<forall>q. q \<notin> {h, a, v} \<longrightarrow> H' q = H q"
    by blast
  have "v \<in> insert h (set xs)" using L(3) by auto
  then have "\<forall>q. q \<notin> insert a (insert h (set xs)) \<longrightarrow> H' q = H q" by (intro allI impI H'(4) [rule_format]) auto
  moreover have "is_list H' h (a # xs)" using H'(3) L(1) by (simp add: is_list_def)
  ultimately show ?thesis using b H'(1,2) by (simp add: list_add_def)
qed

lemma list_add_tail_spec:
  assumes "is_list H h xs" "a \<in> dom H" "a \<noteq> h" "a \<notin> set xs"
  shows "\<exists>H'. list_add_tail a h H = Inr H' \<and> dom H' = dom H \<and> is_list H' h (xs @ [a]) \<and>
    (\<forall>q. q \<notin> insert a (insert h (set xs)) \<longrightarrow> H' q = H q)"
proof -
  obtain A u where L: "h # xs = A @ [u]" by (metis append_butlast_last_id list.discI)
  then have s: "set (A @ [u]) = insert h (set xs)" by (metis list.simps(15))
  have L': "h # xs @ [h] = A @ u # h # []" "h # (xs @ [a]) @ [h] = A @ u # a # h # []"
    using L by (metis append_Cons append_assoc append_Nil)+
  have c: "chain (field H lh_next) (field H lh_prev) (A @ u # h # [])"
    using assms(1) unfolding is_list_def L'(1) .
  then obtain b where b: "H h = Some b" "lh_prev b = u"
    using links_member [of lh_next H lh_prev A u h "[]"] by (auto simp: chain_def)
  have "a \<notin> set (A @ u # h # [])" using assms(3,4) s by auto
  from list_add_between_chain [OF c assms(2) this] obtain H' where
    H': "list_add_between a u h H = Inr H'" "dom H' = dom H"
    "chain (field H' lh_next) (field H' lh_prev) (A @ u # a # h # [])" "\<forall>q. q \<notin> {u, a, h} \<longrightarrow> H' q = H q"
    by blast
  have "u \<in> insert h (set xs)" using s by auto
  then have "\<forall>q. q \<notin> insert a (insert h (set xs)) \<longrightarrow> H' q = H q" by (intro allI impI H'(4) [rule_format]) auto
  moreover have "is_list H' h (xs @ [a])" using H'(3) unfolding is_list_def L'(2) .
  ultimately show ?thesis using b H'(1,2) by (simp add: list_add_tail_def)
qed

lemma list_del_spec:
  assumes "is_list H h (xs @ a # ys)"
  shows "\<exists>H'. list_del a H = Inr H' \<and> dom H' = dom H \<and> is_list H' h (xs @ ys) \<and> H' a = H a \<and>
    (\<forall>q. q \<notin> insert h (set xs \<union> set ys) \<longrightarrow> H' q = H q)"
proof -
  obtain A u where L: "h # xs = A @ [u]" by (metis append_butlast_last_id list.discI)
  obtain v B where R: "ys @ [h] = v # B" by (cases ys) auto
  have s: "set (A @ [u]) = insert h (set xs)" "set (v # B) = insert h (set ys)"
    using arg_cong [OF L, of set] arg_cong [OF R, of set] by auto
  have LR: "h # (xs @ a # ys) @ [h] = A @ u # a # v # B" "h # (xs @ ys) @ [h] = A @ u # v # B"
    using L R by (metis append_Cons append_assoc append_Nil)+
  have c: "chain (field H lh_next) (field H lh_prev) (A @ u # a # v # B)"
    using assms unfolding is_list_def LR(1) .
  have l: "links (field H lh_next) (field H lh_prev) (A @ u # a # v # B)"
    "links (field H lh_next) (field H lh_prev) ((A @ [u]) @ a # v # B)"
    using c by (simp_all add: chain_def)
  from links_member [OF l(1)] obtain e where e1: "H a = Some e" "lh_prev e = u" by metis
  moreover from links_member [OF l(2)] obtain e' where "H a = Some e'" "lh_next e' = v" by metis
  ultimately have e: "H a = Some e" "lh_prev e = u" "lh_next e = v" by auto
  have "a \<notin> insert h (set xs \<union> set ys)" using is_list_distinct [OF assms] by auto
  then have ne: "a \<noteq> u" "a \<noteq> v" using s by auto
  from list_del_between_chain [OF c this] obtain H' where
    H': "list_del_between u v H = Inr H'" "dom H' = dom H"
    "chain (field H' lh_next) (field H' lh_prev) (A @ u # v # B)" "\<forall>q. q \<notin> {u, v} \<longrightarrow> H' q = H q"
    by blast
  have "u \<in> insert h (set xs)" "v \<in> insert h (set ys)" using s by auto
  then have "\<forall>q. q \<notin> insert h (set xs \<union> set ys) \<longrightarrow> H' q = H q" by (intro allI impI H'(4) [rule_format]) auto
  moreover have "is_list H' h (xs @ ys)" using H'(3) unfolding is_list_def LR(2) .
  ultimately show ?thesis using e ne H' by (simp add: list_del_def)
qed

lemma INIT_LIST_HEAD_spec:
  assumes "a \<in> dom H"
  shows "\<exists>H'. INIT_LIST_HEAD a H = Inr H' \<and> dom H' = dom H \<and> is_list H' a [] \<and> (\<forall>q. q \<noteq> a \<longrightarrow> H' q = H q)"
proof -
  obtain b where "H a = Some b" using assms by blast
  then show ?thesis by (auto simp: INIT_LIST_HEAD_def is_list_def chain_def)
qed

lemma is_list_frame:
  assumes "is_list H h xs" "\<And>q. q \<in> insert h (set xs) \<Longrightarrow> H' q = H q"
  shows "is_list H' h xs"
proof -
  have "links (field H lh_next) (field H lh_prev) (h # xs @ [h]) \<longleftrightarrow>
      links (field H' lh_next) (field H' lh_prev) (h # xs @ [h])"
    by (rule links_cong) (use assms(2) in \<open>auto simp: butlast_append dest!: in_set_butlastD\<close>)
  with assms(1) show ?thesis by (simp add: is_list_def chain_def)
qed

lemma list_del_init_spec:
  assumes "is_list H h (xs @ a # ys)"
  shows "\<exists>H'. list_del_init a H = Inr H' \<and> dom H' = dom H \<and> is_list H' h (xs @ ys) \<and> is_list H' a [] \<and>
    (\<forall>q. q \<notin> insert a (insert h (set xs \<union> set ys)) \<longrightarrow> H' q = H q)"
proof -
  obtain H1 where 1: "list_del a H = Inr H1" "dom H1 = dom H" "is_list H1 h (xs @ ys)"
    "\<And>q. q \<notin> insert h (set xs \<union> set ys) \<Longrightarrow> H1 q = H q"
    using list_del_spec [OF assms] by blast
  have "a \<in> dom H1" using is_list_mem [OF assms] 1(2) by auto
  then obtain H2 where 2: "INIT_LIST_HEAD a H1 = Inr H2" "dom H2 = dom H1" "is_list H2 a []" "\<And>q. q \<noteq> a \<Longrightarrow> H2 q = H1 q"
    using INIT_LIST_HEAD_spec by blast
  have "list_del_init a H = Inr H2"
    using 1(1) 2(1) by (auto simp: list_del_init_def list_del_def and_then_def split: sum.splits)
  moreover have "is_list H2 h (xs @ ys)"
  proof (rule is_list_frame [OF 1(3)])
    fix q assume "q \<in> insert h (set (xs @ ys))"
    then have "q \<noteq> a" using is_list_distinct [OF assms] by auto
    then show "H2 q = H1 q" by (rule 2(4))
  qed
  ultimately show ?thesis using 1 2 by auto
qed

lemma list_empty_spec: "is_list H h xs \<Longrightarrow> list_empty h H = Inr (xs = [])"
  by (cases xs) (auto simp: is_list_def chain_def list_empty_def)

lemma list_ends_spec:
  assumes "is_list H h (xs @ a # ys)"
  shows "list_is_first a h H = Inr (xs = [])" "list_is_last a h H = Inr (ys = [])"
proof -
  have d: "h \<notin> set xs" "h \<notin> set ys" using is_list_distinct [OF assms] by auto
  have l: "links (field H lh_next) (field H lh_prev) (h # xs @ a # ys @ [h])"
    using assms by (simp add: is_list_def chain_def)
  show "list_is_first a h H = Inr (xs = [])"
  proof (cases xs rule: rev_cases)
    case (snoc A u)
    with l have "links (field H lh_next) (field H lh_prev) ((h # A) @ u # a # ys @ [h])" by simp
    from links_member [OF this] obtain c where "H a = Some c" "lh_prev c = u" by metis
    with d snoc show ?thesis by (auto simp: list_is_first_def)
  qed (use l in \<open>auto simp: list_is_first_def\<close>)
  show "list_is_last a h H = Inr (ys = [])"
  proof (cases ys)
    case Nil
    with l have "links (field H lh_next) (field H lh_prev) ((h # xs) @ a # h # [])" by simp
    from links_member [OF this] obtain c where "H a = Some c" "lh_next c = h" by metis
    with Nil show ?thesis by (auto simp: list_is_last_def)
  next
    case (Cons v B)
    with l have "links (field H lh_next) (field H lh_prev) ((h # xs) @ a # v # B @ [h])" by simp
    from links_member [OF this] obtain c where "H a = Some c" "lh_next c = v" by metis
    with d Cons show ?thesis by (auto simp: list_is_last_def)
  qed
qed

lemma list_is_singular_spec:
  assumes "is_list H h xs"
  shows "list_is_singular h H = Inr (length xs = 1)"
proof (cases xs)
  case Nil
  with assms show ?thesis by (simp add: list_is_singular_def list_empty_spec)
next
  case (Cons x ys)
  have d: "x \<notin> set ys" using is_list_distinct [OF assms] Cons by simp
  have l: "links (field H lh_next) (field H lh_prev) (h # x # ys @ [h])"
    using assms Cons by (simp add: is_list_def chain_def)
  obtain A u where u: "x # ys = A @ [u]" by (metis append_butlast_last_id list.discI)
  then have "h # x # ys @ [h] = (h # A) @ u # h # []" by (metis append_Cons append_assoc append_Nil)
  with l have "links (field H lh_next) (field H lh_prev) ((h # A) @ u # h # [])" by simp
  from links_member [OF this] obtain b where b: "H h = Some b" "lh_prev b = u" by metis
  have "x = u \<longleftrightarrow> ys = []" using u d by (cases A) auto
  with l b Cons list_empty_spec [OF assms] show ?thesis by (auto simp: list_is_singular_def)
qed

section \<open>Properties\<close>

text \<open>
  C34. The list operations are the operations on sequences: \<^verbatim>\<open>list_add\<close> puts a new node in front,
  \<^verbatim>\<open>list_add_tail\<close> at the end, \<^verbatim>\<open>list_del\<close> and \<^verbatim>\<open>list_del_init\<close> take a node out wherever it is, the
  latter leaving it an empty list. No access faults, and no node outside the list is changed.
\<close>

theorem list_update_correct:
  assumes "is_list H h (xs @ a # ys)" "n \<in> dom H" "n \<notin> set (h # xs @ a # ys)"
  shows "\<exists>Ha Ht Hd Hi.
    list_add n h H = Inr Ha \<and> is_list Ha h (n # xs @ a # ys) \<and>
    list_add_tail n h H = Inr Ht \<and> is_list Ht h (xs @ a # ys @ [n]) \<and>
    list_del a H = Inr Hd \<and> is_list Hd h (xs @ ys) \<and>
    list_del_init a H = Inr Hi \<and> is_list Hi h (xs @ ys) \<and> is_list Hi a [] \<and>
    (\<forall>q. q \<notin> set (n # h # xs @ a # ys) \<longrightarrow> Ha q = H q \<and> Ht q = H q \<and> Hd q = H q \<and> Hi q = H q)"
proof -
  have n: "n \<noteq> h" "n \<notin> set (xs @ a # ys)" using assms(3) by auto
  obtain Ha where Ha: "list_add n h H = Inr Ha" "is_list Ha h (n # xs @ a # ys)"
    "\<And>q. q \<notin> set (n # h # xs @ a # ys) \<Longrightarrow> Ha q = H q"
    using list_add_spec [OF assms(1,2) n] by auto
  obtain Ht where Ht: "list_add_tail n h H = Inr Ht" "is_list Ht h (xs @ a # ys @ [n])"
    "\<And>q. q \<notin> set (n # h # xs @ a # ys) \<Longrightarrow> Ht q = H q"
    using list_add_tail_spec [OF assms(1,2) n] by auto
  obtain Hd where Hd: "list_del a H = Inr Hd" "is_list Hd h (xs @ ys)"
    "\<And>q. q \<notin> set (n # h # xs @ a # ys) \<Longrightarrow> Hd q = H q"
    using list_del_spec [OF assms(1)] by auto
  obtain Hi where Hi: "list_del_init a H = Inr Hi" "is_list Hi h (xs @ ys)" "is_list Hi a []"
    "\<And>q. q \<notin> set (n # h # xs @ a # ys) \<Longrightarrow> Hi q = H q"
    using list_del_init_spec [OF assms(1)] by auto
  show ?thesis
    by (rule exI [of _ Ha], rule exI [of _ Ht], rule exI [of _ Hd], rule exI [of _ Hi])
      (simp only: Ha(1,2) Ht(1,2) Hd(1,2) Hi(1-3) simp_thms, use Ha(3) Ht(3) Hd(3) Hi(4) in presburger)
qed

text \<open>A list with the nodes 2, 3 at the sentry 1, and a node 4 outside it.\<close>

definition list_example :: list_mem where
  "list_example = [1 \<mapsto> \<lparr>lh_next = 2, lh_prev = 3\<rparr>, 2 \<mapsto> \<lparr>lh_next = 3, lh_prev = 1\<rparr>,
     3 \<mapsto> \<lparr>lh_next = 1, lh_prev = 2\<rparr>, 4 \<mapsto> \<lparr>lh_next = 0, lh_prev = 0\<rparr>]"

lemma list_example_list: "is_list list_example 1 ([] @ 2 # [3])" "4 \<in> dom list_example"
  by (simp_all add: is_list_def chain_def list_example_def)

theorem list_update_correct_witness:
  "\<exists>Ha Hd. list_add 4 1 list_example = Inr Ha \<and> is_list Ha 1 [4, 2, 3] \<and>
    list_del 2 list_example = Inr Hd \<and> is_list Hd 1 [3]"
proof -
  have "4 \<notin> set (1 # [] @ 2 # [3 :: ptr])" by simp
  from list_update_correct [OF list_example_list this] show ?thesis by auto
qed

end
