(* ===== verification/Util.thy ===== *)
theory Util
  imports Prelude
begin

text \<open>
  The macros of \<^verbatim>\<open>include/util.h\<close>: sizes, alignment to powers of two, rounding and the
  interval overlap test. \<^verbatim>\<open>unsigned long\<close> has 4 bytes and 32 bits here.
\<close>

section \<open>Word size\<close>

definition WORD_SHIFT :: nat where
  "WORD_SHIFT = 2"

definition WORD_SIZE :: nat where
  "WORD_SIZE = 4"

definition BITS_PER_LONG :: nat where
  "BITS_PER_LONG = 32"

definition BITS_PER_LONG_LOG :: nat where
  "BITS_PER_LONG_LOG = 5"

definition BITS_PER_LONG_MASK :: u32 where
  "BITS_PER_LONG_MASK = 31"

definition sizeof_ulong :: nat where
  "sizeof_ulong = 4"

section \<open>Rounding\<close>

definition min2 :: "'a::linorder \<Rightarrow> 'a \<Rightarrow> 'a" where
  "min2 a b = (if a < b then a else b)"

definition max2 :: "'a::linorder \<Rightarrow> 'a \<Rightarrow> 'a" where
  "max2 a b = (if b < a then a else b)"

definition DIV_ROUND_UP :: "nat \<Rightarrow> nat \<Rightarrow> nat" where
  "DIV_ROUND_UP n d = (n + d - 1) div d"

text \<open>The divisor is the size of an \<^verbatim>\<open>unsigned long\<close> in bytes, as the macro has it.\<close>

definition BITS_TO_LONGS :: "nat \<Rightarrow> nat" where
  "BITS_TO_LONGS n = DIV_ROUND_UP n sizeof_ulong"

definition BIT_WORD :: "nat \<Rightarrow> nat" where
  "BIT_WORD nr = nr div BITS_PER_LONG"

definition ROUNDUP :: "nat \<Rightarrow> nat \<Rightarrow> nat" where
  "ROUNDUP x d = DIV_ROUND_UP x d * d"

definition ROUNDDOWN :: "nat \<Rightarrow> nat \<Rightarrow> nat" where
  "ROUNDDOWN x d = x - x mod d"

section \<open>Alignment\<close>

definition ALIGN_MASK :: "'a::len word \<Rightarrow> 'a word" where
  "ALIGN_MASK a = a - 1"

definition IS_ALIGNED :: "'a::len word \<Rightarrow> 'a word \<Rightarrow> bool" where
  "IS_ALIGNED x a \<longleftrightarrow> x AND ALIGN_MASK a = 0"

definition ALIGN_ABOVE :: "'a::len word \<Rightarrow> 'a word \<Rightarrow> 'a word" where
  "ALIGN_ABOVE x a = ((x - 1) OR ALIGN_MASK a) + 1"

definition ALIGN_BELOW :: "'a::len word \<Rightarrow> 'a word \<Rightarrow> 'a word" where
  "ALIGN_BELOW x a = x AND NOT (ALIGN_MASK a)"

definition ALIGN_PREV :: "'a::len word \<Rightarrow> 'a word \<Rightarrow> 'a word" where
  "ALIGN_PREV x a = ALIGN_BELOW (x - 1) a"

definition ALIGN_NEXT :: "'a::len word \<Rightarrow> 'a word \<Rightarrow> 'a word" where
  "ALIGN_NEXT x a = ALIGN_ABOVE (x + 1) a"

section \<open>Overlapping ranges\<close>

definition OVERLAP :: "'a::len word \<Rightarrow> 'a word \<Rightarrow> 'a word \<Rightarrow> 'a word \<Rightarrow> bool" where
  "OVERLAP st1 len1 st2 len2 \<longleftrightarrow>
     (st1 > st2 \<and> st1 < st2 + len2) \<or> (st2 > st1 \<and> st2 < st1 + len1)"

section \<open>Lemmas\<close>

lemmas util_consts = WORD_SHIFT_def WORD_SIZE_def BITS_PER_LONG_def BITS_PER_LONG_LOG_def
  BITS_PER_LONG_MASK_def sizeof_ulong_def

lemma min2_min [simp]: "min2 a b = min a b"
  using less_imp_le by (auto simp: min2_def min_def not_less)

lemma max2_max [simp]: "max2 a b = max a b"
  using less_imp_le by (auto simp: max2_def max_def not_less)

text \<open>Masks and powers of two.\<close>

lemma ALIGN_MASK_pow2: "ALIGN_MASK (2 ^ k :: 'a::len word) = mask k"
  by (simp add: ALIGN_MASK_def mask_eq_exp_minus_1)

lemma unat_pow2: "k < LENGTH('a) \<Longrightarrow> unat (2 ^ k :: 'a::len word) = 2 ^ k"
  by transfer simp

lemma and_not_mask: "x AND NOT (mask k) = push_bit k (drop_bit k x)" for x :: "'a::len word"
  by (rule bit_word_eqI) (auto simp: bit_simps)

lemma unat_and_mask: "unat (x AND mask k) = unat x mod 2 ^ k" for x :: "'a::len word"
  unfolding take_bit_eq_mask [symmetric] unsigned_take_bit_eq by (simp add: take_bit_eq_mod)

lemma unat_and_not_mask: "unat (x AND NOT (mask k)) = unat x div 2 ^ k * 2 ^ k"
  for x :: "'a::len word"
proof -
  have "x = (x AND NOT (mask k)) + (x AND mask k)"
    by (subst disjunctive_add) (auto simp: bit_simps intro: bit_word_eqI)
  moreover have "unat (x AND NOT (mask k)) \<le> unat x"
    by (metis and.commute word_and_le2 word_le_nat_alt)
  ultimately have "x AND NOT (mask k) = x - (x AND mask k)"
    by (metis add_diff_cancel_right')
  moreover have "x AND mask k \<le> x"
    by (simp add: word_and_le2 and.commute)
  ultimately have "unat (x AND NOT (mask k)) = unat x - unat (x AND mask k)"
    by (simp add: unat_sub)
  then show ?thesis
    by (simp add: unat_and_mask minus_mod_eq_div_mult)
qed

lemma unat_ALIGN_BELOW:
  "unat (ALIGN_BELOW x (2 ^ k)) = unat x div 2 ^ k * 2 ^ k" for x :: "'a::len word"
  by (simp add: ALIGN_BELOW_def ALIGN_MASK_pow2 unat_and_not_mask)

lemma IS_ALIGNED_iff: "IS_ALIGNED x (2 ^ k) \<longleftrightarrow> 2 ^ k dvd unat x" for x :: "'a::len word"
proof -
  have "IS_ALIGNED x (2 ^ k) \<longleftrightarrow> unat (x AND mask k) = 0"
    by (simp add: IS_ALIGNED_def ALIGN_MASK_pow2 unat_eq_0)
  then show ?thesis
    by (simp add: unat_and_mask mod_eq_0_iff_dvd)
qed

lemma IS_ALIGNED_ALIGN_BELOW: "IS_ALIGNED (ALIGN_BELOW x (2 ^ k)) (2 ^ k)"
  for x :: "'a::len word"
  by (simp add: IS_ALIGNED_iff unat_ALIGN_BELOW)

lemma or_mask_eq: "x OR mask k = (x AND NOT (mask k)) + mask k" for x :: "'a::len word"
  by (subst disjunctive_add) (auto simp: bit_simps intro: bit_word_eqI)

text \<open>Rounding up is exact unless it passes the top of the word.\<close>

lemma unat_ALIGN_ABOVE:
  fixes x :: "'a::len word"
  assumes k: "k < LENGTH('a)" and fit: "unat x + (2 ^ k - 1) < 2 ^ LENGTH('a)"
  shows "unat (ALIGN_ABOVE x (2 ^ k)) = (unat x + (2 ^ k - 1)) div 2 ^ k * 2 ^ k"
proof (cases "x = 0")
  case True
  have "ALIGN_ABOVE 0 (2 ^ k :: 'a word) = 0"
    by (simp add: ALIGN_ABOVE_def)
  with True show ?thesis by simp
next
  case False
  let ?y = "unat x - 1"
  let ?z = "?y div 2 ^ k * 2 ^ k"
  from False have pos: "0 < unat x" by (simp add: unat_gt_0)
  have m1: "(mask k :: 'a word) + 1 = 2 ^ k"
    by (simp add: mask_eq_exp_minus_1)
  have eq: "ALIGN_ABOVE x (2 ^ k) = ((x - 1) AND NOT (mask k)) + 2 ^ k"
    unfolding ALIGN_ABOVE_def ALIGN_MASK_pow2 or_mask_eq by (simp add: add.assoc m1)
  have u1: "unat (x - 1) = ?y"
    using False by (simp add: unat_minus_one)
  have uz: "unat ((x - 1) AND NOT (mask k)) = ?z"
    by (simp add: unat_and_not_mask u1)
  have up: "unat (2 ^ k :: 'a word) = 2 ^ k"
    by (rule unat_pow2 [OF k])
  have div: "(unat x + (2 ^ k - 1)) div 2 ^ k = ?y div 2 ^ k + 1"
  proof -
    have "unat x + (2 ^ k - 1) = ?y + 2 ^ k"
      using pos by (simp add: algebra_simps)
    then show ?thesis
      by (simp only: div_add_self2 [OF power_not_zero])
  qed
  have lt: "?z + 2 ^ k < 2 ^ LENGTH('a)"
  proof -
    have "?z + 2 ^ k \<le> ?y + 2 ^ k" by simp
    also have "\<dots> = unat x + (2 ^ k - 1)" using pos by (simp add: algebra_simps)
    finally show ?thesis using fit by simp
  qed
  have "unat (ALIGN_ABOVE x (2 ^ k)) = ?z + 2 ^ k"
    unfolding eq using lt by (simp add: unat_word_ariths uz up)
  then show ?thesis
    by (simp only: div) (simp add: distrib_right)
qed

lemma IS_ALIGNED_ALIGN_ABOVE:
  fixes x :: "'a::len word"
  assumes "k < LENGTH('a)" and "unat x + (2 ^ k - 1) < 2 ^ LENGTH('a)"
  shows "IS_ALIGNED (ALIGN_ABOVE x (2 ^ k)) (2 ^ k)"
  unfolding IS_ALIGNED_iff unat_ALIGN_ABOVE [OF assms] by simp

end
