(* ===== verification/Libc.thy ===== *)
theory Libc
  imports Util
begin

unbundle bit_operations_syntax

text \<open>
  The memory and string functions of \<^verbatim>\<open>lib/libc\<close>, on a memory of bytes. An access to a byte that is
  not there is a \<open>Fault\<close>, and so is a word access at an address that is not a multiple of four.
  \<^verbatim>\<open>TLOOP\<close> and \<^verbatim>\<open>TLOOP1\<close> are the loop macros of \<^verbatim>\<open>memcpy.c\<close> and \<^verbatim>\<open>memmove.c\<close>.
\<close>

section \<open>Byte memory\<close>

type_synonym bytes = "ptr \<rightharpoonup> u8"

definition wsize :: u32 where "wsize = 4"
definition wmask :: u32 where "wmask = wsize - 1"

definition ld8 :: "bytes \<Rightarrow> ptr \<Rightarrow> u8 res" where
  "ld8 m p = ld m p"

definition st8 :: "bytes \<Rightarrow> ptr \<Rightarrow> u8 \<Rightarrow> bytes res" where
  "st8 m p b = upd m p (\<lambda>_. b)"

definition ld32 :: "bytes \<Rightarrow> ptr \<Rightarrow> u32 res" where
  "ld32 m p =
     (if p AND wmask \<noteq> 0 then Inl Fault
      else and_then (ld8 m p) (\<lambda>b0. and_then (ld8 m (p + 1)) (\<lambda>b1.
           and_then (ld8 m (p + 2)) (\<lambda>b2. and_then (ld8 m (p + 3)) (\<lambda>b3.
           Inr (ucast b0 OR push_bit 8 (ucast b1) OR push_bit 16 (ucast b2) OR push_bit 24 (ucast b3)))))))"

definition st32 :: "bytes \<Rightarrow> ptr \<Rightarrow> u32 \<Rightarrow> bytes res" where
  "st32 m p w =
     (if p AND wmask \<noteq> 0 then Inl Fault
      else and_then (st8 m p (ucast w)) (\<lambda>m. and_then (st8 m (p + 1) (ucast (drop_bit 8 w))) (\<lambda>m.
           and_then (st8 m (p + 2) (ucast (drop_bit 16 w))) (\<lambda>m. st8 m (p + 3) (ucast (drop_bit 24 w))))))"

definition TLOOP1 :: "('s \<Rightarrow> 's res) \<Rightarrow> u32 \<Rightarrow> 's \<Rightarrow> 's res" where
  "TLOOP1 body t s =
     returns (loop (\<lambda>(t, s). and_then (body s) (\<lambda>s. Inr (if t - 1 \<noteq> 0 then Cont (t - 1, s) else Break s))) (t, s))"

definition TLOOP :: "('s \<Rightarrow> 's res) \<Rightarrow> u32 \<Rightarrow> 's \<Rightarrow> 's res" where
  "TLOOP body t s = (if t \<noteq> 0 then TLOOP1 body t s else Inr s)"

definition byte_up :: "ptr \<times> ptr \<times> bytes \<Rightarrow> (ptr \<times> ptr \<times> bytes) res" where
  "byte_up = (\<lambda>(dst, src, m). and_then (ld8 m src) (\<lambda>b. and_then (st8 m dst b) (\<lambda>m. Inr (dst + 1, src + 1, m))))"

definition word_up :: "ptr \<times> ptr \<times> bytes \<Rightarrow> (ptr \<times> ptr \<times> bytes) res" where
  "word_up = (\<lambda>(dst, src, m). and_then (ld32 m src) (\<lambda>w. and_then (st32 m dst w) (\<lambda>m. Inr (dst + wsize, src + wsize, m))))"

definition byte_down :: "ptr \<times> ptr \<times> bytes \<Rightarrow> (ptr \<times> ptr \<times> bytes) res" where
  "byte_down = (\<lambda>(dst, src, m). and_then (ld8 m (src - 1)) (\<lambda>b. and_then (st8 m (dst - 1) b) (\<lambda>m. Inr (dst - 1, src - 1, m))))"

definition word_down :: "ptr \<times> ptr \<times> bytes \<Rightarrow> (ptr \<times> ptr \<times> bytes) res" where
  "word_down = (\<lambda>(dst, src, m). let src = src - wsize; dst = dst - wsize in
     and_then (ld32 m src) (\<lambda>w. and_then (st32 m dst w) (\<lambda>m. Inr (dst, src, m))))"

definition copy_forward :: "ptr \<Rightarrow> ptr \<Rightarrow> u32 \<Rightarrow> bytes \<Rightarrow> bytes res" where
  "copy_forward dst src len m =
     and_then (if (src OR dst) AND wmask \<noteq> 0
               then let t = (if (src XOR dst) AND wmask \<noteq> 0 \<or> len < wsize then len else wsize - (src AND wmask)) in
                 and_then (TLOOP1 byte_up t (dst, src, m)) (\<lambda>x. Inr (len - t, x))
               else Inr (len, dst, src, m)) (\<lambda>(len, x).
     and_then (TLOOP word_up (len div wsize) x) (\<lambda>x.
     and_then (TLOOP byte_up (len AND wmask) x) (\<lambda>(_, _, m). Inr m)))"

definition memcpy :: "ptr \<Rightarrow> ptr \<Rightarrow> u32 \<Rightarrow> bytes \<Rightarrow> (ptr \<times> bytes) res" where
  "memcpy dst0 src0 len m =
     (if len = 0 \<or> dst0 = src0 then Inr (dst0, m)
      else and_then (copy_forward dst0 src0 len m) (\<lambda>m. Inr (dst0, m)))"

definition copy_backward :: "ptr \<Rightarrow> ptr \<Rightarrow> u32 \<Rightarrow> bytes \<Rightarrow> bytes res" where
  "copy_backward dst src len m =
     (let src = src + len; dst = dst + len in
      and_then (if (src OR dst) AND wmask \<noteq> 0
               then let t = (if (src XOR dst) AND wmask \<noteq> 0 \<or> len \<le> wsize then len else src AND wmask) in
                 and_then (TLOOP1 byte_down t (dst, src, m)) (\<lambda>x. Inr (len - t, x))
               else Inr (len, dst, src, m)) (\<lambda>(len, x).
      and_then (TLOOP word_down (len div wsize) x) (\<lambda>x.
      and_then (TLOOP byte_down (len AND wmask) x) (\<lambda>(_, _, m). Inr m))))"

definition memmove :: "ptr \<Rightarrow> ptr \<Rightarrow> u32 \<Rightarrow> bytes \<Rightarrow> (ptr \<times> bytes) res" where
  "memmove dst0 src0 len m =
     (if len = 0 \<or> dst0 = src0 then Inr (dst0, m)
      else if dst0 < src0 then and_then (copy_forward dst0 src0 len m) (\<lambda>m. Inr (dst0, m))
      else and_then (copy_backward dst0 src0 len m) (\<lambda>m. Inr (dst0, m)))"

definition memset :: "ptr \<Rightarrow> u32 \<Rightarrow> u32 \<Rightarrow> bytes \<Rightarrow> (ptr \<times> bytes) res" where
  "memset dst c n m =
     (if n \<noteq> 0
      then and_then (TLOOP1 (\<lambda>(d, m). and_then (st8 m d (ucast c)) (\<lambda>m. Inr (d + 1, m))) n (dst, m)) (\<lambda>(_, m). Inr (dst, m))
      else Inr (dst, m))"

definition memcmp :: "ptr \<Rightarrow> ptr \<Rightarrow> u32 \<Rightarrow> bytes \<Rightarrow> int res" where
  "memcmp s1 s2 n m =
     returns (loop (\<lambda>(n, l, r).
       if n \<noteq> 0
       then and_then (ld8 m l) (\<lambda>a. and_then (ld8 m r) (\<lambda>b.
            if a = b then Inr (Cont (n - 1, l + 1, r + 1)) else Inr (Break (uint a - uint b))))
       else Inr (Break 0)) (n, s1, s2))"

text \<open>\<^verbatim>\<open>char\<close> is signed on this target, the final difference is of \<^verbatim>\<open>unsigned char\<close> values.\<close>

definition strcmp :: "ptr \<Rightarrow> ptr \<Rightarrow> bytes \<Rightarrow> int res" where
  "strcmp s1 s2 m =
     returns (loop (\<lambda>(s1, s2).
       and_then (ld8 m s1) (\<lambda>a. and_then (ld8 m s2) (\<lambda>b.
       if a = b
       then if a = 0 then Inr (Break 0) else Inr (Cont (s1 + 1, s2 + 1))
       else Inr (Break (uint a - uint b))))) (s1, s2))"

text \<open>The copy loop of \<open>strlcpy\<close> ends with the two pointers, the room left and the memory.\<close>

definition strlcpy_copy :: "ptr \<Rightarrow> ptr \<Rightarrow> u32 \<Rightarrow> bytes \<Rightarrow> (ptr \<times> ptr \<times> u32 \<times> bytes) res" where
  "strlcpy_copy d s n m =
     returns (loop (\<lambda>(d, s, n, m).
       and_then (ld8 m s) (\<lambda>b. and_then (st8 m d b) (\<lambda>m.
       if b = 0 then Inr (Break (d + 1, s + 1, n, m))
       else if n - 1 \<noteq> 0 then Inr (Cont (d + 1, s + 1, n - 1, m))
       else Inr (Break (d + 1, s + 1, n - 1, m))))) (d, s, n, m))"

definition skip_string :: "ptr \<Rightarrow> bytes \<Rightarrow> ptr res" where
  "skip_string s m =
     returns (loop (\<lambda>s. and_then (ld8 m s) (\<lambda>b. if b \<noteq> 0 then Inr (Cont (s + 1)) else Inr (Break (s + 1)))) s)"

definition strlcpy :: "ptr \<Rightarrow> ptr \<Rightarrow> u32 \<Rightarrow> bytes \<Rightarrow> (u32 \<times> bytes) res" where
  "strlcpy dst src dsize m =
     and_then (if dsize \<noteq> 0
               then if dsize - 1 \<noteq> 0 then strlcpy_copy dst src (dsize - 1) m else Inr (dst, src, dsize - 1, m)
               else Inr (dst, src, dsize, m)) (\<lambda>(d, s, n, m).
     and_then (if n = 0
               then and_then (if dsize \<noteq> 0 then st8 m d 0 else Inr m) (\<lambda>m.
                    and_then (skip_string s m) (\<lambda>s. Inr (s, m)))
               else Inr (s, m)) (\<lambda>(s, m). Inr (s - src - 1, m)))"

section \<open>Loops that count down\<close>

lemma TLOOP1_eq: "t \<noteq> 0 \<Longrightarrow> TLOOP1 body t s = for_n (unat t) k (\<lambda>_. body) s"
proof (induction "unat t" arbitrary: t s k)
  case 0
  then show ?case by (simp add: unat_eq_0)
next
  case (Suc n)
  have n: "unat (t - 1) = n" using Suc.hyps(2) Suc.prems by (metis unat_minus_one diff_Suc_1)
  show ?case
  proof (cases "body s")
    case (Inl e)
    then show ?thesis unfolding TLOOP1_def by (simp add: loop_Inl flip: Suc.hyps(2))
  next
    case (Inr s1)
    show ?thesis
    proof (cases "t - 1 = 0")
      case True
      then have "n = 0" using n by simp
      with Inr True show ?thesis unfolding TLOOP1_def by (simp add: loop_Break flip: Suc.hyps(2))
    next
      case False
      then have "TLOOP1 body (t - 1) s1 = for_n n (Suc k) (\<lambda>_. body) s1" using Suc.hyps(1) [of "t - 1" s1 "Suc k"] n by simp
      with Inr False show ?thesis unfolding TLOOP1_def by (subst loop_Cont) (simp_all flip: Suc.hyps(2))
    qed
  qed
qed

lemma TLOOP_eq: "TLOOP body t s = for_n (unat t) k (\<lambda>_. body) s"
  using TLOOP1_eq [of t body s k] by (simp add: TLOOP_def)

section \<open>Copying\<close>

text \<open>The memory after the bytes with the indices in \<open>A\<close> have been copied.\<close>

definition copied :: "bytes \<Rightarrow> nat \<Rightarrow> nat \<Rightarrow> nat set \<Rightarrow> bytes" where
  "copied m d s A = (\<lambda>x. if unat x \<in> (+) d ` A then m (of_nat (s + (unat x - d))) else m x)"

lemma copied_empty [simp]: "copied m d s {} = m"
  by (simp add: copied_def)

definition valid :: "bytes \<Rightarrow> nat \<Rightarrow> nat \<Rightarrow> bool" where
  "valid m p n \<longleftrightarrow> p + n \<le> 2 ^ 32 \<and> (\<forall>i<n. m (of_nat (p + i)) \<noteq> None)"

lemma u32_of_nat: "n < 2 ^ 32 \<Longrightarrow> unat (of_nat n :: u32) = n"
  by (simp add: unat_of_nat_u32)

text \<open>The bytes not yet copied are still in place when no copied byte has overwritten them.\<close>

lemma copied_src:
  assumes "\<And>j. j \<in> A \<Longrightarrow> d + j \<noteq> s + i" "s + i < 2 ^ 32"
  shows "copied m d s A (of_nat (s + i)) = m (of_nat (s + i))"
proof -
  have "s + i \<notin> (+) d ` A" using assms(1) by fastforce
  then show ?thesis using assms(2) unfolding copied_def by (simp add: u32_of_nat del: of_nat_add)
qed

lemma copied_dst:
  assumes "valid m s n" "valid m d n" "i < n" "A \<subseteq> {..<n}"
  shows "\<exists>b. copied m d s A (of_nat (d + i)) = Some b"
proof -
  have u: "unat (of_nat (d + i) :: u32) = d + i" using assms(2,3) by (intro u32_of_nat) (simp add: valid_def)
  then show ?thesis using assms unfolding copied_def u by (auto simp: valid_def simp del: of_nat_add)
qed

lemma copied_store:
  assumes "m (of_nat (s + i)) = Some b" "d + i < 2 ^ 32"
  shows "(copied m d s A)(of_nat (d + i) \<mapsto> b) = copied m d s (insert i A)"
proof
  fix x :: u32
  have u: "unat (of_nat (d + i) :: u32) = d + i" using assms(2) by (rule u32_of_nat)
  show "((copied m d s A)(of_nat (d + i) \<mapsto> b)) x = copied m d s (insert i A) x"
  proof (cases "x = of_nat (d + i)")
    case True
    then show ?thesis using assms(1) unfolding copied_def True by (simp only: u) simp
  next
    case False
    then have "unat x \<noteq> d + i" using u by (metis word_unat_eq_iff)
    with False show ?thesis by (auto simp: copied_def)
  qed
qed

definition fwd :: "bytes \<Rightarrow> nat \<Rightarrow> nat \<Rightarrow> nat set \<Rightarrow> nat \<Rightarrow> ptr \<times> ptr \<times> bytes" where
  "fwd m d s A k = (of_nat (d + k), of_nat (s + k), copied m d s A)"

lemma load_step:
  assumes "valid m s n" "k < n" "\<And>j. j \<in> A \<Longrightarrow> d + j \<noteq> s + k" "m (of_nat (s + k)) = Some b"
  shows "ld8 (copied m d s A) (of_nat (s + k)) = Inr b"
proof -
  have "s + k < 2 ^ 32" using assms(1,2) by (simp add: valid_def)
  from copied_src [OF assms(3) this] assms(4) show ?thesis by (simp add: ld8_def del: of_nat_add)
qed

lemma store_step:
  assumes v: "valid m s n" "valid m d n" and k: "k < n" "A \<subseteq> {..<n}" and b: "m (of_nat (s + k)) = Some b"
  shows "st8 (copied m d s A) (of_nat (d + k)) b = Inr (copied m d s (insert k A))"
proof -
  have "d + k < 2 ^ 32" using v(2) k(1) by (simp add: valid_def)
  from copied_store [of m s k b d A, OF b this] copied_dst [OF v k] show ?thesis by (auto simp: st8_def simp del: of_nat_add)
qed

lemma valid_byte: "valid m s n \<Longrightarrow> k < n \<Longrightarrow> \<exists>b. m (of_nat (s + k)) = Some b"
  by (auto simp: valid_def simp del: of_nat_add)

lemma byte_step:
  assumes v: "valid m s n" "valid m d n" and k: "k < n" "A \<subseteq> {..<n}" "\<And>j. j \<in> A \<Longrightarrow> d + j \<noteq> s + k"
  shows "\<exists>b. ld8 (copied m d s A) (of_nat (s + k)) = Inr b \<and>
    st8 (copied m d s A) (of_nat (d + k)) b = Inr (copied m d s (insert k A))"
proof -
  obtain b where "m (of_nat (s + k)) = Some b" using valid_byte [OF v(1) k(1)] by blast
  with load_step [OF v(1) k(1,3)] store_step [OF v k(1,2)] show ?thesis by blast
qed

lemma byte_up_step:
  assumes "valid m s n" "valid m d n" "k < n" "A \<subseteq> {..<n}" "\<And>j. j \<in> A \<Longrightarrow> d + j \<noteq> s + k"
  shows "byte_up (fwd m d s A k) = Inr (fwd m d s (insert k A) (Suc k))"
  using byte_step [OF assms] by (auto simp: byte_up_def fwd_def algebra_simps)

lemma byte_down_step:
  assumes "valid m s n" "valid m d n" "k < n" "A \<subseteq> {..<n}" "\<And>j. j \<in> A \<Longrightarrow> d + j \<noteq> s + k"
  shows "byte_down (fwd m d s A (Suc k)) = Inr (fwd m d s (insert k A) k)"
  using byte_step [OF assms] by (auto simp: byte_down_def fwd_def algebra_simps)

lemma word_bytes:
  fixes b0 b1 b2 b3 :: u8
  defines "w \<equiv> (ucast b0 OR push_bit 8 (ucast b1) OR push_bit 16 (ucast b2) OR push_bit 24 (ucast b3) :: u32)"
  shows "ucast w = b0" "ucast (drop_bit 8 w) = b1" "ucast (drop_bit 16 w) = b2" "ucast (drop_bit 24 w) = b3"
  unfolding w_def
  by (rule bit_word_eqI; auto simp: bit_or_iff bit_push_bit_iff bit_drop_bit_eq bit_ucast_iff not_less dest: bit_imp_le_length)+

lemma and_wmask: "unat (x AND wmask) = unat x mod 4" "x AND wmask = 0 \<longleftrightarrow> unat x mod 4 = 0"
proof -
  have w: "wmask = mask 2" by (simp add: wmask_def wsize_def mask_eq_exp_minus_1)
  show "unat (x AND wmask) = unat x mod 4" unfolding w unat_and_mask by simp
  then show "x AND wmask = 0 \<longleftrightarrow> unat x mod 4 = 0" by (simp flip: unat_eq_0)
qed

lemma word_step:
  assumes v: "valid m s n" "valid m d n" and k: "k + 4 \<le> n" "A \<subseteq> {..<n}" "\<And>i j. i < 4 \<Longrightarrow> j \<in> A \<Longrightarrow> d + j \<noteq> s + (k + i)"
    and al: "4 dvd s + k" "4 dvd d + k"
  shows "\<exists>w. ld32 (copied m d s A) (of_nat (s + k)) = Inr w \<and>
    st32 (copied m d s A) (of_nat (d + k)) w = Inr (copied m d s ({k..<k + 4} \<union> A))"
proof -
  define b where "b i = the (m (of_nat (s + (k + i))))" for i
  have b: "m (of_nat (s + (k + i))) = Some (b i)" if "i < 4" for i
    using valid_byte [OF v(1), of "k + i"] that k(1) by (auto simp: b_def simp del: of_nat_add)
  define w :: u32 where "w = ucast (b 0) OR push_bit 8 (ucast (b 1)) OR push_bit 16 (ucast (b 2)) OR push_bit 24 (ucast (b 3))"
  have wd: "ucast (b 0) OR push_bit 8 (ucast (b (Suc 0))) OR push_bit 16 (ucast (b 2)) OR push_bit 24 (ucast (b 3)) = w"
    by (simp add: w_def)
  note w = word_bytes [of "b 0" "b 1" "b 2" "b 3", folded w_def]
  have ld: "ld8 (copied m d s A) (of_nat (s + (k + i))) = Inr (b i)" if "i < 4" for i
    by (rule load_step [OF v(1) _ k(3) b]) (use that k(1) in auto)
  have st: "st8 (copied m d s B) (of_nat (d + (k + i))) (b i) = Inr (copied m d s (insert (k + i) B))" if "i < 4" "B \<subseteq> {..<n}" for i B
    by (rule store_step [OF v _ that(2) b]) (use that k(1) in auto)
  have ps: "of_nat (x + k) + 1 = (of_nat (x + (k + 1)) :: u32)" "of_nat (x + k) + 2 = (of_nat (x + (k + 2)) :: u32)"
    "of_nat (x + k) + 3 = (of_nat (x + (k + 3)) :: u32)" for x by (simp_all add: algebra_simps)
  have "{k..<k + 4} \<union> A = insert (k + 3) (insert (k + 2) (insert (k + 1) (insert (k + 0) A)))" by auto
  moreover have "s + k < 2 ^ 32" "d + k < 2 ^ 32" using v k(1) by (auto simp: valid_def)
  then have "of_nat (s + k) AND wmask = 0" "of_nat (d + k) AND wmask = 0" using al by (simp_all add: and_wmask u32_of_nat dvd_eq_mod_eq_0 del: of_nat_add)
  ultimately show ?thesis using ld [of 0] ld [of 1] ld [of 2] ld [of 3] st [of 0 A] st [of 1 "insert (k + 0) A"]
      st [of 2 "insert (k + 1) (insert (k + 0) A)"] st [of 3 "insert (k + 2) (insert (k + 1) (insert (k + 0) A))"] k(1,2) w
    by (intro exI [of _ w]) (simp add: ld32_def st32_def ps wd del: of_nat_add)
qed

lemma word_up_step:
  assumes "valid m s n" "valid m d n" "k + 4 \<le> n" "A \<subseteq> {..<n}" "\<And>i j. i < 4 \<Longrightarrow> j \<in> A \<Longrightarrow> d + j \<noteq> s + (k + i)"
    and "4 dvd s + k" "4 dvd d + k"
  shows "word_up (fwd m d s A k) = Inr (fwd m d s ({k..<k + 4} \<union> A) (k + 4))"
  using word_step [OF assms] by (auto simp: word_up_def fwd_def wsize_def algebra_simps)

lemma word_down_step:
  assumes "valid m s n" "valid m d n" "k + 4 \<le> n" "A \<subseteq> {..<n}" "\<And>i j. i < 4 \<Longrightarrow> j \<in> A \<Longrightarrow> d + j \<noteq> s + (k + i)"
    and "4 dvd s + k" "4 dvd d + k"
  shows "word_down (fwd m d s A (k + 4)) = Inr (fwd m d s ({k..<k + 4} \<union> A) k)"
proof -
  have "of_nat (x + (k + 4)) - wsize = (of_nat (x + k) :: u32)" for x by (simp add: wsize_def algebra_simps)
  then show ?thesis using word_step [OF assms] by (auto simp: word_down_def fwd_def Let_def simp del: of_nat_add)
qed

text \<open>Runs of such steps, upwards and downwards.\<close>

lemma bytes_up:
  assumes v: "valid m s n" "valid m d n" and "k + t \<le> n" and safe: "\<And>i j. j < i \<Longrightarrow> i < n \<Longrightarrow> d + j \<noteq> s + i"
  shows "for_n t i (\<lambda>_. byte_up) (fwd m d s {..<k} k) = Inr (fwd m d s {..<k + t} (k + t))"
  using assms(3)
proof (induction t arbitrary: k i)
  case (Suc t)
  have "byte_up (fwd m d s {..<k} k) = Inr (fwd m d s (insert k {..<k}) (Suc k))"
    by (rule byte_up_step [OF v]) (use Suc.prems safe in auto)
  moreover have "insert k {..<k} = {..<Suc k}" by auto
  ultimately show ?case using Suc.IH [of "Suc k" "Suc i"] Suc.prems by simp
qed simp

lemma words_up:
  assumes v: "valid m s n" "valid m d n" and "k + 4 * t \<le> n" and safe: "\<And>i j. j < i \<Longrightarrow> i < n \<Longrightarrow> d + j \<noteq> s + i"
    and "4 dvd s + k" "4 dvd d + k"
  shows "for_n t i (\<lambda>_. word_up) (fwd m d s {..<k} k) = Inr (fwd m d s {..<k + 4 * t} (k + 4 * t))"
  using assms(3,5,6)
proof (induction t arbitrary: k i)
  case (Suc t)
  have "word_up (fwd m d s {..<k} k) = Inr (fwd m d s ({k..<k + 4} \<union> {..<k}) (k + 4))"
    by (rule word_up_step [OF v]) (use Suc.prems safe in auto)
  moreover have "{k..<k + 4} \<union> {..<k} = {..<k + 4}" by auto
  moreover have "4 dvd s + (k + 4)" "4 dvd d + (k + 4)" using Suc.prems(2,3) by presburger+
  ultimately show ?case using Suc.IH [of "k + 4" "Suc i"] Suc.prems(1) by (simp add: ac_simps)
qed simp

lemma bytes_down:
  assumes v: "valid m s n" "valid m d n" and "t \<le> k" "k \<le> n" and safe: "\<And>i j. i < j \<Longrightarrow> j < n \<Longrightarrow> d + j \<noteq> s + i"
  shows "for_n t i (\<lambda>_. byte_down) (fwd m d s {k..<n} k) = Inr (fwd m d s {k - t..<n} (k - t))"
  using assms(3,4)
proof (induction t arbitrary: k i)
  case (Suc t)
  then obtain l where l: "k = Suc l" by (cases k) auto
  have "byte_down (fwd m d s {k..<n} (Suc l)) = Inr (fwd m d s (insert l {k..<n}) l)"
    by (rule byte_down_step [OF v]) (use Suc.prems safe l in auto)
  moreover have "insert l {k..<n} = {l..<n}" using l Suc.prems by auto
  ultimately show ?case using Suc.IH [of l "Suc i"] Suc.prems l by simp
qed simp

lemma words_down:
  assumes v: "valid m s n" "valid m d n" and "4 * t \<le> k" "k \<le> n" and safe: "\<And>i j. i < j \<Longrightarrow> j < n \<Longrightarrow> d + j \<noteq> s + i"
    and "4 dvd s + k" "4 dvd d + k"
  shows "for_n t i (\<lambda>_. word_down) (fwd m d s {k..<n} k) = Inr (fwd m d s {k - 4 * t..<n} (k - 4 * t))"
  using assms(3,4,6,7)
proof (induction t arbitrary: k i)
  case (Suc t)
  then obtain l where l: "k = l + 4" by (metis le_add_diff_inverse2 le_trans mult_Suc_right le_add1)
  have a: "4 dvd s + l" "4 dvd d + l" using Suc.prems(3,4) l by presburger+
  have "word_down (fwd m d s {k..<n} (l + 4)) = Inr (fwd m d s ({l..<l + 4} \<union> {k..<n}) l)"
    by (rule word_down_step [OF v _ _ _ a]) (use Suc.prems safe l in auto)
  moreover have "{l..<l + 4} \<union> {k..<n} = {l..<n}" using l Suc.prems by auto
  ultimately show ?case using Suc.IH [of l "Suc i"] Suc.prems l a by simp
qed simp

lemma or_xor_wmask:
  "(x OR y) AND wmask = 0 \<longleftrightarrow> unat x mod 4 = 0 \<and> unat y mod 4 = 0"
  "(x XOR y) AND wmask = 0 \<longleftrightarrow> unat x mod 4 = unat y mod 4"
proof -
  have "(x OR y) AND wmask = (x AND wmask) OR (y AND wmask)" by (simp add: and.commute bit.conj_disj_distrib)
  then show "(x OR y) AND wmask = 0 \<longleftrightarrow> unat x mod 4 = 0 \<and> unat y mod 4 = 0" by (simp add: or_eq_0_iff and_wmask)
  have "(x XOR y) AND wmask = (x AND wmask) XOR (y AND wmask)"
    by (rule bit_word_eqI) (auto simp: bit_and_iff bit_xor_iff)
  moreover have "a XOR b = 0 \<longleftrightarrow> a = b" for a b :: u32
    by (auto simp: bit_eq_iff bit_xor_iff)
  ultimately show "(x XOR y) AND wmask = 0 \<longleftrightarrow> unat x mod 4 = unat y mod 4"
    by (simp add: word_unat_eq_iff and_wmask)
qed

lemma unat_div_wsize: "unat (x div wsize) = unat x div 4"
  by (simp add: wsize_def unat_div)

lemma sub_of_nat: "k \<le> unat x \<Longrightarrow> unat (x - of_nat k) = unat x - k" for x :: u32
proof -
  assume k: "k \<le> unat x"
  then have u: "unat (of_nat k :: u32) = k" using unat_u32 [of x] by (intro u32_of_nat) simp
  with k show "unat (x - of_nat k) = unat x - k" by (simp add: unat_sub word_le_nat_alt)
qed

lemma less_wsize: "x < wsize \<longleftrightarrow> unat x < 4" "x \<le> wsize \<longleftrightarrow> unat x \<le> 4"
  by (simp_all add: word_less_nat_alt word_le_nat_alt wsize_def)

lemma copy_forward_spec:
  assumes v: "valid m s (unat len)" "valid m d (unat len)" and len: "len \<noteq> 0"
    and safe: "\<And>i j. j < i \<Longrightarrow> i < unat len \<Longrightarrow> d + j \<noteq> s + i"
  shows "copy_forward (of_nat d) (of_nat s) len m = Inr (copied m d s {..<unat len})"
proof -
  define n where "n = unat len"
  have n: "0 < n" using len by (simp add: n_def unat_gt_0)
  note v = v [folded n_def]
  have u: "unat (of_nat s :: u32) = s" "unat (of_nat d :: u32) = d"
    using v n by (auto intro!: u32_of_nat simp: valid_def)
  define a where "a = (if s mod 4 = 0 \<and> d mod 4 = 0 then 0 else if s mod 4 \<noteq> d mod 4 \<or> n < 4 then n else 4 - s mod 4)"
  have an: "a \<le> n" by (auto simp: a_def)
  define len' where "len' = len - of_nat a"
  have ul: "unat len' = n - a" unfolding len'_def n_def by (rule sub_of_nat) (use an n_def in simp)
  define t where "t = (if (of_nat s XOR of_nat d) AND wmask \<noteq> 0 \<or> len < wsize then len else wsize - (of_nat s AND wmask))"
  have first: "(if (of_nat s OR of_nat d) AND wmask \<noteq> 0 then and_then (TLOOP1 byte_up t (of_nat d, of_nat s, m)) (\<lambda>x. Inr (len - t, x))
      else Inr (len, of_nat d, of_nat s, m)) = Inr (len', fwd m d s {..<a} a)"
  proof (cases "s mod 4 = 0 \<and> d mod 4 = 0")
    case True
    then show ?thesis by (simp add: or_xor_wmask u a_def len'_def fwd_def)
  next
    case False
    have m: "of_nat s AND wmask = of_nat (s mod 4)" by (simp add: word_unat_eq_iff and_wmask u u32_of_nat)
    have "unat (wsize - (of_nat s AND wmask)) = 4 - s mod 4"
      unfolding m using sub_of_nat [of "s mod 4" wsize] by (simp add: wsize_def)
    then have t: "unat t = a" using False by (auto simp: t_def a_def or_xor_wmask u less_wsize n_def)
    then have "t = of_nat a" by (simp flip: t)
    moreover have "0 < a" using False n by (auto simp: a_def)
    then have "t \<noteq> 0" using t by auto
    moreover have "for_n a 0 (\<lambda>_. byte_up) (fwd m d s {..<0} 0) = Inr (fwd m d s {..<0 + a} (0 + a))"
      by (rule bytes_up [OF v]) (use an safe n_def in auto)
    ultimately show ?thesis using False t TLOOP1_eq [of t byte_up _ 0]
      by (simp add: or_xor_wmask u len'_def fwd_def del: of_nat_add)
  qed
  define w where "w = (n - a) div 4"
  have w: "a + 4 * w \<le> n" "a + 4 * w + unat (len' AND wmask) = n" using an by (auto simp: w_def ul and_wmask)
  have "for_n w 0 (\<lambda>_. word_up) (fwd m d s {..<a} a) = Inr (fwd m d s {..<a + 4 * w} (a + 4 * w))"
  proof (cases "w = 0")
    case False
    then have "a = (if s mod 4 = 0 \<and> d mod 4 = 0 then 0 else 4 - s mod 4)" "s mod 4 = d mod 4"
      by (auto simp: w_def a_def split: if_splits)
    then have a: "a = (if s mod 4 = 0 then 0 else 4 - s mod 4)" "a = (if d mod 4 = 0 then 0 else 4 - d mod 4)" by auto
    have al: "4 dvd x + (if x mod 4 = 0 then 0 else 4 - x mod 4)" for x :: nat by presburger
    have "4 dvd s + a" "4 dvd d + a" using al [of s] al [of d] by (simp_all only: a(1) [symmetric] a(2) [symmetric])
    then show ?thesis by (intro words_up [OF v w(1)]) (use safe n_def in auto)
  qed simp
  moreover have "for_n (unat (len' AND wmask)) 0 (\<lambda>_. byte_up) (fwd m d s {..<a + 4 * w} (a + 4 * w)) = Inr (fwd m d s {..<n} n)"
    using bytes_up [OF v, of "a + 4 * w" "unat (len' AND wmask)" 0] w(2) safe n_def by simp
  ultimately show ?thesis unfolding copy_forward_def
    unfolding t_def [symmetric] Let_def first
    by (simp add: TLOOP_eq [where k = 0] unat_div_wsize ul w_def [symmetric] fwd_def n_def [symmetric])
qed

lemma copy_backward_spec:
  assumes v: "valid m s (unat len)" "valid m d (unat len)" and len: "len \<noteq> 0"
    and safe: "\<And>i j. i < j \<Longrightarrow> j < unat len \<Longrightarrow> d + j \<noteq> s + i" and top: "s + unat len < 2 ^ 32" "d + unat len < 2 ^ 32"
  shows "copy_backward (of_nat d) (of_nat s) len m = Inr (copied m d s {..<unat len})"
proof -
  define n where "n = unat len"
  have n: "0 < n" using len by (simp add: n_def unat_gt_0)
  note v = v [folded n_def] and top = top [folded n_def]
  have ends: "of_nat s + len = (of_nat (s + n) :: u32)" "of_nat d + len = (of_nat (d + n) :: u32)" by (simp_all add: n_def)
  have u: "unat (of_nat (s + n) :: u32) = s + n" "unat (of_nat (d + n) :: u32) = d + n"
    using top by (auto intro!: u32_of_nat simp del: of_nat_add)
  let ?s = "of_nat (s + n) :: u32" and ?d = "of_nat (d + n) :: u32"
  define a where "a = (if (s + n) mod 4 = 0 \<and> (d + n) mod 4 = 0 then 0 else if (s + n) mod 4 \<noteq> (d + n) mod 4 \<or> n \<le> 4 then n else (s + n) mod 4)"
  have an: "a \<le> n" by (auto simp: a_def)
  define len' where "len' = len - of_nat a"
  have ul: "unat len' = n - a" unfolding len'_def n_def by (rule sub_of_nat) (use an n_def in simp)
  define t where "t = (if (?s XOR ?d) AND wmask \<noteq> 0 \<or> len \<le> wsize then len else ?s AND wmask)"
  have first: "(if (?s OR ?d) AND wmask \<noteq> 0 then and_then (TLOOP1 byte_down t (?d, ?s, m)) (\<lambda>x. Inr (len - t, x))
      else Inr (len, ?d, ?s, m)) = Inr (len', fwd m d s {n - a..<n} (n - a))"
  proof (cases "(s + n) mod 4 = 0 \<and> (d + n) mod 4 = 0")
    case True
    then show ?thesis by (simp add: or_xor_wmask u a_def len'_def fwd_def del: of_nat_add)
  next
    case False
    have t: "unat t = a" using False by (auto simp: t_def a_def or_xor_wmask u less_wsize and_wmask(1) n_def [symmetric] simp del: of_nat_add)
    then have "t = of_nat a" by (simp flip: t)
    moreover have "0 < a" using False n by (auto simp: a_def)
    then have "t \<noteq> 0" using t by auto
    moreover have "for_n a 0 (\<lambda>_. byte_down) (fwd m d s {n..<n} n) = Inr (fwd m d s {n - a..<n} (n - a))"
      by (rule bytes_down [OF v an]) (use safe n_def in auto)
    ultimately show ?thesis using False t TLOOP1_eq [of t byte_down _ 0]
      by (simp add: or_xor_wmask u len'_def fwd_def del: of_nat_add)
  qed
  define w where "w = (n - a) div 4"
  have w: "4 * w \<le> n - a" "n - a - 4 * w = unat (len' AND wmask)" by (auto simp: w_def ul and_wmask minus_mult_div_eq_mod)
  have "for_n w 0 (\<lambda>_. word_down) (fwd m d s {n - a..<n} (n - a)) = Inr (fwd m d s {n - a - 4 * w..<n} (n - a - 4 * w))"
  proof (cases "w = 0")
    case False
    then have a: "a = (s + n) mod 4" "a = (d + n) mod 4" by (auto simp: w_def a_def split: if_splits)
    have "s + (n - a) = s + n - a" "d + (n - a) = d + n - a" using an by simp_all
    then have "4 dvd s + (n - a)" "4 dvd d + (n - a)" using dvd_minus_mod [of 4 "s + n"] dvd_minus_mod [of 4 "d + n"] by (simp_all flip: a)
    then show ?thesis by (intro words_down [OF v w(1)]) (use safe n_def in auto)
  qed simp
  moreover have "for_n (unat (len' AND wmask)) 0 (\<lambda>_. byte_down) (fwd m d s {n - a - 4 * w..<n} (n - a - 4 * w)) = Inr (fwd m d s {0..<n} 0)"
    using bytes_down [OF v, of "unat (len' AND wmask)" "n - a - 4 * w" 0] w(2) safe n_def by simp
  ultimately show ?thesis unfolding copy_backward_def
    unfolding Let_def ends t_def [symmetric] first
    by (simp add: TLOOP_eq [where k = 0] unat_div_wsize ul w_def [symmetric] fwd_def n_def [symmetric] lessThan_atLeast0)
qed

section \<open>Filling, comparing and strings\<close>

definition filled :: "bytes \<Rightarrow> nat \<Rightarrow> u8 \<Rightarrow> nat \<Rightarrow> bytes" where
  "filled m d b k = (\<lambda>x. if d \<le> unat x \<and> unat x < d + k then Some b else m x)"

lemma filled_0 [simp]: "filled m d b 0 = m"
  by (rule ext) (auto simp: filled_def)

lemma filled_store:
  assumes "d + k < 2 ^ 32"
  shows "(filled m d b k)(of_nat (d + k) \<mapsto> b) = filled m d b (Suc k)"
proof
  fix x :: u32
  have u: "unat (of_nat (d + k) :: u32) = d + k" using assms by (rule u32_of_nat)
  show "((filled m d b k)(of_nat (d + k) \<mapsto> b)) x = filled m d b (Suc k) x"
  proof (cases "x = of_nat (d + k)")
    case True
    then show ?thesis by (simp add: filled_def u del: of_nat_add)
  next
    case False
    then have "unat x \<noteq> d + k" using u by (metis word_unat_eq_iff)
    with False show ?thesis by (auto simp: filled_def simp del: of_nat_add)
  qed
qed

lemma memset_spec:
  assumes v: "valid m (unat dst) (unat n)"
  shows "memset dst c n m = Inr (dst, filled m (unat dst) (ucast c) (unat n))"
proof (cases "n = 0")
  case True
  then show ?thesis by (simp add: memset_def)
next
  case False
  define body where "body = (\<lambda>(d, m). and_then (st8 m d (ucast c)) (\<lambda>m. Inr (d + 1, m)))"
  have "\<exists>x. for_n (unat n) 0 (\<lambda>_. body) (dst, m) = Inr x \<and> x = (of_nat (unat dst + (0 + unat n)), filled m (unat dst) (ucast c) (0 + unat n))"
  proof (rule for_n_invariant)
    show "(dst, m) = (of_nat (unat dst + 0), filled m (unat dst) (ucast c) 0)" by simp
    fix j and x :: "ptr \<times> bytes" assume j: "j < 0 + unat n" and x: "x = (of_nat (unat dst + j), filled m (unat dst) (ucast c) j)"
    have lt: "unat dst + j < 2 ^ 32" using v j by (simp add: valid_def)
    obtain b where "m (of_nat (unat dst + j)) = Some b" using valid_byte [OF v] j by auto
    then have "\<exists>b'. filled m (unat dst) (ucast c) j (of_nat (unat dst + j)) = Some b'" by (simp add: filled_def del: of_nat_add)
    then show "\<exists>x'. body x = Inr x' \<and> x' = (of_nat (unat dst + Suc j), filled m (unat dst) (ucast c) (Suc j))"
      using filled_store [OF lt, of m "ucast c"] unfolding x by (auto simp: body_def st8_def algebra_simps)
  qed
  with False show ?thesis by (auto simp: memset_def TLOOP1_eq [where k = 0] body_def)
qed

text \<open>The bytes from an address on.\<close>

definition byte_at :: "bytes \<Rightarrow> nat \<Rightarrow> u8" where
  "byte_at m p = the (m (of_nat p))"

lemma ld8_valid: "valid m p n \<Longrightarrow> i < n \<Longrightarrow> ld8 m (of_nat (p + i)) = Inr (byte_at m (p + i))"
  using valid_byte [of m p n i] by (auto simp: ld8_def byte_at_def simp del: of_nat_add)

lemma memcmp_spec:
  assumes v: "valid m p (unat n)" "valid m q (unat n)"
  shows "\<exists>r. memcmp (of_nat p) (of_nat q) n m = Inr r \<and>
    (r = 0 \<and> (\<forall>i<unat n. byte_at m (p + i) = byte_at m (q + i)) \<or>
     (\<exists>i<unat n. (\<forall>j<i. byte_at m (p + j) = byte_at m (q + j)) \<and> byte_at m (p + i) \<noteq> byte_at m (q + i) \<and>
       r = uint (byte_at m (p + i)) - uint (byte_at m (q + i))))"
    (is "\<exists>r. _ \<and> ?Q r")
proof -
  define body where "body = (\<lambda>(n, l, r).
       if n \<noteq> 0
       then and_then (ld8 m l) (\<lambda>a. and_then (ld8 m r) (\<lambda>b.
            if a = b then Inr (Cont (n - 1 :: u32, l + 1, r + 1)) else Inr (Break (uint a - uint b))))
       else Inr (Break 0))"
  define I where "I = (\<lambda>k x. x = (n - of_nat k, of_nat (p + k) :: ptr, of_nat (q + k) :: ptr) \<and> (\<forall>j<k. byte_at m (p + j) = byte_at m (q + j)))"
  have "\<exists>x. loop body (n, of_nat p, of_nat q) = Some x \<and> (\<exists>r. x = Inr r \<and> ?Q r)"
  proof (rule loop_for [where I = I and n = "unat n"])
    show "I 0 (n, of_nat p, of_nat q)" by (simp add: I_def)
    fix k x assume k: "k < unat n" and i: "I k x"
    have nz: "n - of_nat k \<noteq> 0" using sub_of_nat [of k n] k by (metis less_imp_le unat_0 zero_less_diff less_irrefl)
    note b = ld8_valid [OF v(1) k] ld8_valid [OF v(2) k]
    show "(\<exists>x'. body x = Inr (Cont x') \<and> I (Suc k) x') \<or> (\<exists>x'. loop body x = Some x' \<and> (\<exists>r. x' = Inr r \<and> ?Q r))"
    proof (cases "byte_at m (p + k) = byte_at m (q + k)")
      case True
      then have "body x = Inr (Cont (n - of_nat k - 1, of_nat (p + k) + 1, of_nat (q + k) + 1))" using i nz b by (simp add: I_def body_def del: of_nat_add)
      moreover have "I (Suc k) (n - of_nat k - 1, of_nat (p + k) + 1, of_nat (q + k) + 1)"
        using i True by (auto simp: I_def less_Suc_eq algebra_simps)
      ultimately show ?thesis by blast
    next
      case False
      then have "body x = Inr (Break (uint (byte_at m (p + k)) - uint (byte_at m (q + k))))"
        using i nz b by (simp add: I_def body_def del: of_nat_add)
      with False i k show ?thesis by (auto simp: loop_Break I_def)
    qed
  next
    fix x assume "I (unat n) x"
    then show "\<exists>x'. loop body x = Some x' \<and> (\<exists>r. x' = Inr r \<and> ?Q r)"
      by (auto simp: I_def body_def loop_Break)
  qed
  then show ?thesis by (auto simp: memcmp_def body_def)
qed

definition cstring :: "bytes \<Rightarrow> nat \<Rightarrow> u8 list \<Rightarrow> bool" where
  "cstring m p xs \<longleftrightarrow> p + length xs < 2 ^ 32 \<and> 0 \<notin> set xs \<and> m (of_nat (p + length xs)) = Some 0 \<and>
     (\<forall>i<length xs. m (of_nat (p + i)) = Some (xs ! i))"

lemma cstring_Nil: "cstring m p [] \<longleftrightarrow> p < 2 ^ 32 \<and> m (of_nat p) = Some 0"
  by (auto simp: cstring_def)

lemma cstring_Cons: "cstring m p (x # xs) \<longleftrightarrow> x \<noteq> 0 \<and> m (of_nat p) = Some x \<and> cstring m (Suc p) xs"
  by (auto simp: cstring_def nth_Cons less_Suc_eq_0_disj algebra_simps split: nat.splits)

lemma strcmp_unfold:
  "strcmp s1 s2 m =
     and_then (ld8 m s1) (\<lambda>a. and_then (ld8 m s2) (\<lambda>b.
     if a = b then if a = 0 then Inr 0 else strcmp (s1 + 1) (s2 + 1) m else Inr (uint a - uint b)))"
  unfolding strcmp_def by (subst loop.simps) (simp add: and_then_def split: sum.splits)

lemma strcmp_spec:
  assumes "cstring m p xs" "cstring m q ys"
  shows "\<exists>r. strcmp (of_nat p) (of_nat q) m = Inr r \<and> (r < 0 \<longleftrightarrow> ord_class.lexordp xs ys) \<and> (r = 0 \<longleftrightarrow> xs = ys)"
  using assms
proof (induction xs arbitrary: p q ys)
  case Nil
  have "y \<noteq> 0 \<Longrightarrow> 0 < uint y \<and> uint y \<noteq> 0" for y :: u8 using word_neq_0_conv [of y] by (simp add: word_less_def)
  with Nil show ?case
    by (cases ys) (auto simp: cstring_Nil cstring_Cons strcmp_unfold [of "of_nat p"] ld8_def)
next
  case (Cons x xs)
  note x = Cons.prems(1) [unfolded cstring_Cons] and prem = Cons.prems(2) and IH = Cons.IH
  show ?case
  proof (cases ys)
    case Nil
    then show ?thesis using x prem by (auto simp: cstring_Nil strcmp_unfold [of "of_nat p"] ld8_def uint_0_iff)
  next
    case [simp]: (Cons y zs)
    have y: "y \<noteq> 0" "m (of_nat q) = Some y" "cstring m (Suc q) zs" using prem by (simp_all add: cstring_Cons)
    show ?thesis
    proof (cases "x = y")
      case True
      then have "strcmp (of_nat p) (of_nat q) m = strcmp (of_nat (Suc p)) (of_nat (Suc q)) m"
        using x y by (simp add: strcmp_unfold [of "of_nat p"] ld8_def add.commute)
      with IH [of "Suc p" "Suc q" zs] x y True show ?thesis by auto
    next
      case False
      then have "strcmp (of_nat p) (of_nat q) m = Inr (uint x - uint y)" using x y by (simp add: strcmp_unfold [of "of_nat p"] ld8_def)
      then show ?thesis using False by (auto simp: word_less_def word_uint_eq_iff)
    qed
  qed
qed

text \<open>What \<open>strlcpy\<close> leaves in memory: as many bytes as fit and a terminator.\<close>

definition stored :: "bytes \<Rightarrow> nat \<Rightarrow> u8 list \<Rightarrow> bytes" where
  "stored m d ys = (\<lambda>x. if d \<le> unat x \<and> unat x < d + length ys then Some (ys ! (unat x - d)) else m x)"

lemma stored_Nil [simp]: "stored m d [] = m"
  by (rule ext) (auto simp: stored_def)

lemma stored_Cons:
  assumes "d < 2 ^ 32"
  shows "stored (m(of_nat d \<mapsto> b)) (Suc d) ys = stored m d (b # ys)"
proof
  fix x :: u32
  have u: "unat (of_nat d :: u32) = d" using assms by (rule u32_of_nat)
  show "stored (m(of_nat d \<mapsto> b)) (Suc d) ys x = stored m d (b # ys) x"
  proof (cases "x = of_nat d")
    case True
    then show ?thesis by (simp add: stored_def u)
  next
    case False
    then have "unat x \<noteq> d" using u by (metis word_unat_eq_iff)
    with False show ?thesis by (auto simp: stored_def nth_Cons' not_less Suc_le_eq)
  qed
qed

lemma strlcpy_copy_unfold:
  "strlcpy_copy d s n m =
     and_then (ld8 m s) (\<lambda>b. and_then (st8 m d b) (\<lambda>m.
       if b = 0 then Inr (d + 1, s + 1, n, m)
       else if n - 1 \<noteq> 0 then strlcpy_copy (d + 1) (s + 1) (n - 1) m
       else Inr (d + 1, s + 1, n - 1, m)))"
  unfolding strlcpy_copy_def by (subst loop.simps) (simp add: and_then_def split: sum.splits)

lemma skip_string_unfold: "skip_string s m = and_then (ld8 m s) (\<lambda>b. if b \<noteq> 0 then skip_string (s + 1) m else Inr (s + 1))"
  unfolding skip_string_def by (subst loop.simps) (simp add: and_then_def split: sum.splits)

lemma skip_string_spec: "cstring m p xs \<Longrightarrow> skip_string (of_nat p) m = Inr (of_nat (p + length xs) + 1)"
proof (induction xs arbitrary: p)
  case Nil
  then show ?case by (simp add: cstring_Nil skip_string_unfold [of "of_nat p"] ld8_def)
next
  case (Cons x xs)
  then have "skip_string (of_nat (Suc p)) m = Inr (of_nat (Suc p + length xs) + 1)"
    by (intro Cons.IH) (simp add: cstring_Cons)
  then show ?case using Cons.prems by (simp add: cstring_Cons skip_string_unfold [of "of_nat p"] ld8_def add.commute add.left_commute)
qed

text \<open>A string is not disturbed by stores outside it.\<close>

lemma cstring_frame:
  assumes "cstring m p xs" "\<And>i. i \<le> length xs \<Longrightarrow> m' (of_nat (p + i)) = m (of_nat (p + i))"
  shows "cstring m' p xs"
  using assms by (auto simp: cstring_def simp del: of_nat_add)

lemma strlcpy_copy_spec:
  assumes "cstring m p xs" "valid m d (min (length xs + 1) n)" "0 < n" "n < 2 ^ 32"
    and "\<And>i j. i \<le> length xs \<Longrightarrow> j < n \<Longrightarrow> p + i \<noteq> d + j"
  shows "strlcpy_copy (of_nat d) (of_nat p) (of_nat n) m =
    (if length xs < n then Inr (of_nat (d + length xs) + 1, of_nat (p + length xs) + 1, of_nat (n - length xs), stored m d (xs @ [0]))
     else Inr (of_nat (d + n), of_nat (p + n), 0, stored m d (take n xs)))"
  using assms
proof (induction xs arbitrary: p d n m)
  case Nil
  have d: "d < 2 ^ 32" "m (of_nat d) \<noteq> None" using Nil.prems(2,3) by (auto simp: valid_def)
  with Nil.prems stored_Cons [OF d(1), of m 0 "[]"] show ?case
    by (auto simp: cstring_Nil strlcpy_copy_unfold [of "of_nat d"] ld8_def st8_def)
next
  case (Cons x xs)
  have x: "x \<noteq> 0" "m (of_nat p) = Some x" "cstring m (Suc p) xs" using Cons.prems(1) by (simp_all add: cstring_Cons)
  have d: "d < 2 ^ 32" "m (of_nat d) \<noteq> None" using Cons.prems(2,3) by (auto simp: valid_def)
  let ?m = "m(of_nat d \<mapsto> x)"
  have one: "strlcpy_copy (of_nat d) (of_nat p) (of_nat n) m =
      (if of_nat n - 1 \<noteq> (0 :: u32) then strlcpy_copy (of_nat d + 1) (of_nat p + 1) (of_nat n - 1) ?m
       else Inr (of_nat d + 1, of_nat p + 1, of_nat n - 1, ?m))"
    using x d by (auto simp: strlcpy_copy_unfold [of "of_nat d"] ld8_def st8_def)
  obtain l where l: "n = Suc l" using Cons.prems(3) by (cases n) auto
  have nl: "of_nat n - 1 = (of_nat l :: u32)" by (simp add: l)
  have z: "of_nat l = (0 :: u32) \<longleftrightarrow> l = 0" using Cons.prems(4) l u32_of_nat [of l] by (cases "l = 0") auto
  have ps: "of_nat d + 1 = (of_nat (Suc d) :: u32)" "of_nat p + 1 = (of_nat (Suc p) :: u32)" by simp_all
  show ?case
  proof (cases "l = 0")
    case True
    then show ?thesis using one nl l stored_Cons [OF d(1), of m x "[]"] by simp
  next
    case False
    have ne: "of_nat (Suc p + i) \<noteq> (of_nat d :: u32)" if "i \<le> length xs" for i
    proof -
      have "Suc p + i < 2 ^ 32" using Cons.prems(1) that by (simp add: cstring_def)
      then have "unat (of_nat (Suc p + i) :: u32) = Suc p + i" by (rule u32_of_nat)
      moreover have "Suc p + i \<noteq> d" using Cons.prems(5) [of "Suc i" 0] that l by simp
      ultimately show ?thesis using u32_of_nat [OF d(1)] by metis
    qed
    have "strlcpy_copy (of_nat (Suc d)) (of_nat (Suc p)) (of_nat l) ?m =
      (if length xs < l then Inr (of_nat (Suc d + length xs) + 1, of_nat (Suc p + length xs) + 1, of_nat (l - length xs), stored ?m (Suc d) (xs @ [0]))
       else Inr (of_nat (Suc d + l), of_nat (Suc p + l), 0, stored ?m (Suc d) (take l xs)))"
    proof (rule Cons.IH)
      show "cstring ?m (Suc p) xs" by (rule cstring_frame [OF x(3)]) (use ne in \<open>auto simp del: of_nat_add of_nat_Suc\<close>)
      show "valid ?m (Suc d) (min (length xs + 1) l)"
        unfolding valid_def
      proof (intro conjI allI impI)
        show "Suc d + min (length xs + 1) l \<le> 2 ^ 32" using Cons.prems(2) l by (simp add: valid_def)
        fix i assume "i < min (length xs + 1) l"
        then have "m (of_nat (d + Suc i)) \<noteq> None" using valid_byte [OF Cons.prems(2), of "Suc i"] l by auto
        then show "?m (of_nat (Suc d + i)) \<noteq> None" by simp
      qed
      show "Suc p + i \<noteq> Suc d + j" if "i \<le> length xs" "j < l" for i j using Cons.prems(5) [of "Suc i" "Suc j"] that l by simp
    qed (use False Cons.prems(4) l in auto)
    then show ?thesis using one nl z False l unfolding stored_Cons [OF d(1)] ps by (simp add: ac_simps)
  qed
qed

lemma stored_snoc:
  assumes "d + length ys < 2 ^ 32"
  shows "(stored m d ys)(of_nat (d + length ys) \<mapsto> b) = stored m d (ys @ [b])"
proof
  fix x :: u32
  have u: "unat (of_nat (d + length ys) :: u32) = d + length ys" using assms by (rule u32_of_nat)
  show "((stored m d ys)(of_nat (d + length ys) \<mapsto> b)) x = stored m d (ys @ [b]) x"
  proof (cases "x = of_nat (d + length ys)")
    case True
    then show ?thesis by (simp add: stored_def u del: of_nat_add)
  next
    case False
    then have "unat x \<noteq> d + length ys" using u by (metis word_unat_eq_iff)
    with False show ?thesis by (auto simp: stored_def nth_append less_Suc_eq simp del: of_nat_add)
  qed
qed

lemma stored_other: "\<lbrakk>x < 2 ^ 32; \<And>j. j < length ys \<Longrightarrow> x \<noteq> d + j\<rbrakk> \<Longrightarrow> stored m d ys (of_nat x) = m (of_nat x)"
  unfolding stored_def by (simp add: u32_of_nat) (metis le_add_diff_inverse nat_add_left_cancel_less)

lemma cstring_drop: "cstring m p xs \<Longrightarrow> k \<le> length xs \<Longrightarrow> cstring m (p + k) (drop k xs)"
  by (auto simp: cstring_def add.assoc simp del: of_nat_add dest: in_set_dropD)

lemma strlcpy_spec:
  assumes str: "cstring m p xs" and v: "valid m d (min (length xs + 1) n)" and n: "n < 2 ^ 32"
    and apart: "\<And>i j. i \<le> length xs \<Longrightarrow> j < n \<Longrightarrow> p + i \<noteq> d + j"
  shows "strlcpy (of_nat d) (of_nat p) (of_nat n) m =
    Inr (of_nat (length xs), if n = 0 then m else stored m d (take (n - 1) xs @ [0]))"
proof -
  have skip: "skip_string (of_nat (p + k)) m' = Inr (of_nat p + of_nat (length xs) + 1)"
    if "k \<le> length xs" "\<And>i. i \<le> length xs \<Longrightarrow> m' (of_nat (p + i)) = m (of_nat (p + i))" for k m'
  proof -
    have "cstring m' (p + k) (drop k xs)" using cstring_frame [OF str that(2)] that(1) by (rule cstring_drop)
    from skip_string_spec [OF this] that(1) show ?thesis by simp
  qed
  have nz: "of_nat k = (0 :: u32) \<longleftrightarrow> k = 0" if "k < 2 ^ 32" for k using u32_of_nat [OF that] by (cases "k = 0") auto
  consider "n = 0" | "n = 1" | l where "n = Suc l" "0 < l" by (cases n) (auto simp: less_Suc_eq_0_disj)
  then show ?thesis
  proof cases
    case 1
    then show ?thesis using skip [of 0 m] by (simp add: strlcpy_def)
  next
    case 2
    have d: "d < 2 ^ 32" "m (of_nat d) \<noteq> None" using v 2 by (auto simp: valid_def)
    then have st: "m(of_nat d \<mapsto> 0) = stored m d [0]" using stored_snoc [of d "[]" m 0] by simp
    then have "skip_string (of_nat (p + 0)) (m(of_nat d \<mapsto> 0)) = Inr (of_nat p + of_nat (length xs) + 1)"
      using stored_other [of _ "[0]" d m] apart 2 str unfolding st by (intro skip) (auto simp: cstring_def simp del: of_nat_add)
    with 2 d st show ?thesis by (auto simp: strlcpy_def st8_def)
  next
    case 3
    have l: "l < 2 ^ 32" "of_nat n - 1 = (of_nat l :: u32)" "of_nat n \<noteq> (0 :: u32)" using 3 n nz [OF n] by auto
    have "valid m d (min (length xs + 1) l)" using v 3 by (auto simp: valid_def)
    then have copy: "strlcpy_copy (of_nat d) (of_nat p) (of_nat l) m =
      (if length xs < l then Inr (of_nat (d + length xs) + 1, of_nat (p + length xs) + 1, of_nat (l - length xs), stored m d (xs @ [0]))
       else Inr (of_nat (d + l), of_nat (p + l), 0, stored m d (take l xs)))"
      by (rule strlcpy_copy_spec [OF str]) (use 3 l apart in auto)
    show ?thesis
    proof (cases "length xs < l")
      case True
      then have "of_nat (l - length xs) \<noteq> (0 :: u32)" using nz [of "l - length xs"] l(1) by simp
      with True copy l 3 nz [OF l(1)] show ?thesis by (simp add: strlcpy_def)
    next
      case False
      have lt: "d + l < 2 ^ 32" "m (of_nat (d + l)) \<noteq> None"
        using v 3 False valid_byte [OF v, of l] by (auto simp: valid_def simp del: of_nat_add)
      have "(stored m d (take l xs))(of_nat (d + l) \<mapsto> 0) = stored m d (take l xs @ [0])"
        using stored_snoc [of d "take l xs" m 0] lt False by (simp add: min_absorb2)
      moreover have "stored m d (take l xs) (of_nat (d + l)) \<noteq> None" using lt False by (auto simp: stored_def u32_of_nat simp del: of_nat_add)
      moreover have "skip_string (of_nat (p + l)) (stored m d (take l xs @ [0])) = Inr (of_nat p + of_nat (length xs) + 1)"
      proof (rule skip)
        show "l \<le> length xs" using False by simp
        show "stored m d (take l xs @ [0]) (of_nat (p + i)) = m (of_nat (p + i))" if "i \<le> length xs" for i
          by (rule stored_other) (use that str apart [OF that] 3 False in \<open>auto simp: cstring_def\<close>)
      qed
      ultimately show ?thesis using copy l 3 nz [OF l(1)] False by (auto simp: strlcpy_def st8_def simp del: of_nat_add)
    qed
  qed
qed

section \<open>Properties\<close>

text \<open>A region copied as a whole: every byte of the target is the old byte of the source.\<close>

definition region_copied :: "bytes \<Rightarrow> ptr \<Rightarrow> ptr \<Rightarrow> u32 \<Rightarrow> bytes" where
  "region_copied m dst src n = (\<lambda>x. if unat dst \<le> unat x \<and> unat x < unat dst + unat n then m (src + (x - dst)) else m x)"

lemma copied_region: "copied m (unat dst) (unat src) {..<unat n} = region_copied m dst src n"
proof
  fix x :: u32
  have "of_nat (unat src + (unat x - unat dst)) = src + (x - dst)" if "unat dst \<le> unat x"
    using that by (simp add: of_nat_diff)
  moreover have "unat x \<in> (+) (unat dst) ` {..<unat n} \<longleftrightarrow> unat dst \<le> unat x \<and> unat x < unat dst + unat n"
    by (auto simp: image_iff intro!: bexI [of _ "unat x - unat dst"])
  ultimately show "copied m (unat dst) (unat src) {..<unat n} x = region_copied m dst src n x"
    by (simp add: copied_def region_copied_def add_diff_eq)
qed

text \<open>
  C10. \<open>memmove\<close> copies a region onto any other, overlapping or not, whatever their alignment: the
  target gets the bytes the source had before the call and nothing else changes. No word access
  is unaligned and no byte outside the two regions is touched, since either would be a fault. The
  same holds of \<open>memcpy\<close> for regions that do not overlap.
\<close>

theorem memmove_correct:
  assumes "valid m (unat dst) (unat n)" "valid m (unat src) (unat n)"
    and "unat dst + unat n < 2 ^ 32" "unat src + unat n < 2 ^ 32"
  shows "memmove dst src n m = Inr (dst, region_copied m dst src n) \<and>
    (unat dst + unat n \<le> unat src \<or> unat src + unat n \<le> unat dst \<longrightarrow> memcpy dst src n m = Inr (dst, region_copied m dst src n))"
proof (cases "n = 0 \<or> dst = src")
  case True
  then have "region_copied m dst src n = m" by (auto simp: region_copied_def fun_eq_iff)
  with True show ?thesis by (auto simp: memmove_def memcpy_def)
next
  case False
  have f: "copy_forward dst src n m = Inr (region_copied m dst src n)"
    if "unat dst < unat src \<or> unat src + unat n \<le> unat dst"
    using copy_forward_spec [OF assms(2,1)] False that by (force simp: copied_region)
  have b: "copy_backward dst src n m = Inr (region_copied m dst src n)" if "unat src < unat dst"
    using copy_backward_spec [OF assms(2,1) _ _ assms(4,3)] False that by (force simp: copied_region)
  have "unat dst \<noteq> unat src" using False by (simp add: word_unat_eq_iff)
  then show ?thesis using f b False assms(4) by (auto simp: memmove_def memcpy_def word_less_nat_alt)
qed

definition mem_example :: bytes where
  "mem_example = (\<lambda>x. if unat x < 64 then Some (ucast x) else None)"

lemma valid_example: "p + n < 64 \<Longrightarrow> valid mem_example p n"
  by (auto simp: valid_def mem_example_def u32_of_nat simp del: of_nat_add)

theorem memmove_correct_witness:
  "\<exists>m'. memmove 5 2 20 mem_example = Inr (5, m') \<and> m' 5 = Some 2 \<and> m' 24 = Some 21 \<and> m' 4 = Some 4 \<and> m' 25 = Some 25"
proof -
  have "memmove 5 2 20 mem_example = Inr (5, region_copied mem_example 5 2 20)"
    using memmove_correct [of mem_example 5 20 2] valid_example by simp
  then show ?thesis by (simp add: region_copied_def mem_example_def)
qed

text \<open>
  C24. \<open>strlcpy\<close> never writes past the room it is given and always terminates the copy. It returns the
  length of the source; the target holds as much of the source as fits, then a null byte, and
  all other memory, the source included, is unchanged. With no room nothing is written.
\<close>

theorem strlcpy_correct:
  assumes "cstring m (unat src) xs" "valid m (unat dst) (min (length xs + 1) (unat dsize))"
    and "\<forall>i\<le>length xs. \<forall>j<unat dsize. unat src + i \<noteq> unat dst + j"
  shows "strlcpy dst src dsize m = Inr (of_nat (length xs), if dsize = 0 then m else stored m (unat dst) (take (unat dsize - 1) xs @ [0]))"
  using strlcpy_spec [OF assms(1,2)] assms(3) unat_u32 [of dsize] by (simp add: unat_eq_0)

theorem strlcpy_correct_witness:
  "\<exists>m'. strlcpy 32 16 4 (stored mem_example 16 [104, 101, 108, 108, 111, 0]) = Inr (5, m') \<and>
     m' 32 = Some 104 \<and> m' 34 = Some 108 \<and> m' 35 = Some 0 \<and> m' 36 = Some 36"
proof -
  let ?m = "stored mem_example 16 [104, 101, 108, 108, 111, 0]"
  have "cstring ?m 16 [104, 101, 108, 108, 111]"
    by (simp add: cstring_Cons cstring_Nil) (simp add: stored_def)
  then have c: "cstring ?m (unat (16 :: u32)) [104, 101, 108, 108, 111]" by simp
  have v: "valid ?m (unat (32 :: u32)) (min (length [104, 101, 108, 108, 111 :: u8] + 1) (unat (4 :: u32)))"
    by (auto simp: valid_def stored_def mem_example_def u32_of_nat simp del: of_nat_add)
  have "strlcpy 32 16 4 ?m = Inr (5, stored ?m 32 [104, 101, 108, 0])" using strlcpy_correct [OF c v] by simp
  then show ?thesis by (simp add: stored_def mem_example_def)
qed

text \<open>The bytes of a region; two regions that differ are ordered by their first difference.\<close>

definition region :: "bytes \<Rightarrow> nat \<Rightarrow> nat \<Rightarrow> u8 list" where
  "region m p n = map (\<lambda>i. byte_at m (p + i)) [0..<n]"

lemma lexordp_first_difference:
  fixes x y :: "'a::linorder"
  shows "x \<noteq> y \<Longrightarrow> ord_class.lexordp (us @ x # xs) (us @ y # ys) \<longleftrightarrow> x < y"
  by (induction us) auto

lemma memcmp_order:
  assumes "valid m p (unat n)" "valid m q (unat n)"
  shows "\<exists>r. memcmp (of_nat p) (of_nat q) n m = Inr r \<and> (r = 0 \<longleftrightarrow> region m p (unat n) = region m q (unat n)) \<and>
    (r < 0 \<longleftrightarrow> ord_class.lexordp (region m p (unat n)) (region m q (unat n)))"
proof -
  let ?P = "region m p (unat n)" and ?Q = "region m q (unat n)"
  obtain r where r: "memcmp (of_nat p) (of_nat q) n m = Inr r"
    "r = 0 \<and> (\<forall>i<unat n. byte_at m (p + i) = byte_at m (q + i)) \<or>
     (\<exists>i<unat n. (\<forall>j<i. byte_at m (p + j) = byte_at m (q + j)) \<and> byte_at m (p + i) \<noteq> byte_at m (q + i) \<and>
       r = uint (byte_at m (p + i)) - uint (byte_at m (q + i)))"
    using memcmp_spec [OF assms] by blast
  from r(2) show ?thesis
  proof (elim disjE exE conjE)
    assume "r = 0" "\<forall>i<unat n. byte_at m (p + i) = byte_at m (q + i)"
    then have "?P = ?Q" by (simp add: region_def)
    with \<open>r = 0\<close> r(1) show ?thesis by (simp add: lexordp_irreflexive')
  next
    fix i assume i: "i < unat n" "\<forall>j<i. byte_at m (p + j) = byte_at m (q + j)" "byte_at m (p + i) \<noteq> byte_at m (q + i)"
      "r = uint (byte_at m (p + i)) - uint (byte_at m (q + i))"
    let ?x = "byte_at m (p + i)" and ?y = "byte_at m (q + i)"
    have "take i ?P = take i ?Q" using i(1,2) by (simp add: region_def take_map [symmetric] list_eq_iff_nth_eq)
    then have "?P = take i ?P @ ?x # drop (Suc i) ?P" "?Q = take i ?P @ ?y # drop (Suc i) ?Q"
      using id_take_nth_drop [of i ?P] id_take_nth_drop [of i ?Q] i(1) by (simp_all add: region_def)
    then have "ord_class.lexordp ?P ?Q \<longleftrightarrow> ?x < ?y" using lexordp_first_difference [OF i(3)] by metis
    moreover have "?P \<noteq> ?Q" using i(1,3) by (auto simp: region_def)
    moreover have "r \<noteq> 0" using i(3,4) by (simp add: word_uint_eq_iff)
    ultimately show ?thesis using r(1) i(4) by (simp add: word_less_def)
  qed
qed

text \<open>
  C36. \<open>memcmp\<close> and \<open>strcmp\<close> decide equality and order. On readable regions \<open>memcmp\<close> returns 0 exactly
  when the regions agree, and a negative number exactly when the first comes first in the lexicographic order of
  unsigned bytes; \<open>strcmp\<close> does the same for two strings. Both always return.
\<close>

theorem compare_correct:
  assumes "valid m (unat p) (unat n)" "valid m (unat q) (unat n)" "cstring m (unat a) xs" "cstring m (unat b) ys"
  shows "(\<exists>r. memcmp p q n m = Inr r \<and> (r = 0 \<longleftrightarrow> region m (unat p) (unat n) = region m (unat q) (unat n)) \<and>
      (r < 0 \<longleftrightarrow> ord_class.lexordp (region m (unat p) (unat n)) (region m (unat q) (unat n)))) \<and>
    (\<exists>r. strcmp a b m = Inr r \<and> (r = 0 \<longleftrightarrow> xs = ys) \<and> (r < 0 \<longleftrightarrow> ord_class.lexordp xs ys))"
  using memcmp_order [OF assms(1,2)] strcmp_spec [OF assms(3,4)] by auto

theorem compare_correct_witness:
  "\<exists>m. (\<exists>r. memcmp 24 16 2 m = Inr r \<and> 0 < r) \<and> (\<exists>r. strcmp 16 24 m = Inr r \<and> r < 0)"
proof -
  let ?m = "stored (stored mem_example 16 [97, 98, 0]) 24 [97, 200, 0]"
  have "cstring ?m 16 [97, 98]" "cstring ?m 24 [97, 200]" by (simp_all add: cstring_Cons cstring_Nil) (simp_all add: stored_def)
  moreover have "valid ?m 24 2" "valid ?m 16 2" by (auto simp: valid_def stored_def mem_example_def u32_of_nat simp del: of_nat_add)
  moreover have "region ?m 24 2 = [97, 200]" "region ?m 16 2 = [97, 98]"
    by (simp_all add: region_def byte_at_def numeral_2_eq_2) (simp_all add: stored_def)
  ultimately obtain r r' where "memcmp 24 16 2 ?m = Inr r" "r \<noteq> 0" "\<not> r < 0" "strcmp 16 24 ?m = Inr r'" "r' < 0"
    using compare_correct [of ?m 24 2 16 16 "[97, 98]" 24 "[97, 200]"] by auto
  then show ?thesis by (metis linorder_neqE_linordered_idom)
qed

end
