(* ===== verification/Printf.thy ===== *)
theory Printf
  imports Libc
begin

unbundle bit_operations_syntax

text \<open>
  \<^verbatim>\<open>lib/libc/snprintf.c\<close>: the formatted output into a buffer. The local variables are a record; the
  macro \<^verbatim>\<open>set_ch\<close> may return from the function, so a statement goes on (\<open>Cont\<close>) or returns
  (\<open>Break\<close>). An argument is a 32-bit word (\<^verbatim>\<open>int\<close>, \<^verbatim>\<open>long\<close>, pointers) or a 64-bit one
  (\<^verbatim>\<open>long long\<close>); taking one of the other size is a fault.
\<close>

section \<open>State\<close>

datatype va = A32 u32 | A64 u64

record pst =
  pf_fmt :: ptr
  pf_ap :: "va list"
  pf_width :: int
  pf_flag :: u32
  pf_longflag :: nat
  pf_pos :: u32
  pf_mem :: bytes

type_synonym pres = "(pst, u32 \<times> bytes) flow res"

definition FLAG_ZEROPAD :: u32 where "FLAG_ZEROPAD = 0x002"
definition FLAG_NEG :: u32 where "FLAG_NEG = 0x100"

definition is_digit :: "u8 \<Rightarrow> bool" where
  "is_digit ch \<longleftrightarrow> 48 \<le> ch \<and> ch \<le> 57"

definition digits :: "u64 \<Rightarrow> u8" where
  "digits x = (if (ucast x :: u8) \<le> 9 then 48 + ucast x else 97 + ucast x - 10)"

section \<open>Output\<close>

definition set_ch :: "ptr \<Rightarrow> u32 \<Rightarrow> u8 \<Rightarrow> pst \<Rightarrow> pres" where
  "set_ch str sz ch s =
     and_then (st8 (pf_mem s) (str + pf_pos s) ch) (\<lambda>m.
     let pos = pf_pos s + 1 in
     if pos = sz
     then and_then (st8 m (str + (sz - 1)) 0) (\<lambda>m. Inr (Break (sz, m)))
     else Inr (Cont (s\<lparr>pf_pos := pos, pf_mem := m\<rparr>)))"

definition va32 :: "pst \<Rightarrow> (u32 \<times> pst) res" where
  "va32 s = (case pf_ap s of A32 w # ap \<Rightarrow> Inr (w, s\<lparr>pf_ap := ap\<rparr>) | _ \<Rightarrow> Inl Fault)"

definition va64 :: "pst \<Rightarrow> (u64 \<times> pst) res" where
  "va64 s = (case pf_ap s of A64 w # ap \<Rightarrow> Inr (w, s\<lparr>pf_ap := ap\<rparr>) | _ \<Rightarrow> Inl Fault)"

definition getint :: "pst \<Rightarrow> (u64 \<times> pst) res" where
  "getint s = (if pf_longflag s \<le> 1 then and_then (va32 s) (\<lambda>(w, s). Inr (scast w, s)) else va64 s)"

definition getuint :: "pst \<Rightarrow> (u64 \<times> pst) res" where
  "getuint s = (if pf_longflag s \<le> 1 then and_then (va32 s) (\<lambda>(w, s). Inr (ucast w, s)) else va64 s)"

definition put_digits :: "u64 \<Rightarrow> u64 \<Rightarrow> (u8 list \<times> nat) res" where
  "put_digits base uval =
     returns (loop (\<lambda>(uval, buf, buf_pos).
       if uval > 0
       then and_then (wr buf buf_pos (digits (uval mod base))) (\<lambda>buf. Inr (Cont (uval div base, buf, buf_pos + 1)))
       else Inr (Break (buf, buf_pos))) (uval, replicate 25 0, 0))"

definition number_digits :: "u64 \<Rightarrow> u64 \<Rightarrow> (u8 list \<times> nat) res" where
  "number_digits base uval =
     and_then (put_digits base uval) (\<lambda>(buf, buf_pos).
     if buf_pos = 0 then and_then (wr buf 0 48) (\<lambda>buf. Inr (buf, 1)) else Inr (buf, buf_pos))"

primrec put_buf :: "ptr \<Rightarrow> u32 \<Rightarrow> u8 list \<Rightarrow> nat \<Rightarrow> pst \<Rightarrow> pres" where
  "put_buf str sz buf 0 s = Inr (Cont s)"
| "put_buf str sz buf (Suc k) s =
     and_then (rd buf k) (\<lambda>ch. flow_then (set_ch str sz ch s) (put_buf str sz buf k))"

primrec put_padded :: "ptr \<Rightarrow> u32 \<Rightarrow> u8 \<Rightarrow> u8 list \<Rightarrow> nat \<Rightarrow> nat \<Rightarrow> pst \<Rightarrow> pres" where
  "put_padded str sz pad buf buf_pos 0 s = Inr (Cont s)"
| "put_padded str sz pad buf buf_pos (Suc w) s =
     and_then (if w \<ge> buf_pos then Inr pad else rd buf w) (\<lambda>ch.
     flow_then (set_ch str sz ch s) (put_padded str sz pad buf buf_pos w))"

definition put_sign :: "ptr \<Rightarrow> u32 \<Rightarrow> pst \<Rightarrow> pres" where
  "put_sign str sz s = (if pf_flag s AND FLAG_NEG \<noteq> 0 then set_ch str sz 45 s else Inr (Cont s))"

definition print_uint :: "ptr \<Rightarrow> u32 \<Rightarrow> u64 \<Rightarrow> u64 \<Rightarrow> pst \<Rightarrow> pres" where
  "print_uint str sz base uval s =
     and_then (number_digits base uval) (\<lambda>(buf, buf_pos).
     flow_then
       (if pf_width s = 0
        then flow_then (put_sign str sz s) (put_buf str sz buf buf_pos)
        else if pf_width s > 0 \<and> pf_flag s OR FLAG_ZEROPAD \<noteq> 0
        then flow_then (put_sign str sz s) (put_padded str sz 48 buf buf_pos (nat (pf_width s)))
        else if pf_width s > 0
        then and_then (if pf_flag s AND FLAG_NEG \<noteq> 0 then and_then (wr buf buf_pos 45) (\<lambda>buf. Inr (buf, buf_pos + 1))
                       else Inr (buf, buf_pos)) (\<lambda>(buf, buf_pos).
             put_padded str sz 32 buf buf_pos (nat (pf_width s)) s)
        else Inr (Cont s))
       (\<lambda>s. Inr (Cont (s\<lparr>pf_fmt := pf_fmt s + 1\<rparr>))))"

definition get_print_uint :: "ptr \<Rightarrow> u32 \<Rightarrow> u64 \<Rightarrow> pst \<Rightarrow> pres" where
  "get_print_uint str sz base s =
     and_then (getuint s) (\<lambda>(uval, s). print_uint str sz base uval (s\<lparr>pf_longflag := 0\<rparr>))"

definition print_int :: "ptr \<Rightarrow> u32 \<Rightarrow> pst \<Rightarrow> pres" where
  "print_int str sz s =
     and_then (getint s) (\<lambda>(val, s).
     let s = s\<lparr>pf_longflag := 0\<rparr> in
     if val <s 0 then print_uint str sz 10 (- val) (s\<lparr>pf_flag := pf_flag s OR FLAG_NEG\<rparr>)
     else print_uint str sz 10 val s)"

text \<open>The characters of a string, counted; the literal \<^verbatim>\<open>"(null)"\<close> takes the place of a null pointer.\<close>

primrec put_list :: "ptr \<Rightarrow> u32 \<Rightarrow> u8 list \<Rightarrow> pst \<Rightarrow> pres" where
  "put_list str sz [] s = Inr (Cont s)"
| "put_list str sz (ch # l) s = flow_then (set_ch str sz ch s) (put_list str sz l)"

definition put_string :: "ptr \<Rightarrow> u32 \<Rightarrow> ptr \<Rightarrow> pst \<Rightarrow> (int \<times> pst, u32 \<times> bytes) flow res" where
  "put_string str sz p s =
     returns (loop (\<lambda>(p, l, s).
       and_then (ld8 (pf_mem s) p) (\<lambda>ch.
       if ch \<noteq> 0
       then and_then (set_ch str sz ch s) (\<lambda>x. case x of Cont s \<Rightarrow> Inr (Cont (p + 1, l + 1, s)) | Break r \<Rightarrow> Inr (Break (Break r)))
       else Inr (Break (Cont (l, s))))) (p, 0, s))"

definition print_string :: "ptr \<Rightarrow> u32 \<Rightarrow> pst \<Rightarrow> pres" where
  "print_string str sz s =
     and_then (va32 s) (\<lambda>(p, s).
     flow_then (if p = NULL then flow_then (put_list str sz [40, 110, 117, 108, 108, 41] s) (\<lambda>s. Inr (Cont (6, s)))
                else put_string str sz p s) (\<lambda>(l, s).
     flow_then (put_list str sz (replicate (nat (pf_width s - l)) 32) s) (\<lambda>s.
     Inr (Cont (s\<lparr>pf_fmt := pf_fmt s + 1\<rparr>)))))"

text \<open>The digits of a width; a width that does not fit \<^verbatim>\<open>ssize_t\<close> overflows, which is undefined.\<close>

definition read_width :: "pst \<Rightarrow> pst res" where
  "read_width s =
     returns (loop (\<lambda>s.
       and_then (ld8 (pf_mem s) (pf_fmt s)) (\<lambda>ch.
       if is_digit ch
       then let w = pf_width s * 10 + (uint ch - 48) in
            if w < 2 ^ 31 then Inr (Cont (s\<lparr>pf_width := w, pf_fmt := pf_fmt s + 1\<rparr>)) else Inl Fault
       else Inr (Break s))) s)"

section \<open>The conversions\<close>

text \<open>
  \<open>fmt_loop\<close>: after \<open>Cont\<close> the code jumps back to the label, \<open>Break\<close> carries what follows the
  \<^verbatim>\<open>switch\<close>.
\<close>

definition end_spec :: "pres \<Rightarrow> (pst, (pst, u32 \<times> bytes) flow) flow res" where
  "end_spec m = and_then m (\<lambda>x. case x of
     Cont s \<Rightarrow> Inr (Break (Cont (s\<lparr>pf_flag := 0, pf_width := 0\<rparr>))) | Break r \<Rightarrow> Inr (Break (Break r)))"

definition print_default :: "ptr \<Rightarrow> u32 \<Rightarrow> pst \<Rightarrow> pres" where
  "print_default str sz s =
     and_then (ld8 (pf_mem s) (pf_fmt s)) (\<lambda>ch.
     flow_then (set_ch str sz ch s) (\<lambda>s. Inr (Cont (s\<lparr>pf_fmt := pf_fmt s + 1\<rparr>))))"

definition fmt_step :: "ptr \<Rightarrow> u32 \<Rightarrow> pst \<Rightarrow> (pst, (pst, u32 \<times> bytes) flow) flow res" where
  "fmt_step str sz s =
     and_then (ld8 (pf_mem s) (pf_fmt s)) (\<lambda>ch.
     if ch = 108 then Inr (Cont (s\<lparr>pf_longflag := pf_longflag s + 1, pf_fmt := pf_fmt s + 1\<rparr>))
     else if ch = 100 then end_spec (print_int str sz s)
     else if ch = 111 then end_spec (get_print_uint str sz 8 s)
     else if ch = 120 then end_spec (get_print_uint str sz 16 s)
     else if ch = 112
     then end_spec (get_print_uint str sz 16 (s\<lparr>pf_flag := pf_flag s OR FLAG_ZEROPAD, pf_longflag := 1, pf_width := 8\<rparr>))
     else if ch = 117 then end_spec (get_print_uint str sz 10 s)
     else if ch = 99
     then end_spec (and_then (va32 s) (\<lambda>(c, s). flow_then (set_ch str sz (ucast c) s) (\<lambda>s. Inr (Cont (s\<lparr>pf_fmt := pf_fmt s + 1\<rparr>)))))
     else if ch = 115 then end_spec (print_string str sz s)
     else if ch = 37 then end_spec (flow_then (set_ch str sz 37 s) (\<lambda>s. Inr (Cont (s\<lparr>pf_fmt := pf_fmt s + 1\<rparr>))))
     else if ch = 48 then Inr (Cont (s\<lparr>pf_flag := pf_flag s OR FLAG_ZEROPAD, pf_fmt := pf_fmt s + 1\<rparr>))
     else if 49 \<le> ch \<and> ch \<le> 57 then and_then (read_width s) (\<lambda>s. Inr (Cont s))
     else and_then (flow_then (set_ch str sz 37 s) (print_default str sz)) (\<lambda>x. Inr (Break x)))"

definition fmt_loop :: "ptr \<Rightarrow> u32 \<Rightarrow> pst \<Rightarrow> pres" where
  "fmt_loop str sz s = returns (loop (fmt_step str sz) s)"

definition vsnprintf :: "ptr \<Rightarrow> u32 \<Rightarrow> ptr \<Rightarrow> va list \<Rightarrow> bytes \<Rightarrow> (u32 \<times> bytes) res" where
  "vsnprintf str sz fmt ap m =
     returns (loop (\<lambda>s.
       and_then (ld8 (pf_mem s) (pf_fmt s)) (\<lambda>ch.
       if ch \<noteq> 0
       then if ch = 37 then fmt_loop str sz (s\<lparr>pf_fmt := pf_fmt s + 1\<rparr>) else print_default str sz s
       else and_then (set_ch str sz 0 s) (\<lambda>x. case x of
              Cont s \<Rightarrow> Inr (Break (pf_pos s - 1, pf_mem s)) | Break r \<Rightarrow> Inr (Break r))))
     \<lparr>pf_fmt = fmt, pf_ap = ap, pf_width = 0, pf_flag = 0, pf_longflag = 0, pf_pos = 0, pf_mem = m\<rparr>)"

definition snprintf :: "ptr \<Rightarrow> u32 \<Rightarrow> ptr \<Rightarrow> va list \<Rightarrow> bytes \<Rightarrow> (u32 \<times> bytes) res" where
  "snprintf str sz fmt ap m = vsnprintf str sz fmt ap m"

section \<open>Bounds\<close>

text \<open>
  A predicate transformer for statements: \<open>P\<close> holds where execution goes on, \<open>R\<close> of what is
  returned; nothing is claimed of an access fault.
\<close>

definition flow_ok :: "('s \<Rightarrow> bool) \<Rightarrow> ('r \<Rightarrow> bool) \<Rightarrow> ('s, 'r) flow res \<Rightarrow> bool" where
  "flow_ok P R x \<longleftrightarrow> (case x of Inl e \<Rightarrow> True | Inr (Cont s) \<Rightarrow> P s | Inr (Break r) \<Rightarrow> R r)"

named_theorems flow_rules

lemma flow_ok_Cont [flow_rules]: "P s \<Longrightarrow> flow_ok P R (Inr (Cont s))"
  by (simp add: flow_ok_def)

lemma flow_ok_Inl [flow_rules]: "flow_ok P R (Inl e)"
  by (simp add: flow_ok_def)

lemma flow_ok_then [flow_rules]:
  "flow_ok P R m \<Longrightarrow> (\<And>s. P s \<Longrightarrow> flow_ok Q R (f s)) \<Longrightarrow> flow_ok Q R (flow_then m f)"
proof -
  assume a: "flow_ok P R m" "\<And>s. P s \<Longrightarrow> flow_ok Q R (f s)"
  show "flow_ok Q R (flow_then m f)"
  proof (cases m)
    case (Inr x)
    with a show ?thesis by (cases x) (simp_all add: flow_ok_def)
  qed (simp add: flow_ok_def)
qed

lemma flow_ok_and_then [flow_rules]: "(\<And>x. m = Inr x \<Longrightarrow> flow_ok P R (f x)) \<Longrightarrow> flow_ok P R (and_then m f)"
  by (cases m) (auto simp: flow_ok_def)

lemma flow_ok_if [flow_rules]: "(b \<Longrightarrow> flow_ok P R x) \<Longrightarrow> (\<not> b \<Longrightarrow> flow_ok P R y) \<Longrightarrow> flow_ok P R (if b then x else y)"
  by simp

lemma flow_okD: "flow_ok P R x \<Longrightarrow> x = Inr (Cont s) \<Longrightarrow> P s" "flow_ok P R x \<Longrightarrow> x = Inr (Break r) \<Longrightarrow> R r"
  by (simp_all add: flow_ok_def)

lemma flow_ok_loop:
  assumes "I s" "\<And>s. I s \<Longrightarrow> flow_ok I (\<lambda>x. flow_ok P R (Inr x)) (body s)"
  shows "flow_ok P R (returns (loop body s))"
proof (cases "loop body s")
  case (Some x)
  have "flow_ok P R x"
  proof (rule loop_partial [where I = I and Q = "flow_ok P R", OF Some assms(1)])
    show "I s'" if "I s" "body s = Inr (Cont s')" for s s' using assms(2) [OF that(1)] that(2) by (simp add: flow_ok_def)
    show "flow_ok P R (Inr r)" if "I s" "body s = Inr (Break r)" for s r using assms(2) [OF that(1)] that(2) by (simp add: flow_ok_def)
  qed (simp add: flow_ok_def)
  with Some show ?thesis by simp
qed (simp add: flow_ok_def)

definition in_buf :: "ptr \<Rightarrow> u32 \<Rightarrow> ptr \<Rightarrow> bool" where
  "in_buf str sz x \<longleftrightarrow> unat str \<le> unat x \<and> unat x < unat str + unat sz"

definition keeps :: "ptr \<Rightarrow> u32 \<Rightarrow> bytes \<Rightarrow> bytes \<Rightarrow> bool" where
  "keeps str sz m0 m \<longleftrightarrow> (\<forall>x. \<not> in_buf str sz x \<longrightarrow> m x = m0 x)"

definition pinv :: "ptr \<Rightarrow> u32 \<Rightarrow> bytes \<Rightarrow> pst \<Rightarrow> bool" where
  "pinv str sz m0 s \<longleftrightarrow> unat str + unat sz \<le> 2 ^ 32 \<and> unat (pf_pos s) < unat sz \<and> keeps str sz m0 (pf_mem s)"

definition pfin :: "ptr \<Rightarrow> u32 \<Rightarrow> bytes \<Rightarrow> u32 \<times> bytes \<Rightarrow> bool" where
  "pfin str sz m0 = (\<lambda>(r, m). unat r \<le> unat sz \<and> m (str + min r (sz - 1)) = Some 0 \<and> keeps str sz m0 m)"

lemma st8_keeps:
  assumes "keeps str sz m0 m" "st8 m (str + i) ch = Inr m'" "unat i < unat sz" "unat str + unat sz \<le> 2 ^ 32"
  shows "keeps str sz m0 m' \<and> m' = m(str + i \<mapsto> ch)"
proof -
  have "unat (str + i) = unat str + unat i" by (rule unat_add_lem [THEN iffD1]) (use assms(3,4) in simp)
  then have "in_buf str sz (str + i)" using assms(3) by (simp add: in_buf_def)
  moreover have "m' = m(str + i \<mapsto> ch)" using assms(2) by (auto simp: st8_def upd_def split: option.splits)
  ultimately show ?thesis using assms(1) by (auto simp: keeps_def)
qed

lemma set_ch_ok [flow_rules]:
  assumes "pinv str sz m0 s"
  shows "flow_ok (pinv str sz m0) (pfin str sz m0) (set_ch str sz ch s)"
proof -
  have p: "unat (pf_pos s) < unat sz" "keeps str sz m0 (pf_mem s)" "unat str + unat sz \<le> 2 ^ 32" using assms by (auto simp: pinv_def)
  have nz: "sz \<noteq> 0" using p(1) by auto
  have n: "unat (pf_pos s + 1) = unat (pf_pos s) + 1"
    using unat_add_lem [THEN iffD1, of "pf_pos s" 1] p(1) unat_u32 [of sz] by simp
  have z: "unat (sz - 1) < unat sz" using nz by (simp add: unat_minus_one unat_gt_0)
  have mn: "min sz (sz - 1) = sz - 1" using z by (simp add: min_def word_le_nat_alt)
  show ?thesis
  proof (cases "st8 (pf_mem s) (str + pf_pos s) ch")
    case (Inr m)
    note m = st8_keeps [OF p(2) Inr p(1,3), THEN conjunct1]
    show ?thesis
    proof (cases "pf_pos s + 1 = sz")
      case True
      show ?thesis
      proof (cases "st8 m (str + (sz - 1)) 0")
        case (Inr m')
        with st8_keeps [OF m Inr z p(3), THEN conjunct1] st8_keeps [OF m Inr z p(3), THEN conjunct2] True mn \<open>st8 (pf_mem s) (str + pf_pos s) ch = Inr m\<close> show ?thesis
          by (auto simp: set_ch_def flow_ok_def pfin_def)
      qed (use Inr True in \<open>simp add: set_ch_def flow_ok_def\<close>)
    next
      case False
      then have "unat (pf_pos s) + 1 \<noteq> unat sz" using n by (metis word_unat_eq_iff)
      with Inr False m n p show ?thesis by (simp add: set_ch_def flow_ok_def pinv_def)
    qed
  qed (simp add: set_ch_def flow_ok_def)
qed

text \<open>Changes of the other fields keep the invariant.\<close>

lemma pinv_fields [simp]:
  "pinv str sz m0 (s\<lparr>pf_fmt := f\<rparr>) = pinv str sz m0 s" "pinv str sz m0 (s\<lparr>pf_ap := a\<rparr>) = pinv str sz m0 s"
  "pinv str sz m0 (s\<lparr>pf_width := w\<rparr>) = pinv str sz m0 s" "pinv str sz m0 (s\<lparr>pf_flag := g\<rparr>) = pinv str sz m0 s"
  "pinv str sz m0 (s\<lparr>pf_longflag := n\<rparr>) = pinv str sz m0 s"
  by (simp_all add: pinv_def)

lemma va_pinv:
  "va32 s = Inr (w, s') \<Longrightarrow> pinv str sz m0 s' = pinv str sz m0 s" "va64 s = Inr (v, s') \<Longrightarrow> pinv str sz m0 s' = pinv str sz m0 s"
  "getint s = Inr (v, s') \<Longrightarrow> pinv str sz m0 s' = pinv str sz m0 s" "getuint s = Inr (v, s') \<Longrightarrow> pinv str sz m0 s' = pinv str sz m0 s"
  by (auto simp: va32_def va64_def getint_def getuint_def and_then_eq_Inr split: list.splits va.splits if_splits)

lemma put_buf_ok [flow_rules]:
  "pinv str sz m0 s \<Longrightarrow> flow_ok (pinv str sz m0) (pfin str sz m0) (put_buf str sz buf k s)"
  by (induction k arbitrary: s) (auto intro!: flow_rules)

lemma put_padded_ok [flow_rules]:
  "pinv str sz m0 s \<Longrightarrow> flow_ok (pinv str sz m0) (pfin str sz m0) (put_padded str sz pad buf bp k s)"
  by (induction k arbitrary: s) (auto intro!: flow_rules)

lemma put_list_ok [flow_rules]:
  "pinv str sz m0 s \<Longrightarrow> flow_ok (pinv str sz m0) (pfin str sz m0) (put_list str sz l s)"
  by (induction l arbitrary: s) (auto intro!: flow_rules)

lemma put_string_ok [flow_rules]:
  assumes "pinv str sz m0 s"
  shows "flow_ok (\<lambda>(l, s). pinv str sz m0 s) (pfin str sz m0) (put_string str sz p s)"
  unfolding put_string_def
proof (rule flow_ok_loop [where I = "\<lambda>(p, l, s). pinv str sz m0 s"])
  fix x :: "ptr \<times> int \<times> pst"
  obtain p l s where x: "x = (p, l, s)" by (cases x)
  assume "case x of (p, l, s) \<Rightarrow> pinv str sz m0 s"
  then have i: "pinv str sz m0 s" by (simp add: x)
  show "flow_ok (\<lambda>(p, l, s). pinv str sz m0 s) (\<lambda>x. flow_ok (\<lambda>(l, s). pinv str sz m0 s) (pfin str sz m0) (Inr x))
     (case x of (p, l, s) \<Rightarrow> and_then (ld8 (pf_mem s) p) (\<lambda>ch.
       if ch \<noteq> 0
       then and_then (set_ch str sz ch s) (\<lambda>x. case x of Cont s \<Rightarrow> Inr (Cont (p + 1, l + 1, s)) | Break r \<Rightarrow> Inr (Break (Break r)))
       else Inr (Break (Cont (l, s)))))"
    using flow_okD [OF set_ch_ok [OF i]] i unfolding x
    by (auto intro!: flow_ok_and_then simp: flow_ok_def and_then_def split: flow.splits sum.splits)
qed (use assms in simp)

lemma put_sign_ok [flow_rules]:
  "pinv str sz m0 s \<Longrightarrow> flow_ok (pinv str sz m0) (pfin str sz m0) (put_sign str sz s)"
  unfolding put_sign_def by (intro flow_rules)

lemma print_uint_ok [flow_rules]:
  "pinv str sz m0 s \<Longrightarrow> flow_ok (pinv str sz m0) (pfin str sz m0) (print_uint str sz base uval s)"
  unfolding print_uint_def by (auto intro!: flow_rules)

lemma get_print_uint_ok [flow_rules]:
  "pinv str sz m0 s \<Longrightarrow> flow_ok (pinv str sz m0) (pfin str sz m0) (get_print_uint str sz base s)"
  unfolding get_print_uint_def by (auto intro!: flow_rules simp: va_pinv)

lemma print_int_ok [flow_rules]:
  "pinv str sz m0 s \<Longrightarrow> flow_ok (pinv str sz m0) (pfin str sz m0) (print_int str sz s)"
  unfolding print_int_def Let_def by (auto intro!: flow_rules simp: va_pinv)

lemma print_string_ok [flow_rules]:
  "pinv str sz m0 s \<Longrightarrow> flow_ok (pinv str sz m0) (pfin str sz m0) (print_string str sz s)"
  unfolding print_string_def
  by (rule flow_ok_and_then, clarify)
    (rule flow_ok_then [where P = "\<lambda>(l, s). pinv str sz m0 s"]; auto intro!: flow_rules simp: va_pinv)

lemma print_default_ok [flow_rules]:
  "pinv str sz m0 s \<Longrightarrow> flow_ok (pinv str sz m0) (pfin str sz m0) (print_default str sz s)"
  unfolding print_default_def by (auto intro!: flow_rules)

lemma end_spec_ok:
  "flow_ok (pinv str sz m0) (pfin str sz m0) x \<Longrightarrow>
   flow_ok (pinv str sz m0) (\<lambda>x. flow_ok (pinv str sz m0) (pfin str sz m0) (Inr x)) (end_spec x)"
  by (auto simp: end_spec_def flow_ok_def and_then_def split: flow.splits sum.splits)

lemma read_width_pinv:
  assumes "read_width s = Inr s'" "pinv str sz m0 s"
  shows "pinv str sz m0 s'"
proof -
  obtain x where x: "loop (\<lambda>s. and_then (ld8 (pf_mem s) (pf_fmt s)) (\<lambda>ch.
       if is_digit ch
       then let w = pf_width s * 10 + (uint ch - 48) in
            if w < 2 ^ 31 then Inr (Cont (s\<lparr>pf_width := w, pf_fmt := pf_fmt s + 1\<rparr>)) else Inl Fault
       else Inr (Break s))) s = Some x" "x = Inr s'"
    using assms(1) by (auto simp: read_width_def returns_def split: option.splits)
  have "case x of Inr s \<Rightarrow> pinv str sz m0 s | Inl e \<Rightarrow> True"
    by (rule loop_partial [OF x(1), where I = "pinv str sz m0" and Q = "\<lambda>x. case x of Inr s \<Rightarrow> pinv str sz m0 s | Inl e \<Rightarrow> True"])
      (use assms(2) in \<open>auto simp: Let_def and_then_eq_Inr split: if_splits\<close>)
  with x(2) show ?thesis by simp
qed

lemma flow_ok_wrap: "flow_ok P R m \<Longrightarrow> flow_ok Q (\<lambda>x. flow_ok P R (Inr x)) (and_then m (\<lambda>x. Inr (Break x)))"
  by (cases m) (simp_all add: flow_ok_def)

lemma fmt_step_ok:
  assumes "pinv str sz m0 s"
  shows "flow_ok (pinv str sz m0) (\<lambda>x. flow_ok (pinv str sz m0) (pfin str sz m0) (Inr x)) (fmt_step str sz s)"
proof -
  have "flow_ok (pinv str sz m0) (\<lambda>x. flow_ok (pinv str sz m0) (pfin str sz m0) (Inr x))
     (and_then (flow_then (set_ch str sz 37 s) (print_default str sz)) (\<lambda>x. Inr (Break x)))"
    by (intro flow_ok_wrap flow_ok_then [OF set_ch_ok print_default_ok] assms)
  then show ?thesis unfolding fmt_step_def using assms
    by (intro flow_ok_and_then [of "ld8 _ _"] flow_ok_if end_spec_ok) (auto intro!: flow_rules simp: va_pinv dest: read_width_pinv)
qed

lemma fmt_loop_ok [flow_rules]:
  "pinv str sz m0 s \<Longrightarrow> flow_ok (pinv str sz m0) (pfin str sz m0) (fmt_loop str sz s)"
  unfolding fmt_loop_def by (rule flow_ok_loop [OF _ fmt_step_ok])

section \<open>Numbers\<close>

text \<open>The numeral of a number in a base, as the digits are read.\<close>

definition digit_char :: "nat \<Rightarrow> u8" where
  "digit_char d = (if d \<le> 9 then 48 + of_nat d else 87 + of_nat d)"

definition digit_value :: "u8 \<Rightarrow> nat" where
  "digit_value c = (if c \<le> 57 then unat c - 48 else unat c - 87)"

function numeral_of :: "nat \<Rightarrow> nat \<Rightarrow> u8 list" where
  "numeral_of b n = (if b < 2 \<or> n < b then [digit_char n] else numeral_of b (n div b) @ [digit_char (n mod b)])"
  by auto
termination by (relation "measure snd") (auto intro!: div_less_dividend)

declare numeral_of.simps [simp del]

definition number_of :: "nat \<Rightarrow> u8 list \<Rightarrow> nat" where
  "number_of b = foldl (\<lambda>a c. b * a + digit_value c) 0"

lemma digit_value_char: "d < 16 \<Longrightarrow> digit_value (digit_char d) = d"
  by (auto simp: digit_value_def digit_char_def word_le_nat_alt unat_word_ariths unat_of_nat)

lemma number_of_numeral: "2 \<le> b \<Longrightarrow> b \<le> 16 \<Longrightarrow> number_of b (numeral_of b n) = n"
proof (induction b n rule: numeral_of.induct)
  case (1 b n)
  show ?case
  proof (cases "n < b")
    case True
    then show ?thesis using 1(3) by (simp add: numeral_of.simps [of b n] number_of_def digit_value_char)
  next
    case False
    then have "number_of b (numeral_of b (n div b)) = n div b" using 1 by simp
    moreover have "digit_value (digit_char (n mod b)) = n mod b" by (rule digit_value_char) (use mod_less_divisor [of b n] 1(2,3) in linarith)
    ultimately show ?thesis using False 1(2) by (simp add: numeral_of.simps [of b n] number_of_def)
  qed
qed

lemma digits_char: "unat x < 16 \<Longrightarrow> digits x = digit_char (unat x)"
proof -
  assume x: "unat x < 16"
  define d where "d = unat x"
  have u: "(ucast x :: u8) = of_nat d" by (simp add: d_def)
  have "unat (of_nat d :: u8) = d" using x by (simp add: d_def unsigned_ucast_eq take_bit_nat_eq_self)
  then have "(of_nat d :: u8) \<le> 9 \<longleftrightarrow> d \<le> 9" by (simp add: word_le_nat_alt)
  then show "digits x = digit_char (unat x)" unfolding digits_def digit_char_def d_def [symmetric] u by simp
qed

abbreviation digits_body :: "u64 \<Rightarrow> u64 \<times> u8 list \<times> nat \<Rightarrow> (u64 \<times> u8 list \<times> nat, u8 list \<times> nat) flow res" where
  "digits_body base \<equiv> (\<lambda>(uval, buf, buf_pos).
       if uval > 0
       then and_then (wr buf buf_pos (digits (uval mod base))) (\<lambda>buf. Inr (Cont (uval div base, buf, buf_pos + 1)))
       else Inr (Break (buf, buf_pos)))"

lemma put_digits_loop:
  assumes "2 \<le> unat base" "unat base \<le> 16" "n \<noteq> 0" "k + length (numeral_of (unat base) (unat n)) \<le> length buf"
  shows "\<exists>buf'. loop (digits_body base) (n, buf, k) = Some (Inr (buf', k + length (numeral_of (unat base) (unat n)))) \<and>
    length buf' = length buf \<and> take (k + length (numeral_of (unat base) (unat n))) buf' = take k buf @ rev (numeral_of (unat base) (unat n))"
  using assms(3,4)
proof (induction "unat n" arbitrary: n k buf rule: less_induct)
  case less
  let ?b = "unat base"
  let ?buf = "buf[k := digit_char (unat n mod ?b)]"
  have len: "0 < length (numeral_of ?b (unat n))" by (subst numeral_of.simps) simp
  have "unat (n mod base) = unat n mod ?b" by (rule unat_mod)
  moreover have "unat n mod ?b < 16" using mod_less_divisor [of ?b "unat n"] assms(1,2) by linarith
  ultimately have dg: "digits (n mod base) = digit_char (unat n mod ?b)" using digits_char [of "n mod base"] by simp
  have kl: "k < length buf" using less.prems(2) len by linarith
  have step: "digits_body base (n, buf, k) = Inr (Cont (n div base, ?buf, k + 1))"
    using less.prems(1) kl dg by (simp add: word_neq_0_conv)
  have tk: "take (k + 1) ?buf = take k buf @ [digit_char (unat n mod ?b)]" using kl by (simp add: take_Suc_conv_app_nth)
  have dv: "unat (n div base) = unat n div ?b" by (rule unat_div)
  show ?case
  proof (cases "unat n < ?b")
    case True
    then have "n div base = 0" using dv by (simp flip: unat_eq_0)
    then have "loop (digits_body base) (n, buf, k) = Some (Inr (?buf, k + 1))" using step by (simp add: loop_Cont loop_Break)
    with True tk show ?thesis by (simp add: numeral_of.simps [of ?b "unat n"])
  next
    case False
    then have num: "numeral_of ?b (unat n) = numeral_of ?b (unat (n div base)) @ [digit_char (unat n mod ?b)]"
      using assms(1) dv by (simp add: numeral_of.simps [of ?b "unat n"])
    have "unat (n div base) < unat n" unfolding dv by (rule div_less_dividend) (use assms(1) False in auto)
    moreover have "n div base \<noteq> 0" using False dv assms(1) by (auto simp: div_eq_0_iff simp flip: unat_eq_0)
    ultimately obtain buf' where "loop (digits_body base) (n div base, ?buf, k + 1) =
        Some (Inr (buf', k + 1 + length (numeral_of ?b (unat (n div base)))))" "length buf' = length ?buf"
      "take (k + 1 + length (numeral_of ?b (unat (n div base)))) buf' = take (k + 1) ?buf @ rev (numeral_of ?b (unat (n div base)))"
      using less.hyps [of "n div base" "k + 1" ?buf] less.prems(2) num by auto
    with step tk num show ?thesis by (intro exI [of _ buf']) (simp add: loop_Cont)
  qed
qed

lemma numeral_of_length: "2 \<le> b \<Longrightarrow> n < b ^ Suc k \<Longrightarrow> length (numeral_of b n) \<le> Suc k"
proof (induction k arbitrary: n)
  case 0
  then show ?case by (simp add: numeral_of.simps [of b n])
next
  case (Suc k)
  have "n div b < b ^ Suc k" using Suc.prems by (simp add: less_mult_imp_div_less ac_simps)
  then have "length (numeral_of b (n div b)) \<le> Suc k" using Suc.IH Suc.prems(1) by blast
  then show ?case by (simp add: numeral_of.simps [of b n])
qed

lemma print_digits:
  assumes "2 \<le> unat base" "unat base \<le> 16" "unat n < unat base ^ 25"
  shows "\<exists>buf. number_digits base n =
    Inr (buf, length (numeral_of (unat base) (unat n))) \<and> length buf = 25 \<and>
    length (numeral_of (unat base) (unat n)) \<le> 25 \<and>
    take (length (numeral_of (unat base) (unat n))) buf = rev (numeral_of (unat base) (unat n))"
proof (cases "n = 0")
  case True
  then have "put_digits base n = Inr (replicate 25 0, 0)" by (simp add: put_digits_def loop_Break)
  moreover have "numeral_of (unat base) 0 = [48]" by (simp add: numeral_of.simps [of "unat base" 0] digit_char_def) (use assms(1) in simp)
  moreover have "(replicate 25 0)[0 := 48 :: u8] = 48 # replicate 24 0" by (simp add: eval_nat_numeral)
  ultimately show ?thesis using True by (simp add: number_digits_def)
next
  case False
  have l: "length (numeral_of (unat base) (unat n)) \<le> 25"
    using numeral_of_length [of "unat base" "unat n" 24] assms(1,3) by simp
  have "0 < length (numeral_of (unat base) (unat n))" by (subst numeral_of.simps) simp
  then have nz: "length (numeral_of (unat base) (unat n)) \<noteq> 0" by simp
  obtain buf where "loop (digits_body base) (n, replicate 25 0, 0) = Some (Inr (buf, length (numeral_of (unat base) (unat n))))"
    "length buf = 25" "take (length (numeral_of (unat base) (unat n))) buf = rev (numeral_of (unat base) (unat n))"
    using put_digits_loop [OF assms(1,2) False, of 0 "replicate 25 0"] l by auto
  with l nz show ?thesis by (simp add: number_digits_def put_digits_def)
qed

text \<open>The state after the text \<open>out\<close> has been written.\<close>

definition printed :: "bytes \<Rightarrow> ptr \<Rightarrow> u8 list \<Rightarrow> pst \<Rightarrow> pst" where
  "printed m str out s = s\<lparr>pf_pos := of_nat (length out), pf_mem := stored m (unat str) out\<rparr>"

lemma set_ch_printed:
  assumes "valid m (unat str) (unat sz)" "length out + 1 < unat sz"
  shows "set_ch str sz ch (printed m str out s) = Inr (Cont (printed m str (out @ [ch]) s))"
proof -
  have lt: "unat str + length out < 2 ^ 32" using assms by (simp add: valid_def)
  have st: "st8 (stored m (unat str) out) (of_nat (unat str + length out)) ch = Inr (stored m (unat str) (out @ [ch]))"
    using stored_snoc [OF lt, of m ch] valid_byte [OF assms(1), of "length out"] assms(2) lt
    by (auto simp: st8_def stored_def u32_of_nat simp del: of_nat_add)
  have "unat (of_nat (length out) + 1 :: u32) = length out + 1"
    using u32_of_nat [of "length out + 1"] assms(2) unat_u32 [of sz] by (simp add: add.commute)
  then have "of_nat (length out) + 1 \<noteq> sz" using assms(2) by (metis less_irrefl)
  with st show ?thesis by (simp add: set_ch_def printed_def add.commute)
qed

lemma put_buf_printed:
  assumes "valid m (unat str) (unat sz)"
  shows "k \<le> length buf \<Longrightarrow> length out + k < unat sz \<Longrightarrow>
    put_buf str sz buf k (printed m str out s) = Inr (Cont (printed m str (out @ rev (take k buf)) s))"
proof (induction k arbitrary: out)
  case (Suc k)
  then show ?case using set_ch_printed [OF assms, of out "buf ! k" s] Suc.IH [of "out @ [buf ! k]"]
    by (simp add: take_Suc_conv_app_nth)
qed simp

lemma print_uint_printed:
  assumes v: "valid m (unat str) (unat sz)" and b: "2 \<le> unat base" "unat base \<le> 16" "unat n < unat base ^ 25"
    and plain: "pf_width s = 0" "pf_flag s = 0" and room: "length (numeral_of (unat base) (unat n)) < unat sz"
  shows "print_uint str sz base n (printed m str [] s) =
    Inr (Cont (printed m str (numeral_of (unat base) (unat n)) (s\<lparr>pf_fmt := pf_fmt s + 1\<rparr>)))"
proof -
  let ?d = "numeral_of (unat base) (unat n)"
  obtain buf where buf: "number_digits base n = Inr (buf, length ?d)"
    "length buf = 25" "length ?d \<le> 25" "take (length ?d) buf = rev ?d"
    using print_digits [OF b] by blast
  have "put_buf str sz buf (length ?d) (printed m str [] s) = Inr (Cont (printed m str ?d s))"
    using put_buf_printed [OF v, of "length ?d" buf "[]" s] buf room by simp
  moreover have "put_sign str sz (printed m str [] s) = Inr (Cont (printed m str [] s))" using plain by (simp add: put_sign_def printed_def)
  moreover have "pf_width (printed m str [] s) = 0" using plain by (simp add: printed_def)
  ultimately show ?thesis using buf(1) by (simp add: print_uint_def) (simp add: printed_def)
qed

section \<open>Properties\<close>

text \<open>
  C22. \<open>vsnprintf\<close> prints unsigned numbers exactly: with the format \<^verbatim>\<open>%u\<close>, \<^verbatim>\<open>%o\<close> or \<^verbatim>\<open>%x\<close> and a buffer of
  more than twelve bytes it returns, the buffer holds a numeral and a null byte, the result is
  the length of the numeral, and reading the numeral in the base of the conversion gives back
  the argument.
\<close>

theorem vsnprintf_number:
  assumes "cstring m (unat fmt) [37, c]" "(c, b) = (117, 10) \<or> (c, b) = (111, 8) \<or> (c, b) = (120, 16)"
    and v: "valid m (unat str) (unat sz)" "12 < unat sz" and apart: "\<forall>i\<le>2. \<not> in_buf str sz (fmt + i)"
  shows "\<exists>ds. vsnprintf str sz fmt [A32 n] m = Inr (of_nat (length ds), stored m (unat str) (ds @ [0])) \<and> number_of b ds = unat n"
proof -
  define base :: u64 where "base = of_nat b"
  have b: "unat base = b" "2 \<le> b" "b \<le> 16" "unat n < b ^ 11" using assms(2) unat_u32 [of n] by (auto simp: base_def)
  define ds where "ds = numeral_of b (unat n)"
  have num: "number_of b ds = unat n" unfolding ds_def by (rule number_of_numeral [OF b(2,3)])
  have len: "length ds \<le> 11" unfolding ds_def using numeral_of_length [OF b(2), of "unat n" 10] b(4) by simp
  let ?s0 = "\<lparr>pf_fmt = fmt, pf_ap = [A32 n], pf_width = 0, pf_flag = 0, pf_longflag = 0, pf_pos = 0, pf_mem = m\<rparr>"
  let ?s1 = "\<lparr>pf_fmt = fmt + 1, pf_ap = [], pf_width = 0, pf_flag = 0, pf_longflag = 0, pf_pos = 0, pf_mem = m\<rparr>"
  have str: "m fmt = Some 37" "m (fmt + 1) = Some c" "m (fmt + 2) = Some 0"
    using assms(1) by (auto simp: cstring_Cons cstring_Nil algebra_simps)
  have p0: "printed m str [] ?s1 = ?s1" by (simp add: printed_def)
  have pw: "unat (ucast n :: u64) = unat n" "unat n < b ^ 25"
  proof -
    show "unat (ucast n :: u64) = unat n" using unat_u32 [of n] by (simp add: unsigned_ucast_eq take_bit_nat_eq_self)
    show "unat n < b ^ 25" using b(4) power_increasing [of 11 25 b] b(2) by linarith
  qed
  have pr: "print_uint str sz base (ucast n) ?s1 = Inr (Cont (printed m str ds (?s1\<lparr>pf_fmt := fmt + 1 + 1\<rparr>)))"
    using print_uint_printed [OF v(1), of base "ucast n" ?s1] b v(2) len pw unfolding p0
    by (simp add: ds_def)
  have "fmt_step str sz (?s0\<lparr>pf_fmt := fmt + 1\<rparr>) = end_spec (get_print_uint str sz base (?s0\<lparr>pf_fmt := fmt + 1\<rparr>))"
    using str(2) assms(2) by (auto simp: fmt_step_def ld8_def base_def)
  also have "get_print_uint str sz base (?s0\<lparr>pf_fmt := fmt + 1\<rparr>) = Inr (Cont (printed m str ds (?s1\<lparr>pf_fmt := fmt + 1 + 1\<rparr>)))"
    using pr by (simp add: get_print_uint_def getuint_def va32_def)
  finally have conv: "fmt_loop str sz (?s0\<lparr>pf_fmt := fmt + 1\<rparr>) = Inr (Cont (printed m str ds (?s1\<lparr>pf_fmt := fmt + 2\<rparr>)))"
    by (simp add: fmt_loop_def loop_Break end_spec_def printed_def)
  define body where "body = (\<lambda>s.
       and_then (ld8 (pf_mem s) (pf_fmt s)) (\<lambda>ch.
       if ch \<noteq> 0
       then if ch = 37 then fmt_loop str sz (s\<lparr>pf_fmt := pf_fmt s + 1\<rparr>) else print_default str sz s
       else and_then (set_ch str sz 0 s) (\<lambda>x. case x of
              Cont s \<Rightarrow> Inr (Break (pf_pos s - 1, pf_mem s)) | Break r \<Rightarrow> Inr (Break r))))"
  have one: "body ?s0 = Inr (Cont (printed m str ds (?s1\<lparr>pf_fmt := fmt + 2\<rparr>)))"
    using conv str(1) by (simp add: body_def ld8_def)
  have "\<not> in_buf str sz (fmt + 2)" using apart by simp
  then have "stored m (unat str) ds (fmt + 2) = Some 0" using str(3) len v(2) by (auto simp: stored_def in_buf_def)
  moreover have "set_ch str sz 0 (printed m str ds (?s1\<lparr>pf_fmt := fmt + 2\<rparr>)) = Inr (Cont (printed m str (ds @ [0]) (?s1\<lparr>pf_fmt := fmt + 2\<rparr>)))"
    by (rule set_ch_printed [OF v(1)]) (use len v(2) in simp)
  ultimately have two: "body (printed m str ds (?s1\<lparr>pf_fmt := fmt + 2\<rparr>)) = Inr (Break (of_nat (length ds), stored m (unat str) (ds @ [0])))"
    by (simp add: body_def ld8_def) (simp add: printed_def)
  have "vsnprintf str sz fmt [A32 n] m = returns (loop body ?s0)" by (simp add: vsnprintf_def body_def)
  also have "\<dots> = Inr (of_nat (length ds), stored m (unat str) (ds @ [0]))" using loop_Cont [of body, OF one] loop_Break [of body, OF two] by simp
  finally show ?thesis using num by blast
qed

theorem vsnprintf_number_witness:
  "\<exists>ds. vsnprintf 32 16 16 [A32 1000] (stored mem_example 16 [37, 117, 0]) =
     Inr (of_nat (length ds), stored (stored mem_example 16 [37, 117, 0]) 32 (ds @ [0])) \<and> number_of 10 ds = 1000"
proof -
  let ?m = "stored mem_example 16 [37, 117, 0]"
  have c: "cstring ?m (unat (16 :: u32)) [37, 117]" by (simp add: cstring_Cons cstring_Nil) (simp add: stored_def)
  have v: "valid ?m (unat (32 :: u32)) (unat (16 :: u32))"
    by (auto simp: valid_def stored_def mem_example_def u32_of_nat simp del: of_nat_add)
  have "\<not> in_buf 32 16 (16 + i)" if "i \<le> 2" for i :: u32
  proof -
    have "unat (16 + i) = 16 + unat i" using that unat_add_lem [THEN iffD1, of 16 i] by (simp add: word_le_nat_alt)
    then show ?thesis using that by (simp add: in_buf_def word_le_nat_alt)
  qed
  then show ?thesis using vsnprintf_number [OF c _ v, of 10 1000] by simp
qed

text \<open>
  C14. \<open>vsnprintf\<close> respects its buffer. With a buffer of at least one byte, whatever the format and the
  arguments are: a call that returns has written only inside the buffer, the result is at most
  the size, and there is a null byte at the result, or at the end of the buffer when the text
  was cut.
\<close>

theorem vsnprintf_bounds:
  assumes "unat str + unat sz \<le> 2 ^ 32" "sz \<noteq> 0" "vsnprintf str sz fmt ap m = Inr (r, m')"
  shows "r \<le> sz \<and> m' (str + min r (sz - 1)) = Some 0 \<and> (\<forall>x. \<not> in_buf str sz x \<longrightarrow> m' x = m x)"
proof -
  define body where "body = (\<lambda>s.
       and_then (ld8 (pf_mem s) (pf_fmt s)) (\<lambda>ch.
       if ch \<noteq> 0
       then if ch = 37 then fmt_loop str sz (s\<lparr>pf_fmt := pf_fmt s + 1\<rparr>) else print_default str sz s
       else and_then (set_ch str sz 0 s) (\<lambda>x. case x of
              Cont s \<Rightarrow> Inr (Break (pf_pos s - 1, pf_mem s)) | Break r \<Rightarrow> Inr (Break r))))"
  let ?s = "\<lparr>pf_fmt = fmt, pf_ap = ap, pf_width = 0, pf_flag = 0, pf_longflag = 0, pf_pos = 0, pf_mem = m\<rparr>"
  have run: "loop body ?s = Some (Inr (r, m'))"
    using assms(3) by (auto simp: vsnprintf_def body_def returns_def split: option.splits)
  have last: "flow_ok (pinv str sz m) (pfin str sz m) (and_then (set_ch str sz 0 s) (\<lambda>x. case x of
      Cont s \<Rightarrow> Inr (Break (pf_pos s - 1, pf_mem s)) | Break r \<Rightarrow> Inr (Break r)))" if s: "pinv str sz m s" for s
  proof (rule flow_ok_and_then)
    fix x assume x: "set_ch str sz 0 s = Inr x"
    show "flow_ok (pinv str sz m) (pfin str sz m) (case x of Cont s \<Rightarrow> Inr (Break (pf_pos s - 1, pf_mem s)) | Break r \<Rightarrow> Inr (Break r))"
    proof (cases x)
      case (Cont s')
      then have s': "pf_mem s' (str + pf_pos s) = Some 0" "pf_pos s' - 1 = pf_pos s"
        using x by (auto simp: set_ch_def st8_def upd_def and_then_eq_Inr Let_def split: if_splits option.splits)
      moreover have "min (pf_pos s) (sz - 1) = pf_pos s"
        using s assms(2) by (auto simp: pinv_def min_def word_le_nat_alt unat_minus_one)
      ultimately show ?thesis using flow_okD(1) [OF set_ch_ok [OF s] x [unfolded Cont]] s Cont
        by (simp add: flow_ok_def pfin_def pinv_def)
    next
      case (Break r)
      with flow_okD(2) [OF set_ch_ok [OF s] x [unfolded Break]] show ?thesis by (simp add: flow_ok_def)
    qed
  qed
  have step: "flow_ok (pinv str sz m) (pfin str sz m) (body s)" if "pinv str sz m s" for s
    unfolding body_def using that by (intro flow_ok_and_then [of "ld8 _ _"] flow_ok_if last fmt_loop_ok print_default_ok) simp_all
  define Q where "Q x \<longleftrightarrow> (case x of Inr x \<Rightarrow> pfin str sz m x | Inl e \<Rightarrow> True)" for x :: "(u32 \<times> bytes) res"
  have "pinv str sz m ?s" using assms(1,2) by (simp add: pinv_def keeps_def unat_gt_0)
  from run this have "Q (Inr (r, m'))"
    by (rule loop_partial) (use flow_okD [OF step] in \<open>auto simp: Q_def\<close>)
  then show ?thesis by (simp add: Q_def) (simp add: pfin_def keeps_def word_le_nat_alt)
qed


theorem vsnprintf_bounds_witness:
  "\<exists>m'. vsnprintf 32 2 16 [] (stored mem_example 16 [65, 66, 67, 0]) = Inr (2, m') \<and> m' 33 = Some 0 \<and> m' 34 = Some 34"
proof -
  let ?m = "stored mem_example 16 [65, 66, 67, 0]"
  have b: "?m 16 = Some 65" "?m 17 = Some 66" "?m 32 = Some 32" "?m 33 = Some 33" "?m 34 = Some 34" by (simp_all add: stored_def mem_example_def)
  have "vsnprintf 32 2 16 [] ?m = Inr (2, ?m(32 \<mapsto> 65, 33 \<mapsto> 66, 33 \<mapsto> 0))"
    unfolding vsnprintf_def
    by (subst loop.simps, simp add: ld8_def b print_default_def set_ch_def st8_def)
      (subst loop.simps, simp add: ld8_def b print_default_def set_ch_def st8_def)
  moreover have "\<not> in_buf 32 2 34" by (simp add: in_buf_def)
  ultimately show ?thesis using vsnprintf_bounds [of 32 2 16 "[]" ?m 2] b(5) by (simp add: min_def)
qed

end
