(* ===== verification/Addr.thy ===== *)
theory Addr
  imports Util
begin

text \<open>
  Pages, the allocation flags and the two views of physical memory:
  \<^verbatim>\<open>include/arch/mips/arch-mmu.h\<close>, \<^verbatim>\<open>include/aim/mmu.h\<close>, \<^verbatim>\<open>include/aim/gfp.h\<close> and
  \<^verbatim>\<open>include/sys/param.h\<close>. Physical addresses (\<^verbatim>\<open>addr_t\<close>) have 64 bits and pointers 32, so
  \<^verbatim>\<open>pa2kva\<close> drops the upper half of an address.
\<close>

definition PAGE_SHIFT :: nat where
  "PAGE_SHIFT = 12"

definition PAGE_SIZE :: "'a::len word" where
  "PAGE_SIZE = 4096"

definition PAGE_MASK :: "'a::len word" where
  "PAGE_MASK = PAGE_SIZE - 1"

definition PAGE_OFFSET :: "u32 \<Rightarrow> u32" where
  "PAGE_OFFSET a = a AND PAGE_MASK"

definition KERN_BASE :: u32 where
  "KERN_BASE = 0x80000000"

definition kva2pa :: "ptr \<Rightarrow> u32" where
  "kva2pa kva = kva - KERN_BASE"

definition pa2kva :: "u64 \<Rightarrow> ptr" where
  "pa2kva pa = ucast pa + KERN_BASE"

definition premap_addr :: "u64 \<Rightarrow> u32" where
  "premap_addr a = (let i = ucast a in if i \<ge> KERN_BASE then i - KERN_BASE else i)"

definition postmap_addr :: "u64 \<Rightarrow> u32" where
  "postmap_addr a = (let i = ucast a in if i \<ge> KERN_BASE then i else i + KERN_BASE)"

definition GFP_UNSAFE :: u32 where
  "GFP_UNSAFE = 0x1"

definition GFP_ZERO :: u32 where
  "GFP_ZERO = 0x2"

definition JUNKBYTE :: u8 where
  "JUNKBYTE = 0x20"

lemma unat_PAGE_SIZE: "unat (PAGE_SIZE :: u32) = 4096" "unat (PAGE_SIZE :: u64) = 4096"
  by (simp_all add: PAGE_SIZE_def)

lemma size_mod_PAGE_SIZE: "n mod PAGE_SIZE = 0 \<longleftrightarrow> 4096 dvd unat n" for n :: u64
  by (simp add: unat_eq_0 [symmetric] unat_mod unat_PAGE_SIZE dvd_eq_mod_eq_0)

text \<open>A low physical address and its kernel view determine each other.\<close>

lemma kva2pa_pa2kva: "unat a < 2 ^ 32 \<Longrightarrow> unat (kva2pa (pa2kva a)) = unat a"
  by (simp add: kva2pa_def pa2kva_def unsigned_ucast_eq take_bit_nat_eq_self)

end
