(* ===== verification/FreeList.thy ===== *)
theory FreeList
  imports Main
begin

text \<open>
  The specification of the page allocator: the free memory as a list of blocks \<open>(address, size)\<close>,
  sorted by address, with gaps between neighbours. \<open>take_fit\<close> takes memory from the first block
  that is large enough and \<open>give_back\<close> returns a region, merging it with its neighbours.
\<close>

type_synonym block = "nat \<times> nat"

fun separated :: "nat \<Rightarrow> block list \<Rightarrow> bool" where
  "separated lo [] \<longleftrightarrow> True"
| "separated lo ((a, n) # bs) \<longleftrightarrow> lo \<le> a \<and> 0 < n \<and> separated (Suc (a + n)) bs"

definition free_mem :: "block list \<Rightarrow> nat set" where
  "free_mem bs = (\<Union>(a, n)\<in>set bs. {a..<a + n})"

definition free_total :: "block list \<Rightarrow> nat" where
  "free_total bs = sum_list (map snd bs)"

fun take_fit :: "nat \<Rightarrow> block list \<Rightarrow> (nat \<times> block list) option" where
  "take_fit n [] = None"
| "take_fit n ((a, m) # bs) =
     (if n \<le> m then Some (a, if n = m then bs else (a + n, m - n) # bs)
      else map_option (\<lambda>(r, bs'). (r, (a, m) # bs')) (take_fit n bs))"

fun merge_next :: "block \<Rightarrow> block list \<Rightarrow> block list" where
  "merge_next (a, n) ((b, m) # bs) = (if a + n = b then (a, n + m) # bs else (a, n) # (b, m) # bs)"
| "merge_next c [] = [c]"

fun give_back :: "block \<Rightarrow> block list \<Rightarrow> block list" where
  "give_back (a, n) ((b, m) # bs) =
     (if b < a then (if b + m = a then merge_next (b, m + n) bs else (b, m) # give_back (a, n) bs)
      else merge_next (a, n) ((b, m) # bs))"
| "give_back c [] = [c]"

section \<open>Memory of a list\<close>

lemma free_mem_simps [simp]:
  "free_mem [] = {}"
  "free_mem (b # bs) = {fst b..<fst b + snd b} \<union> free_mem bs"
  by (auto simp: free_mem_def)

lemma free_total_simps [simp]: "free_total [] = 0" "free_total (b # bs) = snd b + free_total bs"
  by (simp_all add: free_total_def)

lemma separated_mono: "separated lo bs \<Longrightarrow> lo' \<le> lo \<Longrightarrow> separated lo' bs"
  by (cases bs) auto

lemma separated_bound: "separated lo bs \<Longrightarrow> x \<in> free_mem bs \<Longrightarrow> lo \<le> x"
  by (induction lo bs rule: separated.induct) force+

lemma separated_cons_disjoint:
  "separated lo ((a, n) # bs) \<Longrightarrow> {a..<a + n} \<inter> free_mem bs = {}"
  using separated_bound [of "Suc (a + n)" bs] by fastforce

text \<open>The sizes add up to the number of free addresses.\<close>

lemma free_total_card: "separated lo bs \<Longrightarrow> finite (free_mem bs) \<and> card (free_mem bs) = free_total bs"
proof (induction lo bs rule: separated.induct)
  case (2 lo a n bs)
  then have "finite (free_mem bs)" "card (free_mem bs) = free_total bs" by auto
  moreover have "{a..<a + n} \<inter> free_mem bs = {}" by (rule separated_cons_disjoint [OF 2(2)])
  ultimately show ?case by (simp add: card_Un_disjoint)
qed simp

section \<open>Taking\<close>

lemma take_fit_Some:
  assumes "separated lo bs" "take_fit n bs = Some (r, bs')"
  shows "{r..<r + n} \<subseteq> free_mem bs \<and> free_mem bs' = free_mem bs - {r..<r + n} \<and>
    separated lo bs' \<and> free_total bs = n + free_total bs'"
  using assms
proof (induction n bs arbitrary: lo r bs' rule: take_fit.induct)
  case (2 n a m bs)
  show ?case
  proof (cases "n \<le> m")
    case True
    have disj: "{a..<a + m} \<inter> free_mem bs = {}" by (rule separated_cons_disjoint [OF 2(2)])
    show ?thesis
    proof (cases "n = m")
      case True
      with 2(2,3) disj show ?thesis by (auto intro: separated_mono)
    next
      case neq: False
      have r: "r = a" "bs' = (a + n, m - n) # bs" "a + n + (m - n) = a + m" using 2(3) True neq by auto
      have "{a..<a + m} - {a..<a + n} = {a + n..<a + m}" using True by auto
      moreover have sub: "{a..<a + n} \<subseteq> {a..<a + m}" using True by auto
      then have "free_mem bs - {a..<a + n} = free_mem bs" using disj by blast
      ultimately have "free_mem bs' = free_mem ((a, m) # bs) - {r..<r + n}"
        unfolding r by (simp only: free_mem_simps fst_conv snd_conv r Un_Diff)
      moreover have "{r..<r + n} \<subseteq> free_mem ((a, m) # bs)" unfolding r using sub by (simp add: le_supI1)
      moreover have "separated lo bs'" "free_total ((a, m) # bs) = n + free_total bs'"
        unfolding r using 2(2) True neq by simp_all
      ultimately show ?thesis by blast
    qed
  next
    case False
    with 2(3) obtain bs1 where bs1: "take_fit n bs = Some (r, bs1)" "bs' = (a, m) # bs1" by auto
    from 2(1) [OF False _ bs1(1), of "Suc (a + m)"] 2(2)
    have IH: "{r..<r + n} \<subseteq> free_mem bs" "free_mem bs1 = free_mem bs - {r..<r + n}"
      "separated (Suc (a + m)) bs1" "free_total bs = n + free_total bs1" by auto
    have "{a..<a + m} \<inter> free_mem bs = {}" by (rule separated_cons_disjoint [OF 2(2)])
    with IH bs1 2(2) show ?thesis by auto
  qed
qed simp

lemma take_fit_None: "take_fit n bs = None \<longleftrightarrow> (\<forall>b\<in>set bs. snd b < n)"
  by (induction n bs rule: take_fit.induct) auto

section \<open>Giving back\<close>

lemma merge_next_spec:
  assumes "separated lo ((a, n) # [])" "separated (a + n) bs"
  shows "separated lo (merge_next (a, n) bs) \<and>
    free_mem (merge_next (a, n) bs) = {a..<a + n} \<union> free_mem bs \<and> free_total (merge_next (a, n) bs) = n + free_total bs"
proof (cases bs)
  case (Cons c cs)
  then obtain b m where c: "bs = (b, m) # cs" by (cases c) auto
  show ?thesis
  proof (cases "a + n = b")
    case True
    then have c: "bs = (a + n, m) # cs" using c by simp
    have "{a..<a + n} \<union> {a + n..<a + (n + m)} = {a..<a + (n + m)}" by auto
    with assms show ?thesis unfolding c by (simp add: add.assoc Un_assoc [symmetric])
  next
    case False
    with assms c show ?thesis by auto
  qed
qed (use assms in simp)

lemma separated_gap: "separated lo bs \<Longrightarrow> {lo..<hi} \<inter> free_mem bs = {} \<Longrightarrow> separated hi bs"
proof (cases bs)
  case (Cons c cs)
  moreover assume "separated lo bs" "{lo..<hi} \<inter> free_mem bs = {}"
  moreover from this Cons have "fst c \<in> free_mem bs" "lo \<le> fst c" by (cases c, auto)+
  ultimately have "hi \<le> fst c" by (metis atLeastLessThan_iff disjoint_iff not_le)
  with Cons \<open>separated lo bs\<close> show ?thesis by (cases c) simp
qed simp

lemma give_back_spec:
  assumes "separated lo bs" "0 < n" "lo \<le> a" "{a..<a + n} \<inter> free_mem bs = {}"
  shows "separated lo (give_back (a, n) bs) \<and>
    free_mem (give_back (a, n) bs) = {a..<a + n} \<union> free_mem bs \<and> free_total (give_back (a, n) bs) = n + free_total bs"
  using assms
proof (induction bs arbitrary: lo)
  case (Cons c bs)
  obtain b m where c: "c = (b, m)" by (cases c)
  have sep: "lo \<le> b" "0 < m" "separated (Suc (b + m)) bs" using Cons.prems(1) c by auto
  have disj: "{a..<a + n} \<inter> {b..<b + m} = {}" "{a..<a + n} \<inter> free_mem bs = {}"
    using Cons.prems(4) unfolding c by (simp_all only: free_mem_simps fst_conv snd_conv Int_Un_distrib Un_empty)
  have order: "b + m \<le> a \<or> a + n \<le> b"
  proof (rule ccontr)
    assume "\<not> ?thesis"
    then have "max a b \<in> {a..<a + n} \<inter> {b..<b + m}" using Cons.prems(2) sep(2) by (simp add: max_def)
    with disj show False by blast
  qed
  consider (join) "b + m = a" | (after) "b + m < a" | (before) "a + n \<le> b" using order by linarith
  then show ?case
  proof cases
    case join
    have "{Suc a..<a + n} \<subseteq> {a..<a + n}" by auto
    then have "{Suc a..<a + n} \<inter> free_mem bs = {}" using disj(2) by blast
    then have "separated (a + n) bs"
      using separated_gap [of "Suc a" bs "a + n"] sep(3) join by simp
    then have "separated (b + (m + n)) bs" unfolding join [symmetric] by (simp add: add.assoc)
    moreover have "{b..<b + (m + n)} = {a..<a + n} \<union> {b..<b + m}" using join by auto
    ultimately show ?thesis
      using merge_next_spec [of lo b "m + n" bs] sep join c by (simp add: Un_ac)
  next
    case after
    then have "separated (Suc (b + m)) (give_back (a, n) bs) \<and>
      free_mem (give_back (a, n) bs) = {a..<a + n} \<union> free_mem bs \<and> free_total (give_back (a, n) bs) = n + free_total bs"
      using Cons.IH [OF sep(3) Cons.prems(2)] disj(2) by simp
    with after sep c show ?thesis by (simp add: Un_ac)
  next
    case before
    with merge_next_spec [of lo a n "c # bs"] sep c Cons.prems(2,3) show ?thesis by simp
  qed
qed simp

section \<open>Uniqueness\<close>

text \<open>A list of separated blocks is determined by its memory.\<close>

lemma separated_first:
  assumes "separated lo ((a, n) # bs)"
  shows "x \<in> free_mem ((a, n) # bs) \<Longrightarrow> a \<le> x" "a \<in> free_mem ((a, n) # bs)" "a + n \<notin> free_mem ((a, n) # bs)"
    "free_mem bs = free_mem ((a, n) # bs) - {a..<a + n}"
proof -
  have b: "Suc (a + n) \<le> y" if "y \<in> free_mem bs" for y using assms separated_bound [of "Suc (a + n)" bs y] that by simp
  show "x \<in> free_mem ((a, n) # bs) \<Longrightarrow> a \<le> x" using b [of x] by auto
  show "a \<in> free_mem ((a, n) # bs)" using assms by simp
  show "a + n \<notin> free_mem ((a, n) # bs)" using b [of "a + n"] by auto
  show "free_mem bs = free_mem ((a, n) # bs) - {a..<a + n}" using b by fastforce
qed

lemma separated_unique:
  assumes "separated lo bs" "separated lo cs" "free_mem bs = free_mem cs"
  shows "bs = cs"
  using assms
proof (induction lo bs arbitrary: cs rule: separated.induct)
  case (1 lo)
  then show ?case by (cases cs) auto
next
  case (2 lo a n bs)
  then obtain b m cs' where cs: "cs = (b, m) # cs'" by (cases cs) auto
  note f = separated_first [OF 2(2)] and g = separated_first [OF 2(3) [unfolded cs]]
  have e: "free_mem ((a, n) # bs) = free_mem ((b, m) # cs')" using 2(4) cs by simp
  have "b \<in> free_mem ((a, n) # bs)" "a \<in> free_mem ((b, m) # cs')" using f(2) g(2) unfolding e by blast+
  then have ab: "a = b" using f(1) g(1) by (meson order_antisym)
  have "n < m \<Longrightarrow> a + n \<in> free_mem ((b, m) # cs')" "m < n \<Longrightarrow> b + m \<in> free_mem ((a, n) # bs)" using ab by simp_all
  then have nm: "n = m" using f(3) g(3) unfolding e by (meson linorder_neqE_nat)
  have "free_mem bs = free_mem cs'" using f(4) g(4) e ab nm by metis
  with 2(1) [of cs'] 2(2,3) ab nm cs show ?case by simp
qed

section \<open>Whole pages\<close>

text \<open>Blocks of whole pages below a bound.\<close>

definition whole_pages :: "nat \<Rightarrow> block list \<Rightarrow> bool" where
  "whole_pages B bs \<longleftrightarrow> (\<forall>(a, n)\<in>set bs. 4096 dvd a \<and> 4096 dvd n \<and> a + n \<le> B)"

lemma take_fit_pages:
  "whole_pages B bs \<Longrightarrow> 4096 dvd n \<Longrightarrow> take_fit n bs = Some (r, bs') \<Longrightarrow> 4096 dvd r \<and> whole_pages B bs'"
  by (induction n bs arbitrary: r bs' rule: take_fit.induct) (auto simp: whole_pages_def split: if_splits)

lemma merge_next_pages:
  "whole_pages B (c # bs) \<Longrightarrow> whole_pages B (merge_next c bs)"
  by (cases "(c, bs)" rule: merge_next.cases) (auto simp: whole_pages_def)

lemma give_back_pages:
  "whole_pages B (c # bs) \<Longrightarrow> whole_pages B (give_back c bs)"
proof (induction c bs rule: give_back.induct)
  case (1 a n b m bs)
  have "whole_pages B (merge_next (b, m + n) bs)" if "b + m = a"
    by (rule merge_next_pages) (use 1(2) that in \<open>auto simp: whole_pages_def\<close>)
  moreover have "whole_pages B (merge_next (a, n) ((b, m) # bs))" by (rule merge_next_pages) (rule 1(2))
  moreover have "whole_pages B (give_back (a, n) bs)" if "b < a" "b + m \<noteq> a"
    by (rule 1(1) [OF that]) (use 1(2) in \<open>auto simp: whole_pages_def\<close>)
  ultimately show ?case using 1(2) by (auto simp: whole_pages_def)
qed simp

end
