(* ===== verification/Palloc.thy ===== *)
theory Palloc
  imports Addr Links FreeList
begin

text \<open>
  The page allocator of \<^verbatim>\<open>kern/mm/pmm/palloc.c\<close>: the free blocks of physical memory, in nodes
  linked between the static nodes \<^verbatim>\<open>h\<close> and \<^verbatim>\<open>t\<close>. The nodes come from \<^verbatim>\<open>kmalloc\<close>; the calls of
  \<^verbatim>\<open>kmalloc(sizeof(struct mem_block), 0)\<close> and \<^verbatim>\<open>kfree\<close>, which go through the function table of the
  object allocator, are arguments of the operations and may change the whole state.
\<close>

section \<open>State\<close>

record pages =
  pg_paddr :: u64
  pg_size :: u64
  pg_flags :: u32

record mem_block =
  mb_prev :: ptr
  mb_next :: ptr
  mb_paddr :: u64
  mb_size :: u64
  mb_flags :: u32

record palloc =
  pa_blocks :: "ptr \<rightharpoonup> mem_block"
  pa_head :: ptr
  pa_tail :: ptr
  pa_free_size :: u64

section \<open>Operations\<close>

text \<open>\<^verbatim>\<open>a->prev->next = a->next; a->next->prev = a->prev;\<close>\<close>

definition block_unlink :: "ptr \<Rightarrow> (ptr \<rightharpoonup> mem_block) \<Rightarrow> (ptr \<rightharpoonup> mem_block) res" where
  "block_unlink a H =
     and_then (ld H a) (\<lambda>b.
     and_then (upd H (mb_prev b) (mb_next_update (\<lambda>_. mb_next b))) (\<lambda>H.
     and_then (ld H a) (\<lambda>b.
     upd H (mb_next b) (mb_prev_update (\<lambda>_. mb_prev b)))))"

text \<open>Taking \<open>n\<close> bytes from the start of the block \<open>a\<close>; an empty block is unlinked and released.\<close>

definition block_shrink ::
  "(ptr \<Rightarrow> 'a palloc_scheme \<Rightarrow> 'a palloc_scheme res) \<Rightarrow> ptr \<Rightarrow> u64 \<Rightarrow> 'a palloc_scheme \<Rightarrow> 'a palloc_scheme res" where
  "block_shrink kfree a n s =
     and_then (upd (pa_blocks s) a (\<lambda>b. b\<lparr>mb_paddr := mb_paddr b + n, mb_size := mb_size b - n\<rparr>)) (\<lambda>H.
     and_then (ld H a) (\<lambda>b.
     if mb_size b = 0
     then and_then (block_unlink a H) (\<lambda>H. kfree a (s\<lparr>pa_blocks := H\<rparr>))
     else Inr (s\<lparr>pa_blocks := H\<rparr>)))"

definition palloc_alloc ::
  "(ptr \<Rightarrow> 'a palloc_scheme \<Rightarrow> 'a palloc_scheme res) \<Rightarrow> pages \<Rightarrow> 'a palloc_scheme \<Rightarrow>
   (int \<times> pages \<times> 'a palloc_scheme) res" where
  "palloc_alloc kfree pages s =
     (if pg_size pages mod PAGE_SIZE \<noteq> 0 then Inr (- 1, pages, s)
      else if pg_size pages > pa_free_size s then Inr (- 1, pages, s)
      else and_then (ld (pa_blocks s) (pa_head s)) (\<lambda>hd.
        and_then (returns (walk (pa_blocks s) mb_next (\<lambda>_ b. mb_size b \<ge> pg_size pages) (pa_tail s) (mb_next hd))) (\<lambda>a.
        if a = pa_tail s then Inr (- 1, pages, s)
        else and_then (ld (pa_blocks s) a) (\<lambda>b.
          and_then (block_shrink kfree a (pg_size pages) s) (\<lambda>s.
          Inr (0, pages\<lparr>pg_paddr := mb_paddr b\<rparr>, s\<lparr>pa_free_size := pa_free_size s - pg_size pages\<rparr>))))))"

text \<open>The insertion of the new node \<open>a\<close> before \<open>i\<close>.\<close>

definition block_insert :: "ptr \<Rightarrow> ptr \<Rightarrow> (ptr \<rightharpoonup> mem_block) \<Rightarrow> (ptr \<rightharpoonup> mem_block) res" where
  "block_insert a i H =
     and_then (ld H i) (\<lambda>ib.
     and_then (upd H a (mb_prev_update (\<lambda>_. mb_prev ib))) (\<lambda>H.
     and_then (upd H a (mb_next_update (\<lambda>_. i))) (\<lambda>H.
     and_then (ld H i) (\<lambda>ib.
     and_then (upd H (mb_prev ib) (mb_next_update (\<lambda>_. a))) (\<lambda>H.
     upd H i (mb_prev_update (\<lambda>_. a)))))))"

text \<open>The two tests after the insertion: merge with the block before, then with the one after.\<close>

definition merge_prev ::
  "(ptr \<Rightarrow> 'a palloc_scheme \<Rightarrow> 'a palloc_scheme res) \<Rightarrow> ptr \<Rightarrow> 'a palloc_scheme \<Rightarrow> (ptr \<times> 'a palloc_scheme) res" where
  "merge_prev kfree a s =
     and_then (ld (pa_blocks s) a) (\<lambda>b.
     if mb_prev b = pa_head s then Inr (a, s)
     else and_then (ld (pa_blocks s) (mb_prev b)) (\<lambda>p.
       if mb_paddr p + mb_size p = mb_paddr b
       then and_then (upd (pa_blocks s) (mb_prev b) (mb_size_update (\<lambda>n. n + mb_size b))) (\<lambda>H.
            and_then (block_unlink a H) (\<lambda>H.
            and_then (kfree a (s\<lparr>pa_blocks := H\<rparr>)) (\<lambda>s. Inr (mb_prev b, s))))
       else Inr (a, s)))"

definition merge_next_block ::
  "(ptr \<Rightarrow> 'a palloc_scheme \<Rightarrow> 'a palloc_scheme res) \<Rightarrow> ptr \<Rightarrow> 'a palloc_scheme \<Rightarrow> 'a palloc_scheme res" where
  "merge_next_block kfree a s =
     and_then (ld (pa_blocks s) a) (\<lambda>b.
     if mb_next b = pa_tail s then Inr s
     else and_then (ld (pa_blocks s) (mb_next b)) (\<lambda>n.
       if mb_paddr b + mb_size b = mb_paddr n
       then and_then (upd (pa_blocks s) a (mb_size_update (\<lambda>k. k + mb_size n))) (\<lambda>H.
            and_then (upd H (mb_next n) (mb_prev_update (\<lambda>_. a))) (\<lambda>H.
            and_then (upd H a (mb_next_update (\<lambda>_. mb_next n))) (\<lambda>H.
            kfree (mb_next b) (s\<lparr>pa_blocks := H\<rparr>))))
       else Inr s))"

definition palloc_free ::
  "('a palloc_scheme \<Rightarrow> (ptr \<times> 'a palloc_scheme) res) \<Rightarrow> (ptr \<Rightarrow> 'a palloc_scheme \<Rightarrow> 'a palloc_scheme res) \<Rightarrow>
   pages \<Rightarrow> 'a palloc_scheme \<Rightarrow> 'a palloc_scheme res" where
  "palloc_free kmalloc kfree pages s =
     (if pg_size pages mod PAGE_SIZE \<noteq> 0 then Inr s
      else and_then (kmalloc s) (\<lambda>(a, s).
        if a = NULL then Inl Panic
        else and_then (upd (pa_blocks s) a (\<lambda>b. b\<lparr>mb_paddr := pg_paddr pages, mb_size := pg_size pages\<rparr>)) (\<lambda>H.
          and_then (ld H (pa_head s)) (\<lambda>hd.
          and_then (returns (walk H mb_next (\<lambda>_ b. mb_paddr b \<ge> pg_paddr pages) (pa_tail s) (mb_next hd))) (\<lambda>i.
          and_then (block_insert a i H) (\<lambda>H.
          and_then (merge_prev kfree a (s\<lparr>pa_blocks := H\<rparr>)) (\<lambda>(a, s).
          and_then (merge_next_block kfree a s) (\<lambda>s.
          Inr (s\<lparr>pa_free_size := pa_free_size s + pg_size pages\<rparr>)))))))))"

definition palloc_get_free :: "'a palloc_scheme \<Rightarrow> u64" where
  "palloc_get_free s = pa_free_size s"

definition page_allocator_init :: "ptr \<Rightarrow> ptr \<Rightarrow> 'a palloc_scheme \<Rightarrow> 'a palloc_scheme res" where
  "page_allocator_init h t s =
     (let s = s\<lparr>pa_free_size := 0, pa_head := h, pa_tail := t\<rparr> in
      and_then (upd (pa_blocks s) t (mb_next_update (\<lambda>_. NULL))) (\<lambda>H.
      and_then (upd H h (mb_prev_update (\<lambda>_. NULL))) (\<lambda>H.
      and_then (upd H h (mb_next_update (\<lambda>_. t))) (\<lambda>H.
      and_then (upd H t (mb_prev_update (\<lambda>_. h))) (\<lambda>H. Inr (s\<lparr>pa_blocks := H\<rparr>))))))"

text \<open>
  \<^verbatim>\<open>page_allocator_move\<close> replaces every node by one from the new object allocator, and gives the
  old one to the allocator it came from.
\<close>

definition move_step ::
  "('a palloc_scheme \<Rightarrow> (ptr \<times> 'a palloc_scheme) res) \<Rightarrow> (ptr \<Rightarrow> 'a palloc_scheme \<Rightarrow> 'a palloc_scheme res) \<Rightarrow>
   ptr \<Rightarrow> 'a palloc_scheme \<Rightarrow> (ptr \<times> 'a palloc_scheme) res" where
  "move_step kmalloc old_free now s =
     and_then (kmalloc s) (\<lambda>(new, s).
     if new = NULL then Inl Panic
     else and_then (ld (pa_blocks s) now) (\<lambda>b.
       and_then (upd (pa_blocks s) new (\<lambda>n. n\<lparr>mb_paddr := mb_paddr b, mb_size := mb_size b, mb_prev := mb_prev b, mb_next := mb_next b\<rparr>)) (\<lambda>H.
       and_then (upd H (mb_prev b) (mb_next_update (\<lambda>_. new))) (\<lambda>H.
       and_then (ld H now) (\<lambda>b.
       and_then (upd H (mb_next b) (mb_prev_update (\<lambda>_. new))) (\<lambda>H.
       and_then (old_free now (s\<lparr>pa_blocks := H\<rparr>)) (\<lambda>s. Inr (new, s))))))))"

partial_function (option) move_loop ::
  "('a palloc_scheme \<Rightarrow> (ptr \<times> 'a palloc_scheme) res) \<Rightarrow> (ptr \<Rightarrow> 'a palloc_scheme \<Rightarrow> 'a palloc_scheme res) \<Rightarrow>
   ptr \<Rightarrow> 'a palloc_scheme \<Rightarrow> 'a palloc_scheme res option" where
  "move_loop kmalloc old_free now s =
     (if now = pa_tail s then Some (Inr s)
      else case and_then (move_step kmalloc old_free now s) (\<lambda>(new, s).
               and_then (ld (pa_blocks s) new) (\<lambda>b. Inr (mb_next b, s))) of
        Inl e \<Rightarrow> Some (Inl e)
      | Inr (nxt, s) \<Rightarrow> move_loop kmalloc old_free nxt s)"

definition page_allocator_move ::
  "('a palloc_scheme \<Rightarrow> (ptr \<times> 'a palloc_scheme) res) \<Rightarrow> (ptr \<Rightarrow> 'a palloc_scheme \<Rightarrow> 'a palloc_scheme res) \<Rightarrow>
   'a palloc_scheme \<Rightarrow> (int \<times> 'a palloc_scheme) res" where
  "page_allocator_move kmalloc old_free s =
     and_then (ld (pa_blocks s) (pa_head s)) (\<lambda>hd.
     and_then (returns (move_loop kmalloc old_free (mb_next hd) s)) (\<lambda>s. Inr (0, s)))"

section \<open>The blocks in the list\<close>

definition block_of :: "(ptr \<rightharpoonup> mem_block) \<Rightarrow> ptr \<Rightarrow> block" where
  "block_of H p = (case H p of None \<Rightarrow> (0, 0) | Some b \<Rightarrow> (unat (mb_paddr b), unat (mb_size b)))"

abbreviation block_list :: "(ptr \<rightharpoonup> mem_block) \<Rightarrow> ptr \<Rightarrow> ptr \<Rightarrow> ptr list \<Rightarrow> bool" where
  "block_list H \<equiv> bounded_list H mb_next mb_prev"

text \<open>
  The representation: the state holds the blocks \<open>bs\<close>, sorted, with gaps and below the last
  address, and \<^verbatim>\<open>free_size\<close> is their total size.
\<close>

definition blocks_rep :: "'a palloc_scheme \<Rightarrow> block list \<Rightarrow> bool" where
  "blocks_rep s bs \<longleftrightarrow> (\<exists>xs. block_list (pa_blocks s) (pa_head s) (pa_tail s) xs \<and>
     bs = map (block_of (pa_blocks s)) xs) \<and>
     separated 0 bs \<and> (\<forall>(a, n)\<in>set bs. a + n < 2 ^ 64) \<and> unat (pa_free_size s) = free_total bs"

lemma block_of_Some [simp]: "H p = Some b \<Longrightarrow> block_of H p = (unat (mb_paddr b), unat (mb_size b))"
  by (simp add: block_of_def)

lemma block_list_node:
  assumes "block_list H h t (A @ a # B)"
  obtains b where "H a = Some b" "mb_prev b = last (h # A)" "mb_next b = hd (B @ [t])"
proof -
  obtain A' u where L: "h # A = A' @ [u]" by (metis append_butlast_last_id list.discI)
  obtain v B' where R: "B @ [t] = v # B'" by (cases B) auto
  have e: "h # (A @ a # B) @ [t] = A' @ u # a # v # B'" "h # (A @ a # B) @ [t] = (A' @ [u]) @ a # v # B'"
    using L R by (metis append_Cons append_assoc append_Nil)+
  have l: "links (field H mb_next) (field H mb_prev) (A' @ u # a # v # B')"
    "links (field H mb_next) (field H mb_prev) ((A' @ [u]) @ a # v # B')"
    using assms e unfolding bounded_list_def chain_def by metis+
  from links_member [OF l(1)] obtain b where "H a = Some b" "mb_prev b = u" by metis
  moreover from links_member [OF l(2)] obtain b' where "H a = Some b'" "mb_next b' = v" by metis
  moreover have "u = last (h # A)" "v = hd (B @ [t])" using L R by simp_all
  ultimately show thesis using that by auto
qed

lemma block_unlink_list:
  assumes "block_list H h t (A @ a # B)"
  shows "\<exists>H'. block_unlink a H = Inr H' \<and> dom H' = dom H \<and> block_list H' h t (A @ B) \<and>
    (\<forall>p. block_of H' p = block_of H p)"
proof -
  obtain A' u where L: "h # A = A' @ [u]" by (metis append_butlast_last_id list.discI)
  obtain v B' where R: "B @ [t] = v # B'" by (cases B) auto
  have e: "h # (A @ a # B) @ [t] = A' @ u # a # v # B'" "h # (A @ B) @ [t] = A' @ u # v # B'"
    using L R by (metis append_Cons append_assoc append_Nil)+
  have c: "chain (field H mb_next) (field H mb_prev) (A' @ u # a # v # B')" and
    d: "distinct (A' @ u # a # v # B')"
    using assms e(1) unfolding bounded_list_def by metis+
  obtain b where b: "H a = Some b" "mb_prev b = u" "mb_next b = v"
    using block_list_node [OF assms] L R by (metis last_snoc list.sel(1))
  have l: "links (field H mb_next) (field H mb_prev) (A' @ u # a # v # B')"
    "links (field H mb_next) (field H mb_prev) ((A' @ [u]) @ a # v # B')"
    using c by (simp_all add: chain_def)
  from links_member [OF l(1)] obtain bu where bu: "H u = Some bu" by metis
  from links_member [OF l(2)] obtain bv where bv: "H v = Some bv" by metis
  have ne: "a \<noteq> u" "a \<noteq> v" "u \<noteq> v" using d by auto
  let ?H = "H(u \<mapsto> bu\<lparr>mb_next := v\<rparr>, v \<mapsto> bv\<lparr>mb_prev := u\<rparr>)"
  have "block_unlink a H = Inr ?H" using b bu bv ne by (simp add: block_unlink_def)
  moreover have "block_list ?H h t (A @ B)"
  proof -
    have "field ?H mb_next = (field H mb_next)(u := Some v)" "field ?H mb_prev = (field H mb_prev)(v := Some u)"
      using ne bu bv by (auto simp: fun_eq_iff)
    with chain_delete [OF c] d show ?thesis unfolding bounded_list_def e(2) by auto
  qed
  moreover have "\<forall>p. block_of ?H p = block_of H p" using bu bv by (simp add: block_of_def)
  moreover have "dom ?H = dom H" using bu bv by auto
  ultimately show ?thesis by auto
qed

lemma block_insert_list:
  assumes "block_list H h t (A @ B)" "a \<in> dom H" "a \<notin> set (h # A @ B @ [t])"
  shows "\<exists>H'. block_insert a (hd (B @ [t])) H = Inr H' \<and> dom H' = dom H \<and> block_list H' h t (A @ a # B) \<and>
    (\<forall>p. block_of H' p = block_of H p)"
proof -
  obtain A' u where L: "h # A = A' @ [u]" by (metis append_butlast_last_id list.discI)
  obtain v B' where R: "B @ [t] = v # B'" by (cases B) auto
  have e: "h # (A @ a # B) @ [t] = A' @ u # a # v # B'" "h # (A @ B) @ [t] = A' @ u # v # B'"
    "h # A @ B @ [t] = A' @ u # v # B'"
    using L R by (metis append_Cons append_assoc append_Nil)+
  have c: "chain (field H mb_next) (field H mb_prev) (A' @ u # v # B')" and
    d: "distinct (A' @ u # v # B')"
    using assms(1) e(2) unfolding bounded_list_def by metis+
  have a: "a \<notin> set (A' @ u # v # B')" using assms(3) e(3) by metis
  have l: "links (field H mb_next) (field H mb_prev) (A' @ u # v # B')" using c by (simp add: chain_def)
  from links_member [OF l] obtain bu bv where buv: "H u = Some bu" "H v = Some bv" "mb_prev bv = u" by metis
  obtain b where b: "H a = Some b" using assms(2) by blast
  have ne: "a \<noteq> u" "a \<noteq> v" "u \<noteq> v" using d a by auto
  let ?H = "H(a \<mapsto> b\<lparr>mb_prev := u, mb_next := v\<rparr>, u \<mapsto> bu\<lparr>mb_next := a\<rparr>, v \<mapsto> bv\<lparr>mb_prev := a\<rparr>)"
  have "block_insert a (hd (B @ [t])) H = Inr ?H" using b buv ne R by (simp add: block_insert_def)
  moreover have "block_list ?H h t (A @ a # B)"
  proof -
    have "field ?H mb_next = (field H mb_next)(u := Some a, a := Some v)"
      "field ?H mb_prev = (field H mb_prev)(v := Some a, a := Some u)"
      using ne b buv by (auto simp: fun_eq_iff)
    with chain_insert [OF c a] d a show ?thesis unfolding bounded_list_def e(1) by auto
  qed
  moreover have "\<forall>p. block_of ?H p = block_of H p" using b buv by (simp add: block_of_def)
  moreover have "dom ?H = dom H" using b buv by auto
  ultimately show ?thesis by auto
qed

text \<open>The three stores that take the node after \<open>a\<close> out.\<close>

lemma merge_next_stores:
  assumes "block_list H h t (A @ a # n # B)" "H a = Some b" "H n = Some c"
  shows "\<exists>H'. and_then (upd H a (mb_size_update f)) (\<lambda>H.
      and_then (upd H (mb_next c) (mb_prev_update (\<lambda>_. a))) (\<lambda>H. upd H a (mb_next_update (\<lambda>_. mb_next c)))) = Inr H' \<and>
    dom H' = dom H \<and> block_list H' h t (A @ a # B) \<and>
    block_of H' a = (unat (mb_paddr b), unat (f (mb_size b))) \<and> (\<forall>p. p \<noteq> a \<longrightarrow> block_of H' p = block_of H p)"
proof -
  obtain v B' where R: "B @ [t] = v # B'" by (cases B) auto
  have e: "h # (A @ a # n # B) @ [t] = (h # A) @ a # n # v # B'" "h # (A @ a # B) @ [t] = (h # A) @ a # v # B'"
    using R by simp_all
  have c: "chain (field H mb_next) (field H mb_prev) ((h # A) @ a # n # v # B')" and
    d: "distinct ((h # A) @ a # n # v # B')"
    using assms(1) e(1) unfolding bounded_list_def by metis+
  have nxt: "mb_next c = v"
    using block_list_node [of H h t "A @ [a]" n B] assms R by auto
  have l: "links (field H mb_next) (field H mb_prev) (((h # A) @ [a]) @ n # v # B')"
    using c by (simp add: chain_def)
  from links_member [OF l] obtain bv where bv: "H v = Some bv" by metis
  have ne: "a \<noteq> n" "a \<noteq> v" "n \<noteq> v" using d by auto
  let ?H = "H(a \<mapsto> mb_size_update f b, v \<mapsto> bv\<lparr>mb_prev := a\<rparr>, a \<mapsto> (mb_size_update f b)\<lparr>mb_next := v\<rparr>)"
  have "and_then (upd H a (mb_size_update f)) (\<lambda>H.
      and_then (upd H (mb_next c) (mb_prev_update (\<lambda>_. a))) (\<lambda>H. upd H a (mb_next_update (\<lambda>_. mb_next c)))) = Inr ?H"
    using assms(2,3) bv ne nxt by simp
  moreover have "block_list ?H h t (A @ a # B)"
  proof -
    have "field ?H mb_next = (field H mb_next)(a := Some v)" "field ?H mb_prev = (field H mb_prev)(v := Some a)"
      using ne bv assms(2) by (auto simp: fun_eq_iff)
    with chain_delete [OF c] d show ?thesis unfolding bounded_list_def e(2) by auto
  qed
  moreover have "block_of ?H a = (unat (mb_paddr b), unat (f (mb_size b)))" by simp
  moreover have "\<forall>p. p \<noteq> a \<longrightarrow> block_of ?H p = block_of H p" using bv by (simp add: block_of_def)
  moreover have "dom ?H = dom H" using bv assms(2) by auto
  ultimately show ?thesis by blast
qed

lemma unat_add_u64: "unat (x :: u64) + unat y < 2 ^ 64 \<Longrightarrow> unat (x + y) = unat x + unat y"
  by (subst unat_add_lem [symmetric]) simp

lemma walk_blocks:
  assumes "block_list H h t xs" "H h = Some b"
    and P: "\<And>p c. H p = Some c \<Longrightarrow> P p c \<longleftrightarrow> Q (block_of H p)"
  shows "\<exists>A B. xs = A @ B \<and> walk H mb_next P t (mb_next b) = Some (Inr (hd (B @ [t]))) \<and>
    (\<forall>p\<in>set A. \<not> Q (block_of H p)) \<and> (B \<noteq> [] \<longrightarrow> Q (block_of H (hd B)))"
proof -
  obtain A B where w: "xs = A @ B"
    "walk H mb_next P t (mb_next b) = Some (Inr (hd (B @ [t])))"
    "\<forall>p\<in>set A. \<not> holds_at H P p" "B \<noteq> [] \<longrightarrow> holds_at H P (hd B)"
    using walk_bounded [OF assms(1,2), of P] by blast
  have "holds_at H P p \<longleftrightarrow> Q (block_of H p)" if "p \<in> set xs" for p
    using bounded_list_dom [OF assms(1)] that P by (auto simp: holds_at_def)
  then show ?thesis using w by (intro exI [of _ A] exI [of _ B]) auto
qed

text \<open>The specification functions on a list that is split where the code stops.\<close>

lemma take_fit_append:
  assumes "\<forall>b\<in>set As. \<not> n \<le> snd b" "n \<le> m"
  shows "take_fit n (As @ (r, m) # Bs) = Some (r, As @ (if n = m then Bs else (r + n, m - n) # Bs))"
  using assms by (induction As) auto

lemma take_fit_none:
  assumes "\<forall>b\<in>set As. \<not> n \<le> snd b"
  shows "take_fit n As = None"
  using assms by (auto simp: take_fit_None)

lemma give_back_append:
  assumes "separated lo (As @ Bs)" "\<forall>b\<in>set As. fst b < a" "Bs \<noteq> [] \<Longrightarrow> a \<le> fst (hd Bs)"
  shows "give_back (a, n) (As @ Bs) =
    (if As \<noteq> [] \<and> fst (last As) + snd (last As) = a
     then butlast As @ merge_next (fst (last As), snd (last As) + n) Bs else As @ merge_next (a, n) Bs)"
  using assms
proof (induction As arbitrary: lo)
  case Nil
  then show ?case by (cases Bs) auto
next
  case (Cons c As)
  obtain b m where c: "c = (b, m)" by (cases c)
  show ?case
  proof (cases "As = []")
    case True
    with Cons.prems c show ?thesis by (cases Bs) auto
  next
    case False
    then obtain b' m' As' where As: "As = (b', m') # As'" by (metis list.exhaust surj_pair)
    have "b + m < a" using Cons.prems(1,2) As c by auto
    moreover have "give_back (a, n) (As @ Bs) =
      (if As \<noteq> [] \<and> fst (last As) + snd (last As) = a
       then butlast As @ merge_next (fst (last As), snd (last As) + n) Bs else As @ merge_next (a, n) Bs)"
      using Cons.prems c by (intro Cons.IH [of "Suc (b + m)"]) auto
    ultimately show ?thesis using Cons.prems(2) c False by simp
  qed
qed

lemma blocks_below:
  assumes "separated lo bs"
  shows "(\<forall>(a, n)\<in>set bs. a + n < M) \<longleftrightarrow> (\<forall>x\<in>free_mem bs. Suc x < M)"
  using assms
proof (induction lo bs rule: separated.induct)
  case (2 lo a n bs)
  have "a + n < M \<longleftrightarrow> (\<forall>x\<in>{a..<a + n}. Suc x < M)"
  proof
    assume r: "\<forall>x\<in>{a..<a + n}. Suc x < M"
    have "a + n - 1 \<in> {a..<a + n}" using 2(2) by auto
    with r have "Suc (a + n - 1) < M" by blast
    then show "a + n < M" using 2(2) by simp
  qed auto
  with 2 show ?case by auto
qed simp

lemma total_below:
  assumes "separated lo bs" "\<forall>x\<in>free_mem bs. Suc x < M" "0 < M"
  shows "free_total bs < M"
proof -
  have "free_mem bs \<subseteq> {..<M - 1}" using assms(2) by auto
  then have "card (free_mem bs) \<le> card {..<M - 1}" by (intro card_mono) simp_all
  then show ?thesis using free_total_card [OF assms(1)] assms(3) by simp
qed

section \<open>The object allocator under the page allocator\<close>

definition same_vars :: "'a palloc_scheme \<Rightarrow> 'a palloc_scheme \<Rightarrow> bool" where
  "same_vars s s' \<longleftrightarrow> pa_head s' = pa_head s \<and> pa_tail s' = pa_tail s \<and> pa_free_size s' = pa_free_size s"

text \<open>
  What the page allocator relies on: \<^verbatim>\<open>kmalloc\<close> returns \<^verbatim>\<open>NULL\<close> or a node that does not exist yet,
  \<^verbatim>\<open>kfree\<close> affects no other node, and neither of them touches the variables of the page
  allocator.
\<close>

locale node_allocator =
  fixes kmalloc :: "'a palloc_scheme \<Rightarrow> (ptr \<times> 'a palloc_scheme) res"
    and kfree :: "ptr \<Rightarrow> 'a palloc_scheme \<Rightarrow> 'a palloc_scheme res"
    and ok :: "'a palloc_scheme \<Rightarrow> bool"
  assumes kmalloc_node: "ok s \<Longrightarrow> \<exists>p s'. kmalloc s = Inr (p, s') \<and> ok s' \<and> same_vars s s' \<and>
      (if p = NULL then pa_blocks s' = pa_blocks s
       else p \<notin> dom (pa_blocks s) \<and> (\<exists>b. pa_blocks s' = (pa_blocks s)(p \<mapsto> b)))"
    and kfree_node: "ok s \<Longrightarrow> p \<in> dom (pa_blocks s) \<Longrightarrow> \<exists>s'. kfree p s = Inr s' \<and> ok s' \<and> same_vars s s' \<and>
      (\<forall>q. q \<noteq> p \<longrightarrow> pa_blocks s' q = pa_blocks s q)"
    and ok_blocks: "ok s \<Longrightarrow> dom H = dom (pa_blocks s) \<Longrightarrow> ok (s\<lparr>pa_blocks := H\<rparr>)"
    and ok_free_size: "ok s \<Longrightarrow> ok (s\<lparr>pa_free_size := n\<rparr>)"
begin

text \<open>Releasing a node that is not in the list keeps the list and its blocks.\<close>

lemma kfree_list:
  assumes "ok s" "p \<in> dom (pa_blocks s)" "p \<notin> set (h # xs @ [t])" "block_list (pa_blocks s) h t xs"
  shows "\<exists>s'. kfree p s = Inr s' \<and> ok s' \<and> same_vars s s' \<and> block_list (pa_blocks s') h t xs \<and>
    map (block_of (pa_blocks s')) xs = map (block_of (pa_blocks s)) xs"
proof -
  obtain s' where s': "kfree p s = Inr s'" "ok s'" "same_vars s s'" "\<forall>q. q \<noteq> p \<longrightarrow> pa_blocks s' q = pa_blocks s q"
    using kfree_node [OF assms(1,2)] by blast
  have eq: "pa_blocks s' q = pa_blocks s q" if "q \<in> set (h # xs @ [t])" for q
    using s'(4) assms(3) that by metis
  have "block_list (pa_blocks s') h t xs"
    by (rule bounded_list_cong [OF assms(4)]) (simp add: eq)
  moreover have "map (block_of (pa_blocks s')) xs = map (block_of (pa_blocks s)) xs"
    using eq by (simp add: block_of_def)
  ultimately show ?thesis using s' by blast
qed

lemma merge_next_block_spec:
  assumes "ok s" "block_list (pa_blocks s) (pa_head s) (pa_tail s) (A @ a # B)"
    and bound: "\<And>p. p \<in> set (a # B) \<Longrightarrow> fst (block_of (pa_blocks s) p) + snd (block_of (pa_blocks s) p) < 2 ^ 64"
  shows "\<exists>s' xs. merge_next_block kfree a s = Inr s' \<and> ok s' \<and> same_vars s s' \<and>
    block_list (pa_blocks s') (pa_head s) (pa_tail s) xs \<and>
    map (block_of (pa_blocks s')) xs =
      map (block_of (pa_blocks s)) A @ merge_next (block_of (pa_blocks s) a) (map (block_of (pa_blocks s)) B)"
proof -
  let ?H = "pa_blocks s" and ?h = "pa_head s" and ?t = "pa_tail s"
  obtain b where b: "?H a = Some b" "mb_next b = hd (B @ [?t])" using block_list_node [OF assms(2)] by metis
  show ?thesis
  proof (cases B)
    case Nil
    with b assms(1,2) show ?thesis
      by (intro exI [of _ s] exI [of _ "A @ a # B"]) (simp add: merge_next_block_def same_vars_def)
  next
    case (Cons n B')
    have d: "distinct (?h # (A @ a # B) @ [?t])" using assms(2) by (simp add: bounded_list_def)
    then have nt: "n \<noteq> ?t" using Cons by auto
    obtain c where c: "?H n = Some c"
      using block_list_node [of ?H ?h ?t "A @ [a]" n B'] assms(2) Cons by auto
    have "fst (block_of ?H a) + snd (block_of ?H a) < 2 ^ 64" using bound by simp
    then have sum: "unat (mb_paddr b + mb_size b) = unat (mb_paddr b) + unat (mb_size b)"
      using b by (simp add: unat_add_u64)
    show ?thesis
    proof (cases "mb_paddr b + mb_size b = mb_paddr c")
      case False
      then have "fst (block_of ?H a) + snd (block_of ?H a) \<noteq> fst (block_of ?H n)"
        using sum b c by (metis block_of_Some fst_conv snd_conv word_unat_eq_iff)
      then have "merge_next (block_of ?H a) (map (block_of ?H) B) = map (block_of ?H) (a # B)"
        using Cons by (cases "block_of ?H a"; cases "block_of ?H n") simp
      with False b c nt assms(1,2) Cons show ?thesis
        by (intro exI [of _ s] exI [of _ "A @ a # B"]) (simp add: merge_next_block_def same_vars_def)
    next
      case True
      have "unat (mb_paddr c) + unat (mb_size c) < 2 ^ 64" using bound [of n] Cons c by simp
      moreover have "unat (mb_paddr c) = unat (mb_paddr b) + unat (mb_size b)" using sum True by simp
      ultimately have "unat (mb_size b) + unat (mb_size c) < 2 ^ 64" by linarith
      then have sz: "unat (mb_size b + mb_size c) = unat (mb_size b) + unat (mb_size c)" by (rule unat_add_u64)
      obtain H' where H': "and_then (upd ?H a (mb_size_update (\<lambda>k. k + mb_size c))) (\<lambda>H.
          and_then (upd H (mb_next c) (mb_prev_update (\<lambda>_. a))) (\<lambda>H. upd H a (mb_next_update (\<lambda>_. mb_next c)))) = Inr H'"
        "dom H' = dom ?H" "block_list H' ?h ?t (A @ a # B')"
        "block_of H' a = (unat (mb_paddr b), unat (mb_size b + mb_size c))" "\<forall>p. p \<noteq> a \<longrightarrow> block_of H' p = block_of ?H p"
        using merge_next_stores [of ?H ?h ?t A a n B' b c "\<lambda>k. k + mb_size c"] assms(2) Cons b c by auto
      let ?s = "s\<lparr>pa_blocks := H'\<rparr>"
      have "ok ?s" using ok_blocks [OF assms(1) H'(2)] .
      moreover have "n \<in> dom (pa_blocks ?s)" using c H'(2) by auto
      moreover have "n \<notin> set (?h # (A @ a # B') @ [?t])" using d Cons by auto
      ultimately obtain s' where s': "kfree n ?s = Inr s'" "ok s'" "same_vars ?s s'" "block_list (pa_blocks s') ?h ?t (A @ a # B')"
        "map (block_of (pa_blocks s')) (A @ a # B') = map (block_of H') (A @ a # B')"
        using kfree_list [of ?s n ?h "A @ a # B'" ?t] H'(3) by auto
      have "merge_next_block kfree a s = Inr s'"
        using b c nt True Cons H'(1) s'(1) by (auto simp: merge_next_block_def and_then_eq_Inr)
      moreover have "map (block_of H') (A @ a # B') = map (block_of ?H) A @ merge_next (block_of ?H a) (map (block_of ?H) B)"
        using H'(4,5) d Cons b c True sum sz by auto
      moreover have "same_vars s s'" using s'(3) by (simp add: same_vars_def)
      ultimately show ?thesis using s'(2,4,5) by (intro exI [of _ s'] exI [of _ "A @ a # B'"]) simp
    qed
  qed
qed

lemma merge_prev_spec:
  assumes "ok s" "block_list (pa_blocks s) (pa_head s) (pa_tail s) (A @ a # B)"
    and bound: "\<And>p. p \<in> set (a # A) \<Longrightarrow> fst (block_of (pa_blocks s) p) + snd (block_of (pa_blocks s) p) < 2 ^ 64"
  shows "\<exists>c s' A'. merge_prev kfree a s = Inr (c, s') \<and> ok s' \<and> same_vars s s' \<and>
    block_list (pa_blocks s') (pa_head s) (pa_tail s) (A' @ c # B) \<and>
    map (block_of (pa_blocks s')) (A' @ c # B) =
      (let f = block_of (pa_blocks s); p = f (last A) in
       if A \<noteq> [] \<and> fst p + snd p = fst (f a)
       then map f (butlast A) @ (fst p, snd p + snd (f a)) # map f B
       else map f (A @ a # B))"
proof -
  let ?H = "pa_blocks s" and ?h = "pa_head s" and ?t = "pa_tail s"
  obtain b where b: "?H a = Some b" "mb_prev b = last (?h # A)" using block_list_node [OF assms(2)] by metis
  show ?thesis
  proof (cases A rule: rev_cases)
    case Nil
    with b assms(1,2) show ?thesis
      by (intro exI [of _ a] exI [of _ s] exI [of _ A]) (simp add: merge_prev_def same_vars_def Let_def)
  next
    case (snoc A' p)
    have d: "distinct (?h # (A @ a # B) @ [?t])" using assms(2) by (simp add: bounded_list_def)
    then have ph: "p \<noteq> ?h" using snoc by auto
    have bl: "block_list ?H ?h ?t (A' @ p # a # B)" using assms(2) snoc by simp
    obtain c where c: "?H p = Some c" using block_list_node [OF bl] by metis
    have sum: "unat (mb_paddr c + mb_size c) = unat (mb_paddr c) + unat (mb_size c)"
      using bound [of p] snoc c by (simp add: unat_add_u64)
    show ?thesis
    proof (cases "mb_paddr c + mb_size c = mb_paddr b")
      case False
      then have "\<not> (fst (block_of ?H p) + snd (block_of ?H p) = fst (block_of ?H a))"
        using sum b c by (metis block_of_Some fst_conv snd_conv word_unat_eq_iff)
      with False b c ph assms(1,2) snoc show ?thesis
        by (intro exI [of _ a] exI [of _ s] exI [of _ A]) (simp add: merge_prev_def same_vars_def Let_def)
    next
      case True
      have "unat (mb_paddr b) + unat (mb_size b) < 2 ^ 64" using bound [of a] b by simp
      moreover have pb: "unat (mb_paddr b) = unat (mb_paddr c) + unat (mb_size c)" using sum True by simp
      ultimately have "unat (mb_size c) + unat (mb_size b) < 2 ^ 64" by linarith
      then have sz: "unat (mb_size c + mb_size b) = unat (mb_size c) + unat (mb_size b)" by (rule unat_add_u64)
      let ?c = "mb_size_update (\<lambda>n. n + mb_size b) c"
      let ?H1 = "?H(p \<mapsto> ?c)"
      have pa: "p \<noteq> a" using d snoc by auto
      have "block_list ?H1 ?h ?t (A' @ p # a # B)"
        by (rule bounded_list_cong [OF bl]) (use c in auto)
      then have bl1: "block_list ?H1 ?h ?t ((A' @ [p]) @ a # B)" by simp
      then obtain H2 where H2: "block_unlink a ?H1 = Inr H2" "dom H2 = dom ?H1" "block_list H2 ?h ?t ((A' @ [p]) @ B)"
        "\<And>q. block_of H2 q = block_of ?H1 q"
        using block_unlink_list [OF bl1] by blast
      let ?s = "s\<lparr>pa_blocks := H2\<rparr>"
      have "dom H2 = dom ?H" using H2(2) c by auto
      then have "ok ?s" by (rule ok_blocks [OF assms(1)])
      moreover have "a \<in> dom (pa_blocks ?s)" using b \<open>dom H2 = dom ?H\<close> by auto
      moreover have "a \<notin> set (?h # (A' @ p # B) @ [?t])" using d snoc by auto
      ultimately obtain s' where s': "kfree a ?s = Inr s'" "ok s'" "same_vars ?s s'"
        "block_list (pa_blocks s') ?h ?t (A' @ p # B)"
        "map (block_of (pa_blocks s')) (A' @ p # B) = map (block_of H2) (A' @ p # B)"
        using kfree_list [of ?s a ?h "A' @ p # B" ?t] H2(3) by auto
      have "merge_prev kfree a s = Inr (p, s')"
        using b c ph True snoc H2(1) s'(1) by (simp add: merge_prev_def)
      moreover have "same_vars s s'" using s'(3) by (simp add: same_vars_def)
      moreover have "map (block_of H2) (A' @ p # B) = map (block_of ?H) A' @ (unat (mb_paddr c), unat (mb_size c) + unat (mb_size b)) # map (block_of ?H) B"
        using H2(4) d snoc sz by (auto simp: block_of_def)
      ultimately show ?thesis using s'(2,4,5) snoc b c pb
        by (intro exI [of _ p] exI [of _ s'] exI [of _ A']) (simp add: Let_def)
    qed
  qed
qed

lemma kmalloc_list:
  assumes "ok s" "block_list (pa_blocks s) h t xs"
  shows "\<exists>p s'. kmalloc s = Inr (p, s') \<and> ok s' \<and> same_vars s s' \<and> block_list (pa_blocks s') h t xs \<and>
    map (block_of (pa_blocks s')) xs = map (block_of (pa_blocks s)) xs \<and>
    (p \<noteq> NULL \<longrightarrow> p \<in> dom (pa_blocks s') \<and> p \<notin> set (h # xs @ [t]))"
proof -
  obtain p s' where p: "kmalloc s = Inr (p, s')" "ok s'" "same_vars s s'"
    "if p = NULL then pa_blocks s' = pa_blocks s
     else p \<notin> dom (pa_blocks s) \<and> (\<exists>b. pa_blocks s' = (pa_blocks s)(p \<mapsto> b))"
    using kmalloc_node [OF assms(1)] by blast
  have fresh: "p \<notin> set (h # xs @ [t])" if "p \<noteq> NULL" using p(4) that bounded_list_dom [OF assms(2)] by auto
  have eq: "pa_blocks s' q = pa_blocks s q" if "q \<in> set (h # xs @ [t])" for q
    using p(4) fresh that by (metis fun_upd_other)
  have "block_list (pa_blocks s') h t xs"
    by (rule bounded_list_cong [OF assms(2)]) (simp add: eq)
  moreover have "map (block_of (pa_blocks s')) xs = map (block_of (pa_blocks s)) xs"
    using eq by (simp add: block_of_def)
  moreover have "p \<in> dom (pa_blocks s')" if "p \<noteq> NULL" using p(4) that by auto
  ultimately show ?thesis using p fresh by blast
qed

lemma block_shrink_spec:
  assumes ok: "ok s" and bl: "block_list (pa_blocks s) (pa_head s) (pa_tail s) (A @ a # B)"
    and b: "block_of (pa_blocks s) a = (r, m)" and nm: "unat n \<le> m" and rm: "r + m < 2 ^ 64"
  shows "\<exists>s' ys. block_shrink kfree a n s = Inr s' \<and> ok s' \<and> same_vars s s' \<and>
    block_list (pa_blocks s') (pa_head s) (pa_tail s) ys \<and>
    map (block_of (pa_blocks s')) ys = map (block_of (pa_blocks s)) A @
      (if unat n = m then [] else [(r + unat n, m - unat n)]) @ map (block_of (pa_blocks s)) B"
proof -
  let ?H = "pa_blocks s" and ?h = "pa_head s" and ?t = "pa_tail s"
  have d: "distinct (?h # (A @ a # B) @ [?t])" using bl by (simp add: bounded_list_def)
  obtain c where c: "?H a = Some c" using block_list_node [OF bl] by metis
  let ?c = "c\<lparr>mb_paddr := mb_paddr c + n, mb_size := mb_size c - n\<rparr>"
  let ?H1 = "?H(a \<mapsto> ?c)"
  let ?s1 = "s\<lparr>pa_blocks := ?H1\<rparr>"
  have rc: "r = unat (mb_paddr c)" "m = unat (mb_size c)" using b c by simp_all
  have b1: "block_of ?H1 a = (r + unat n, m - unat n)"
    using nm rm rc by (simp add: unat_add_u64 unat_sub word_le_nat_alt)
  have bl1: "block_list ?H1 ?h ?t (A @ a # B)"
    by (rule bounded_list_cong [OF bl]) (use c in auto)
  have same: "map (block_of ?H1) (A @ B) = map (block_of ?H) (A @ B)"
    using d by (auto simp: block_of_def)
  have ok1: "ok ?s1" by (rule ok_blocks [OF ok]) (use c in auto)
  have z: "mb_size ?c = 0 \<longleftrightarrow> unat n = m"
    using nm rc by (auto simp: unat_eq_0 [symmetric] unat_sub word_le_nat_alt)
  show ?thesis
  proof (cases "unat n = m")
    case False
    with z c ok1 bl1 b1 same show ?thesis
      by (intro exI [of _ ?s1] exI [of _ "A @ a # B"]) (simp add: block_shrink_def same_vars_def)
  next
    case True
    obtain H2 where H2: "block_unlink a ?H1 = Inr H2" "dom H2 = dom ?H1" "block_list H2 ?h ?t (A @ B)"
      "\<And>q. block_of H2 q = block_of ?H1 q"
      using block_unlink_list [OF bl1] by blast
    let ?s2 = "s\<lparr>pa_blocks := H2\<rparr>"
    have dom: "dom H2 = dom ?H" using H2(2) c by auto
    then have "ok ?s2" by (rule ok_blocks [OF ok])
    moreover have "a \<in> dom (pa_blocks ?s2)" using c dom by auto
    moreover have "a \<notin> set (?h # (A @ B) @ [?t])" using d by auto
    ultimately obtain s' where s': "kfree a ?s2 = Inr s'" "ok s'" "same_vars ?s2 s'"
      "block_list (pa_blocks s') ?h ?t (A @ B)" "map (block_of (pa_blocks s')) (A @ B) = map (block_of H2) (A @ B)"
      using kfree_list [of ?s2 a ?h "A @ B" ?t] H2(3) by auto
    have "block_shrink kfree a n s = Inr s'"
      using c z True H2(1) s'(1) by (simp add: block_shrink_def)
    moreover have "same_vars s s'" using s'(3) by (simp add: same_vars_def)
    moreover have "map (block_of H2) (A @ B) = map (block_of ?H) (A @ B)" using H2(4) same by simp
    ultimately show ?thesis using s'(2,4,5) True by (intro exI [of _ s'] exI [of _ "A @ B"]) simp
  qed
qed

lemma palloc_alloc_spec:
  assumes ok: "ok s" and rep: "blocks_rep s bs" and dvd: "4096 dvd unat (pg_size pages)"
  shows "case take_fit (unat (pg_size pages)) bs of
      None \<Rightarrow> palloc_alloc kfree pages s = Inr (- 1, pages, s)
    | Some (r, bs') \<Rightarrow> \<exists>s'. palloc_alloc kfree pages s = Inr (0, pages\<lparr>pg_paddr := of_nat r\<rparr>, s') \<and>
        ok s' \<and> blocks_rep s' bs'"
proof -
  let ?H = "pa_blocks s" and ?h = "pa_head s" and ?t = "pa_tail s" and ?n = "unat (pg_size pages)"
  obtain xs where xs: "block_list ?H ?h ?t xs" and bs: "bs = map (block_of ?H) xs" and sep: "separated 0 bs"
    and bound: "\<forall>(a, n)\<in>set bs. a + n < 2 ^ 64" and total: "unat (pa_free_size s) = free_total bs"
    using rep by (auto simp: blocks_rep_def)
  have dv: "\<not> pg_size pages mod PAGE_SIZE \<noteq> 0" using dvd by (simp add: size_mod_PAGE_SIZE)
  obtain hb where hb: "?H ?h = Some hb" using bounded_list_head [OF xs] by blast
  let ?P = "\<lambda>(_ :: ptr) b. mb_size b \<ge> pg_size pages"
  obtain A B where AB: "xs = A @ B" "walk ?H mb_next ?P ?t (mb_next hb) = Some (Inr (hd (B @ [?t])))"
    "\<forall>p\<in>set A. \<not> ?n \<le> snd (block_of ?H p)" "B \<noteq> [] \<longrightarrow> ?n \<le> snd (block_of ?H (hd B))"
    using walk_blocks [OF xs hb, of ?P "\<lambda>b. ?n \<le> snd b"] by (auto simp: word_le_nat_alt)
  show ?thesis
  proof (cases B)
    case Nil
    then have "take_fit ?n bs = None" using AB bs by (intro take_fit_none) auto
    moreover have "palloc_alloc kfree pages s = Inr (- 1, pages, s)"
      using dv hb AB Nil by (simp add: palloc_alloc_def)
    ultimately show ?thesis by simp
  next
    case (Cons a B')
    have at: "a \<noteq> ?t" and xs': "xs = A @ a # B'" using xs AB Cons by (auto simp: bounded_list_def)
    obtain b where b: "?H a = Some b" using block_list_node [OF xs [unfolded xs']] by metis
    let ?r = "unat (mb_paddr b)" and ?m = "unat (mb_size b)"
    have ab: "block_of ?H a = (?r, ?m)" using b by simp
    have nm: "?n \<le> ?m" using AB(4) Cons ab by simp
    let ?bs' = "map (block_of ?H) A @ (if ?n = ?m then [] else [(?r + ?n, ?m - ?n)]) @ map (block_of ?H) B'"
    have tf: "take_fit ?n bs = Some (?r, ?bs')"
      unfolding bs xs' using AB(3) nm ab by (simp add: take_fit_append)
    have spec: "separated 0 ?bs'" "free_total bs = ?n + free_total ?bs'"
      using take_fit_Some [OF sep tf] by auto
    have "(?r, ?m) \<in> set bs" unfolding bs xs' using ab by auto
    then have rm: "?r + ?m < 2 ^ 64" using bound by auto
    then have bound': "\<forall>(a, n)\<in>set ?bs'. a + n < 2 ^ 64"
      using bound nm unfolding bs xs' by auto
    have small: "\<not> pg_size pages > pa_free_size s"
      using spec(2) total by (simp add: word_less_nat_alt)
    obtain s' ys where s': "block_shrink kfree a (pg_size pages) s = Inr s'" "ok s'" "same_vars s s'"
      "block_list (pa_blocks s') ?h ?t ys" "map (block_of (pa_blocks s')) ys = ?bs'"
      using block_shrink_spec [OF ok xs [unfolded xs'] ab nm rm] by blast
    have fs: "unat (pa_free_size s - pg_size pages) = free_total ?bs'"
      using small spec(2) total by (simp add: unat_sub word_le_nat_alt not_less)
    let ?s2 = "s'\<lparr>pa_free_size := pa_free_size s' - pg_size pages\<rparr>"
    have "palloc_alloc kfree pages s = Inr (0, pages\<lparr>pg_paddr := of_nat ?r\<rparr>, ?s2)"
      using dv small hb AB(2) Cons at b s'(1) by (simp add: palloc_alloc_def)
    moreover have "blocks_rep ?s2 ?bs'"
      using s'(3-5) spec(1) bound' fs unfolding blocks_rep_def same_vars_def by (auto intro!: exI [of _ ys])
    ultimately show ?thesis using tf ok_free_size [OF s'(2)] by auto
  qed
qed

text \<open>The two merges after the insertion implement \<open>give_back\<close>.\<close>

lemma merges_spec:
  assumes ok: "ok s" and bl: "block_list (pa_blocks s) (pa_head s) (pa_tail s) (A @ p # B)"
    and blk: "block_of (pa_blocks s) p = (a, n)"
    and sep: "separated 0 (map (block_of (pa_blocks s)) (A @ B))"
    and bound: "\<And>q. q \<in> set (A @ p # B) \<Longrightarrow> fst (block_of (pa_blocks s) q) + snd (block_of (pa_blocks s) q) < 2 ^ 64"
    and low: "\<forall>q\<in>set A. fst (block_of (pa_blocks s) q) < a" and high: "B \<noteq> [] \<Longrightarrow> a \<le> fst (block_of (pa_blocks s) (hd B))"
  shows "\<exists>s' ys. and_then (merge_prev kfree p s) (\<lambda>(p, s). merge_next_block kfree p s) = Inr s' \<and> ok s' \<and> same_vars s s' \<and>
    block_list (pa_blocks s') (pa_head s) (pa_tail s) ys \<and>
    map (block_of (pa_blocks s')) ys = give_back (a, n) (map (block_of (pa_blocks s)) (A @ B))"
proof -
  let ?f = "block_of (pa_blocks s)" and ?h = "pa_head s" and ?t = "pa_tail s"
  let ?q = "?f (last A)"
  let ?joins = "A \<noteq> [] \<and> fst ?q + snd ?q = a"
  have "\<And>q. q \<in> set (p # A) \<Longrightarrow> fst (?f q) + snd (?f q) < 2 ^ 64" using bound by auto
  from merge_prev_spec [OF ok bl this] blk obtain c s1 A' where
    m1: "merge_prev kfree p s = Inr (c, s1)" "ok s1" "same_vars s s1" "block_list (pa_blocks s1) ?h ?t (A' @ c # B)"
    "map (block_of (pa_blocks s1)) (A' @ c # B) =
      (if ?joins then map ?f (butlast A) @ (fst ?q, snd ?q + n) # map ?f B else map ?f A @ (a, n) # map ?f B)"
    by (auto simp: Let_def)
  let ?g = "block_of (pa_blocks s1)"
  let ?As = "if ?joins then map ?f (butlast A) else map ?f A" and ?c = "if ?joins then (fst ?q, snd ?q + n) else (a, n)"
  have "map ?g A' @ ?g c # map ?g B = ?As @ ?c # map ?f B" using m1(5) by simp
  then have parts: "map ?g A' = ?As" "?g c = ?c" "map ?g B = map ?f B"
    by (auto simp: append_eq_append_conv)
  have v: "pa_head s1 = ?h" "pa_tail s1 = ?t" using m1(3) by (simp_all add: same_vars_def)
  have "fst (?g x) + snd (?g x) < 2 ^ 64" if "x \<in> set (c # B)" for x
  proof (cases "x = c")
    case True
    have "a + n < 2 ^ 64" using bound [of p] blk by simp
    then show ?thesis using True parts(2) by (auto split: if_splits)
  next
    case False
    then have "x \<in> set B" using that by simp
    then have "?g x = ?f x" using parts(3) by simp
    then show ?thesis using bound [of x] \<open>x \<in> set B\<close> by simp
  qed
  from merge_next_block_spec [of s1 A' c B, unfolded v, OF m1(2,4) this] obtain s2 ys where
    m2: "merge_next_block kfree c s1 = Inr s2" "ok s2" "same_vars s1 s2" "block_list (pa_blocks s2) ?h ?t ys"
    "map (block_of (pa_blocks s2)) ys = map ?g A' @ merge_next (?g c) (map ?g B)"
    by blast
  have "map ?g A' @ merge_next (?g c) (map ?g B) = give_back (a, n) (map ?f A @ map ?f B)"
    unfolding parts using low high sep
    by (subst give_back_append [where lo = 0]) (auto simp: last_map map_butlast hd_map)
  with m1(1,3) m2 show ?thesis by (intro exI [of _ s2] exI [of _ ys]) (simp add: same_vars_def)
qed

lemma palloc_free_spec:
  assumes ok: "ok s" and rep: "blocks_rep s bs" and dvd: "4096 dvd unat (pg_size pages)"
    and n: "0 < unat (pg_size pages)" and top: "unat (pg_paddr pages) + unat (pg_size pages) < 2 ^ 64"
    and disj: "{unat (pg_paddr pages)..<unat (pg_paddr pages) + unat (pg_size pages)} \<inter> free_mem bs = {}"
  shows "(\<exists>s0. kmalloc s = Inr (NULL, s0) \<and> palloc_free kmalloc kfree pages s = Inl Panic) \<or>
    (\<exists>s'. palloc_free kmalloc kfree pages s = Inr s' \<and> ok s' \<and>
      blocks_rep s' (give_back (unat (pg_paddr pages), unat (pg_size pages)) bs))"
proof -
  let ?h = "pa_head s" and ?t = "pa_tail s" and ?a = "unat (pg_paddr pages)" and ?n = "unat (pg_size pages)"
  obtain xs where xs: "block_list (pa_blocks s) ?h ?t xs" and bs: "bs = map (block_of (pa_blocks s)) xs" and sep: "separated 0 bs"
    and bound: "\<forall>(a, n)\<in>set bs. a + n < 2 ^ 64" and total: "unat (pa_free_size s) = free_total bs"
    using rep by (auto simp: blocks_rep_def)
  have dv: "\<not> pg_size pages mod PAGE_SIZE \<noteq> 0" using dvd by (simp add: size_mod_PAGE_SIZE)
  obtain p s1 where p: "kmalloc s = Inr (p, s1)" "ok s1" "same_vars s s1" "block_list (pa_blocks s1) ?h ?t xs"
    "map (block_of (pa_blocks s1)) xs = bs" "p \<noteq> NULL \<Longrightarrow> p \<in> dom (pa_blocks s1) \<and> p \<notin> set (?h # xs @ [?t])"
    using kmalloc_list [OF ok xs] bs by auto
  have v1: "pa_head s1 = ?h" "pa_tail s1 = ?t" "pa_free_size s1 = pa_free_size s" using p(3) by (simp_all add: same_vars_def)
  show ?thesis
  proof (cases "p = NULL")
    case True
    with p(1) dv show ?thesis by (simp add: palloc_free_def)
  next
    case False
    obtain b where b: "pa_blocks s1 p = Some b" using p(6) False by blast
    define H1 where "H1 = (pa_blocks s1)(p \<mapsto> b\<lparr>mb_paddr := pg_paddr pages, mb_size := pg_size pages\<rparr>)"
    have bl1: "block_list H1 ?h ?t xs"
      by (rule bounded_list_cong [OF p(4)]) (use p(6) False in \<open>auto simp: H1_def\<close>)
    have bs1: "map (block_of H1) xs = bs" using p(5,6) False by (auto simp: block_of_def H1_def)
    obtain hb where hb: "H1 ?h = Some hb" using bounded_list_head [OF bl1] by blast
    let ?P = "\<lambda>(_ :: ptr) b. mb_paddr b \<ge> pg_paddr pages"
    obtain A B where AB: "xs = A @ B" "walk H1 mb_next ?P ?t (mb_next hb) = Some (Inr (hd (B @ [?t])))"
      "\<forall>p\<in>set A. \<not> ?a \<le> fst (block_of H1 p)" "B \<noteq> [] \<longrightarrow> ?a \<le> fst (block_of H1 (hd B))"
      using walk_blocks [OF bl1 hb, of ?P "\<lambda>b. ?a \<le> fst b"] by (simp only: word_le_nat_alt block_of_Some fst_conv) blast
    have "p \<in> dom H1" "p \<notin> set (?h # A @ B @ [?t])" using p(6) False AB(1) by (auto simp: H1_def)
    then obtain H2 where H2: "block_insert p (hd (B @ [?t])) H1 = Inr H2" "dom H2 = dom H1"
      "block_list H2 ?h ?t (A @ p # B)" "\<And>q. block_of H2 q = block_of H1 q"
      using block_insert_list [of H1 ?h ?t A B p] bl1 AB(1) by blast
    let ?s2 = "s1\<lparr>pa_blocks := H2\<rparr>"
    have "ok ?s2" by (rule ok_blocks [OF p(2)]) (use H2(2) b in \<open>auto simp: H1_def\<close>)
    have same: "block_of H2 = block_of H1" using H2(4) by (simp add: fun_eq_iff)
    have bs2: "map (block_of H2) (A @ B) = bs" using bs1 AB(1) by (simp add: same)
    have blkp: "block_of H2 p = (?a, ?n)" using H2(4) by (simp add: H1_def)
    have "\<exists>s' ys. and_then (merge_prev kfree p ?s2) (\<lambda>(p, s). merge_next_block kfree p s) = Inr s' \<and> ok s' \<and> same_vars ?s2 s' \<and>
      block_list (pa_blocks s') (pa_head ?s2) (pa_tail ?s2) ys \<and>
      map (block_of (pa_blocks s')) ys = give_back (?a, ?n) (map (block_of (pa_blocks ?s2)) (A @ B))"
    proof (rule merges_spec [OF \<open>ok ?s2\<close>])
      fix q assume "q \<in> set (A @ p # B)"
      then have "q = p \<or> block_of H2 q \<in> set bs" using bs2 by auto
      then show "fst (block_of (pa_blocks ?s2) q) + snd (block_of (pa_blocks ?s2) q) < 2 ^ 64"
        using bound blkp top by auto
    qed (use H2(3) same blkp bs2 sep AB(3,4) v1 in \<open>auto simp: not_le\<close>)
    then obtain s3 ys where s3: "and_then (merge_prev kfree p ?s2) (\<lambda>(p, s). merge_next_block kfree p s) = Inr s3"
      "ok s3" "same_vars ?s2 s3" "block_list (pa_blocks s3) ?h ?t ys"
      "map (block_of (pa_blocks s3)) ys = give_back (?a, ?n) bs"
      using bs2 v1 by auto
    let ?bs = "give_back (?a, ?n) bs" and ?s4 = "s3\<lparr>pa_free_size := pa_free_size s3 + pg_size pages\<rparr>"
    have gb: "separated 0 ?bs" "free_mem ?bs = {?a..<?a + ?n} \<union> free_mem bs" "free_total ?bs = ?n + free_total bs"
      using give_back_spec [OF sep n _ disj] by auto
    have "\<forall>x\<in>free_mem bs. Suc x < 2 ^ 64" using bound blocks_below [OF sep] by blast
    then have below: "\<forall>x\<in>free_mem ?bs. Suc x < 2 ^ 64" using gb(2) top by auto
    have "free_total ?bs < 2 ^ 64" by (rule total_below [OF gb(1) below]) simp
    then have "unat (pa_free_size s + pg_size pages) = free_total ?bs"
      using gb(3) total by (simp add: unat_add_u64)
    then have "blocks_rep ?s4 ?bs"
      using s3(3-5) gb(1) below blocks_below [OF gb(1)] v1 unfolding blocks_rep_def same_vars_def
      by (auto intro!: exI [of _ ys])
    moreover have "palloc_free kmalloc kfree pages s = Inr ?s4"
      using dv p(1) False b hb [unfolded H1_def] AB(2) [unfolded H1_def] H2(1) [unfolded H1_def] s3(1) v1
      by (auto simp: palloc_free_def and_then_eq_Inr)
    ultimately show ?thesis using ok_free_size [OF s3(2)] by blast
  qed
qed

end

section \<open>Moving the nodes\<close>

text \<open>The stores of one round of \<^verbatim>\<open>page_allocator_move\<close> put the new node in the place of the old one.\<close>

lemma block_replace_list:
  assumes "block_list H h t (A @ a # B)" "H a = Some b" "H n = Some c" "n \<notin> set (h # (A @ a # B) @ [t])"
  shows "\<exists>H'. and_then (upd H n (\<lambda>c. c\<lparr>mb_paddr := mb_paddr b, mb_size := mb_size b, mb_prev := mb_prev b, mb_next := mb_next b\<rparr>)) (\<lambda>H.
       and_then (upd H (mb_prev b) (mb_next_update (\<lambda>_. n))) (\<lambda>H.
       and_then (ld H a) (\<lambda>b. upd H (mb_next b) (mb_prev_update (\<lambda>_. n))))) = Inr H' \<and>
    dom H' = dom H \<and> block_list H' h t (A @ n # B) \<and>
    block_of H' n = block_of H a \<and> (\<forall>q. q \<noteq> n \<longrightarrow> block_of H' q = block_of H q)"
proof -
  obtain A' u where L: "h # A = A' @ [u]" by (metis append_butlast_last_id list.discI)
  obtain v B' where R: "B @ [t] = v # B'" by (cases B) auto
  have e: "h # (A @ a # B) @ [t] = A' @ u # a # v # B'" "h # (A @ n # B) @ [t] = A' @ u # n # v # B'"
    using L R by (metis append_Cons append_assoc append_Nil)+
  have ch: "chain (field H mb_next) (field H mb_prev) (A' @ u # a # v # B')" and
    d: "distinct (A' @ u # a # v # B')"
    using assms(1) e(1) unfolding bounded_list_def by metis+
  have n: "n \<notin> set (A' @ u # a # v # B')" using assms(4) e(1) by metis
  obtain b' where "H a = Some b'" "mb_prev b' = last (h # A)" "mb_next b' = hd (B @ [t])"
    by (rule block_list_node [OF assms(1)])
  then have b: "mb_prev b = u" "mb_next b = v" using L R assms(2) by auto
  have l: "links (field H mb_next) (field H mb_prev) (A' @ u # a # v # B')"
    "links (field H mb_next) (field H mb_prev) ((A' @ [u]) @ a # v # B')"
    using ch by (simp_all add: chain_def)
  from links_member [OF l(1)] obtain bu where bu: "H u = Some bu" by metis
  from links_member [OF l(2)] obtain bv where bv: "H v = Some bv" by metis
  have ne: "a \<noteq> u" "a \<noteq> v" "u \<noteq> v" "n \<noteq> a" "n \<noteq> u" "n \<noteq> v" using d n by auto
  let ?c = "c\<lparr>mb_paddr := mb_paddr b, mb_size := mb_size b, mb_prev := u, mb_next := v\<rparr>"
  let ?H = "H(n \<mapsto> ?c, u \<mapsto> bu\<lparr>mb_next := n\<rparr>, v \<mapsto> bv\<lparr>mb_prev := n\<rparr>)"
  have "and_then (upd H n (\<lambda>c. c\<lparr>mb_paddr := mb_paddr b, mb_size := mb_size b, mb_prev := mb_prev b, mb_next := mb_next b\<rparr>)) (\<lambda>H.
       and_then (upd H (mb_prev b) (mb_next_update (\<lambda>_. n))) (\<lambda>H.
       and_then (ld H a) (\<lambda>b. upd H (mb_next b) (mb_prev_update (\<lambda>_. n))))) = Inr ?H"
    using assms(2,3) b bu bv ne by simp
  moreover have "block_list ?H h t (A @ n # B)"
  proof -
    have "field ?H mb_next = (field H mb_next)(u := Some v, u := Some n, n := Some v)"
      "field ?H mb_prev = (field H mb_prev)(v := Some u, v := Some n, n := Some u)"
      using ne bu bv assms(3) by (auto simp: fun_eq_iff)
    moreover have "n \<notin> set (A' @ u # v # B')" using n by auto
    ultimately show ?thesis
      using chain_insert [OF chain_delete [OF ch]] d n unfolding bounded_list_def e(2) by auto
  qed
  moreover have "block_of ?H n = block_of H a" using assms(2) ne by (simp add: block_of_def)
  moreover have "\<forall>q. q \<noteq> n \<longrightarrow> block_of ?H q = block_of H q" using bu bv by (simp add: block_of_def)
  moreover have "dom ?H = dom H" using bu bv assms(3) by auto
  ultimately show ?thesis by blast
qed

context node_allocator
begin

lemma move_step_spec:
  assumes ok: "ok s" and bl: "block_list (pa_blocks s) (pa_head s) (pa_tail s) (A @ a # B)"
  shows "(move_step kmalloc kfree a s = Inl Panic) \<or>
    (\<exists>n s'. move_step kmalloc kfree a s = Inr (n, s') \<and> ok s' \<and> same_vars s s' \<and>
      block_list (pa_blocks s') (pa_head s) (pa_tail s) (A @ n # B) \<and>
      map (block_of (pa_blocks s')) (A @ n # B) = map (block_of (pa_blocks s)) (A @ a # B))"
proof -
  let ?h = "pa_head s" and ?t = "pa_tail s"
  obtain n s1 where n: "kmalloc s = Inr (n, s1)" "ok s1" "same_vars s s1" "block_list (pa_blocks s1) ?h ?t (A @ a # B)"
    "map (block_of (pa_blocks s1)) (A @ a # B) = map (block_of (pa_blocks s)) (A @ a # B)"
    "n \<noteq> NULL \<Longrightarrow> n \<in> dom (pa_blocks s1) \<and> n \<notin> set (?h # (A @ a # B) @ [?t])"
    using kmalloc_list [OF ok bl] by auto
  show ?thesis
  proof (cases "n = NULL")
    case True
    with n(1) show ?thesis by (simp add: move_step_def)
  next
    case False
    obtain c where c: "pa_blocks s1 n = Some c" using n(6) False by blast
    obtain b where b: "pa_blocks s1 a = Some b" using block_list_node [OF n(4)] by metis
    obtain H2 where H2: "and_then (upd (pa_blocks s1) n (\<lambda>c. c\<lparr>mb_paddr := mb_paddr b, mb_size := mb_size b, mb_prev := mb_prev b, mb_next := mb_next b\<rparr>)) (\<lambda>H.
       and_then (upd H (mb_prev b) (mb_next_update (\<lambda>_. n))) (\<lambda>H.
       and_then (ld H a) (\<lambda>b. upd H (mb_next b) (mb_prev_update (\<lambda>_. n))))) = Inr H2"
      "dom H2 = dom (pa_blocks s1)" "block_list H2 ?h ?t (A @ n # B)"
      "block_of H2 n = block_of (pa_blocks s1) a" "\<forall>q. q \<noteq> n \<longrightarrow> block_of H2 q = block_of (pa_blocks s1) q"
      using block_replace_list [OF n(4) b c] n(6) False by blast
    let ?s2 = "s1\<lparr>pa_blocks := H2\<rparr>"
    have d: "distinct (?h # (A @ a # B) @ [?t])" using bl by (simp add: bounded_list_def)
    have "ok ?s2" by (rule ok_blocks [OF n(2) H2(2)])
    moreover have "a \<in> dom (pa_blocks ?s2)" using b H2(2) by auto
    moreover have "a \<notin> set (?h # (A @ n # B) @ [?t])" using d n(6) False by auto
    ultimately obtain s3 where s3: "kfree a ?s2 = Inr s3" "ok s3" "same_vars ?s2 s3" "block_list (pa_blocks s3) ?h ?t (A @ n # B)"
      "map (block_of (pa_blocks s3)) (A @ n # B) = map (block_of H2) (A @ n # B)"
      using kfree_list [of ?s2 a ?h "A @ n # B" ?t] H2(3) by auto
    have "map (block_of H2) (A @ n # B) = map (block_of (pa_blocks s1)) (A @ a # B)"
      using H2(4,5) n(6) False by auto
    moreover have "move_step kmalloc kfree a s = Inr (n, s3)"
      using n(1) False b H2(1) s3(1) by (auto simp: move_step_def and_then_eq_Inr)
    moreover have "same_vars s s3" using s3(3) n(3) by (simp add: same_vars_def)
    ultimately show ?thesis using s3(2,4,5) n(5) by metis
  qed
qed

lemma move_loop_spec:
  assumes "ok s" "block_list (pa_blocks s) (pa_head s) (pa_tail s) (A @ B)"
  shows "move_loop kmalloc kfree (hd (B @ [pa_tail s])) s = Some (Inl Panic) \<or>
    (\<exists>s' ys. move_loop kmalloc kfree (hd (B @ [pa_tail s])) s = Some (Inr s') \<and> ok s' \<and> same_vars s s' \<and>
      block_list (pa_blocks s') (pa_head s) (pa_tail s) ys \<and>
      map (block_of (pa_blocks s')) ys = map (block_of (pa_blocks s)) (A @ B))"
  using assms
proof (induction B arbitrary: A s)
  case Nil
  then show ?case
    by (intro disjI2 exI [of _ s] exI [of _ A]) (simp add: move_loop.simps [of kmalloc kfree "pa_tail s"] same_vars_def)
next
  case (Cons a B)
  have at: "a \<noteq> pa_tail s" using Cons.prems(2) by (auto simp: bounded_list_def)
  consider (panic) "move_step kmalloc kfree a s = Inl Panic"
    | (step) n s1 where "move_step kmalloc kfree a s = Inr (n, s1)" "ok s1" "same_vars s s1"
      "block_list (pa_blocks s1) (pa_head s) (pa_tail s) (A @ n # B)"
      "map (block_of (pa_blocks s1)) (A @ n # B) = map (block_of (pa_blocks s)) (A @ a # B)"
    using move_step_spec [OF Cons.prems] by blast
  then show ?case
  proof cases
    case panic
    with at show ?thesis by (simp add: move_loop.simps [of kmalloc kfree a])
  next
    case step
    have v: "pa_head s1 = pa_head s" "pa_tail s1 = pa_tail s" using step(3) by (simp_all add: same_vars_def)
    obtain b where b: "pa_blocks s1 n = Some b" "mb_next b = hd (B @ [pa_tail s])"
      using block_list_node [OF step(4)] by metis
    have eq: "move_loop kmalloc kfree a s = move_loop kmalloc kfree (hd (B @ [pa_tail s1])) s1"
      using at step(1) b v by (simp add: move_loop.simps [of kmalloc kfree a])
    have "block_list (pa_blocks s1) (pa_head s1) (pa_tail s1) ((A @ [n]) @ B)" using step(4) v by simp
    from Cons.IH [OF step(2) this] show ?thesis
    proof (elim disjE exE conjE)
      fix s' ys assume s': "move_loop kmalloc kfree (hd (B @ [pa_tail s1])) s1 = Some (Inr s')" "ok s'" "same_vars s1 s'"
        "block_list (pa_blocks s') (pa_head s1) (pa_tail s1) ys"
        "map (block_of (pa_blocks s')) ys = map (block_of (pa_blocks s1)) ((A @ [n]) @ B)"
      have "map (block_of (pa_blocks s')) ys = map (block_of (pa_blocks s)) (A @ a # B)"
        using s'(5) step(5) by (metis append.assoc append_Cons append_Nil)
      moreover have "same_vars s s'" using s'(3) step(3) by (simp add: same_vars_def)
      ultimately show ?thesis
        unfolding append_Cons list.sel eq using s'(1,2,4) v by metis
    qed (use eq in simp)
  qed
qed

lemma page_allocator_move_spec:
  assumes ok: "ok s" and rep: "blocks_rep s bs"
  shows "page_allocator_move kmalloc kfree s = Inl Panic \<or>
    (\<exists>s'. page_allocator_move kmalloc kfree s = Inr (0, s') \<and> ok s' \<and> blocks_rep s' bs)"
proof -
  obtain xs where xs: "block_list (pa_blocks s) (pa_head s) (pa_tail s) ([] @ xs)" "bs = map (block_of (pa_blocks s)) xs"
    using rep by (auto simp: blocks_rep_def)
  then obtain hb where "pa_blocks s (pa_head s) = Some hb" "mb_next hb = hd (xs @ [pa_tail s])"
    using bounded_list_head by fastforce
  note start = this
  from move_loop_spec [OF ok xs(1)] show ?thesis
  proof (elim disjE exE conjE)
    fix s' ys assume s': "move_loop kmalloc kfree (hd (xs @ [pa_tail s])) s = Some (Inr s')" "ok s'" "same_vars s s'"
      "block_list (pa_blocks s') (pa_head s) (pa_tail s) ys"
      "map (block_of (pa_blocks s')) ys = map (block_of (pa_blocks s)) ([] @ xs)"
    have "\<exists>ys. block_list (pa_blocks s') (pa_head s') (pa_tail s') ys \<and> bs = map (block_of (pa_blocks s')) ys"
      using s'(3-5) xs(2) by (intro exI [of _ ys]) (simp add: same_vars_def)
    then have "blocks_rep s' bs" using rep s'(3) unfolding blocks_rep_def same_vars_def by (intro conjI) simp_all
    with s' start show ?thesis by (simp add: page_allocator_move_def)
  qed (use start in \<open>simp add: page_allocator_move_def\<close>)
qed

end

lemma page_allocator_init_spec:
  assumes "h \<in> dom (pa_blocks s)" "t \<in> dom (pa_blocks s)" "h \<noteq> t"
  shows "\<exists>s'. page_allocator_init h t s = Inr s' \<and> blocks_rep s' [] \<and> dom (pa_blocks s') = dom (pa_blocks s) \<and>
    palloc.more s' = palloc.more s"
proof -
  obtain b c where "pa_blocks s h = Some b" "pa_blocks s t = Some c" using assms by blast
  with assms(3) show ?thesis
    by (auto simp: page_allocator_init_def blocks_rep_def bounded_list_def chain_def Let_def)
qed
end
