(* ===== verification/Pmm.thy ===== *)
theory Pmm
  imports Palloc
begin

text \<open>
  The page allocation front end \<^verbatim>\<open>kern/mm/pmm/pmm.c\<close> and \<^verbatim>\<open>include/aim/pmm.h\<close>. As for objects, the
  calls go through a table of functions; \<^verbatim>\<open>memset\<close> of one page is an argument.
\<close>

record 's page_allocator =
  pal_alloc :: "pages \<Rightarrow> 's \<Rightarrow> (int \<times> pages \<times> 's) res"
  pal_free :: "pages \<Rightarrow> 's \<Rightarrow> 's res"
  pal_get_free :: "'s \<Rightarrow> u64"

definition dummy_page_allocator :: "'s page_allocator" where
  "dummy_page_allocator =
     \<lparr>pal_alloc = (\<lambda>pages s. Inr (- 1, pages, s)), pal_free = (\<lambda>pages s. Inr s), pal_get_free = (\<lambda>s. 0)\<rparr>"

definition set_page_allocator :: "'s page_allocator \<Rightarrow> 's page_allocator \<Rightarrow> 's page_allocator" where
  "set_page_allocator allocator cur = allocator"

text \<open>
  \<^verbatim>\<open>for (; size > 0; size -= PAGE_SIZE, paddr += PAGE_SIZE)\<close> on unsigned 64-bit numbers: a size
  that is not a multiple of the page size wraps around and the loop goes on.
\<close>

partial_function (option) pmemset ::
  "(ptr \<Rightarrow> u8 \<Rightarrow> u32 \<Rightarrow> 's \<Rightarrow> 's res) \<Rightarrow> u64 \<Rightarrow> u8 \<Rightarrow> u64 \<Rightarrow> 's \<Rightarrow> 's res option" where
  "pmemset memset paddr b sz s =
     (if sz = 0 then Some (Inr s)
      else case memset (pa2kva paddr) b PAGE_SIZE s of
        Inl e \<Rightarrow> Some (Inl e)
      | Inr s \<Rightarrow> pmemset memset (paddr + PAGE_SIZE) b (sz - PAGE_SIZE) s)"

text \<open>\<open>None\<close> is the \<^verbatim>\<open>NULL\<close> argument, which no caller passes; the descriptor is updated in place.\<close>

definition alloc_pages ::
  "'s page_allocator \<Rightarrow> (ptr \<Rightarrow> u8 \<Rightarrow> u32 \<Rightarrow> 's \<Rightarrow> 's res) \<Rightarrow> pages option \<Rightarrow> 's \<Rightarrow> (int \<times> pages option \<times> 's) res" where
  "alloc_pages tbl memset pages s =
     (case pages of None \<Rightarrow> Inr (- 1, None, s)
      | Some pages \<Rightarrow>
          and_then (pal_alloc tbl pages s) (\<lambda>(result, pages, s).
          and_then (if pg_flags pages AND GFP_ZERO \<noteq> 0
                    then returns (pmemset memset (pg_paddr pages) 0 (pg_size pages) s) else Inr s) (\<lambda>s.
          Inr (result, Some pages, s))))"

definition free_pages ::
  "'s page_allocator \<Rightarrow> (ptr \<Rightarrow> u8 \<Rightarrow> u32 \<Rightarrow> 's \<Rightarrow> 's res) \<Rightarrow> pages \<Rightarrow> 's \<Rightarrow> 's res" where
  "free_pages tbl memset pages s =
     and_then (if pg_flags pages AND GFP_UNSAFE = 0
               then returns (pmemset memset (pg_paddr pages) JUNKBYTE (pg_size pages) s) else Inr s) (\<lambda>s.
     pal_free tbl pages s)"

definition alloc_aligned_pages ::
  "'s page_allocator \<Rightarrow> (ptr \<Rightarrow> u8 \<Rightarrow> u32 \<Rightarrow> 's \<Rightarrow> 's res) \<Rightarrow> pages \<Rightarrow> u64 \<Rightarrow> 's \<Rightarrow> (int \<times> pages \<times> 's) res" where
  "alloc_aligned_pages tbl memset pages align s =
     and_then (alloc_pages tbl memset (Some (pages\<lparr>pg_size := pg_size pages + (align - PAGE_SIZE)\<rparr>)) s) (\<lambda>(ret, buf, s).
     if ret < 0 then Inr (ret, pages, s)
     else let buf = the buf; pages = pages\<lparr>pg_paddr := ALIGN_ABOVE (pg_paddr buf) align\<rparr> in
       and_then (if pg_paddr buf < pg_paddr pages
                 then free_pages tbl memset
                        \<lparr>pg_paddr = pg_paddr buf, pg_size = pg_paddr pages - pg_paddr buf, pg_flags = pg_flags buf\<rparr> s
                 else Inr s) (\<lambda>s.
       and_then (if pg_paddr buf + pg_size buf > pg_paddr pages + pg_size pages
                 then free_pages tbl memset
                        \<lparr>pg_paddr = pg_paddr pages + pg_size pages,
                         pg_size = pg_paddr buf + pg_size buf - pg_paddr pages - pg_size pages,
                         pg_flags = pg_flags buf\<rparr> s
                 else Inr s) (\<lambda>s.
       Inr (0, pages, s))))"

definition get_free_memory :: "'s page_allocator \<Rightarrow> 's \<Rightarrow> u64" where
  "get_free_memory tbl s = pal_get_free tbl s"

text \<open>One page; the result -1 as \<^verbatim>\<open>addr_t\<close> is a failure. \<open>p0\<close> is the uninitialised address field.\<close>

definition pgalloc :: "'s page_allocator \<Rightarrow> (ptr \<Rightarrow> u8 \<Rightarrow> u32 \<Rightarrow> 's \<Rightarrow> 's res) \<Rightarrow> u64 \<Rightarrow> 's \<Rightarrow> (u64 \<times> 's) res" where
  "pgalloc tbl memset p0 s =
     and_then (alloc_pages tbl memset (Some \<lparr>pg_paddr = p0, pg_size = PAGE_SIZE, pg_flags = 0\<rparr>) s) (\<lambda>(result, p, s).
     if result \<noteq> 0 then Inr (- 1, s) else Inr (ucast (premap_addr (pg_paddr (the p))), s))"

definition pgfree :: "'s page_allocator \<Rightarrow> (ptr \<Rightarrow> u8 \<Rightarrow> u32 \<Rightarrow> 's \<Rightarrow> 's res) \<Rightarrow> u64 \<Rightarrow> 's \<Rightarrow> 's res" where
  "pgfree tbl memset paddr s =
     free_pages tbl memset \<lparr>pg_paddr = ucast (premap_addr paddr), pg_size = PAGE_SIZE, pg_flags = 0\<rparr> s"

section \<open>Clearing pages\<close>

lemma pmemset_step:
  assumes "\<And>p b n s. memset p b n s = Inr (f p b n s)"
  shows "pmemset memset a b sz s =
    (if sz = 0 then Some (Inr s) else pmemset memset (a + PAGE_SIZE) b (sz - PAGE_SIZE) (f (pa2kva a) b PAGE_SIZE s))"
  by (subst pmemset.simps) (simp add: assms)

lemma pmemset_multiple:
  assumes "\<And>p b n s. memset p b n s = Inr (f p b n s)" "unat sz = 4096 * k"
  shows "pmemset memset a b sz s =
    Some (Inr (fold (\<lambda>i. f (pa2kva (a + of_nat (4096 * i))) b PAGE_SIZE) [0..<k] s))"
  using assms(2)
proof (induction k arbitrary: a sz s)
  case 0
  then show ?case by (simp add: pmemset_step [of memset f, OF assms(1)] unat_eq_0 [symmetric])
next
  case (Suc k)
  then have nz: "sz \<noteq> 0" and le: "PAGE_SIZE \<le> sz" by (auto simp: word_le_nat_alt unat_PAGE_SIZE)
  then have "unat (sz - PAGE_SIZE) = 4096 * k" using Suc.prems by (simp add: unat_sub unat_PAGE_SIZE)
  note IH = Suc.IH [OF this, of "a + PAGE_SIZE" "f (pa2kva a) b PAGE_SIZE s"]
  have "[0..<Suc k] = 0 # map Suc [0..<k]" by (simp add: upt_conv_Cons map_Suc_upt del: upt_Suc)
  then show ?case unfolding pmemset_step [of memset f a b sz s, OF assms(1)] using nz IH
    by (simp add: fold_map comp_def PAGE_SIZE_def add.assoc add.commute)
qed

lemma page_step: "4096 dvd unat (sz - PAGE_SIZE) \<Longrightarrow> 4096 dvd unat sz" for sz :: u64
proof -
  assume d: "4096 dvd unat (sz - PAGE_SIZE)"
  have "unat sz = (unat (sz - PAGE_SIZE) + 4096) mod 2 ^ 64"
    using unat_word_ariths(1) [of "sz - PAGE_SIZE" PAGE_SIZE] by (simp add: unat_PAGE_SIZE)
  moreover have "4096 dvd (2 ^ 64 :: nat)" by (simp add: dvd_eq_mod_eq_0)
  ultimately show ?thesis using d by (simp add: dvd_mod_iff)
qed

lemma pmemset_dvd:
  assumes "\<And>p b n s. memset p b n s = Inr (f p b n s)" "pmemset memset a b sz s = Some r"
  shows "4096 dvd unat sz"
proof -
  have "memset = memset \<longrightarrow> 4096 dvd unat sz"
  proof (rule pmemset.raw_induct [OF _ assms(2), where P = "\<lambda>m a b sz s r. m = memset \<longrightarrow> 4096 dvd unat sz"])
  fix pm m a b sz s r
  assume IH: "\<And>m a b sz s r. pm m a b sz s = Some r \<Longrightarrow> m = memset \<longrightarrow> 4096 dvd unat (sz :: u64)"
    and run: "(if sz = 0 then Some (Inr s) else case m (pa2kva a) b PAGE_SIZE s of Inl e \<Rightarrow> Some (Inl e)
      | Inr s \<Rightarrow> pm m (a + PAGE_SIZE) b (sz - PAGE_SIZE) s) = Some r"
  show "m = memset \<longrightarrow> 4096 dvd unat sz"
  proof (intro impI, cases "sz = 0")
    case False
    moreover assume m: "m = memset"
    ultimately have "pm memset (a + PAGE_SIZE) b (sz - PAGE_SIZE) (f (pa2kva a) b PAGE_SIZE s) = Some r"
      using run assms(1) by simp
    with IH show "4096 dvd unat sz" by (blast intro: page_step)
    qed simp
  qed
  then show ?thesis by simp
qed

text \<open>
  C23. \<open>pmemset\<close> returns exactly when the size is a multiple of the page size, and then it has
  cleared every page of the region once, in order. For any other size the unsigned count steps
  over 0 and the loop never ends.
\<close>

theorem pmemset_returns:
  assumes "\<And>p b n s. memset p b n s = Inr (f p b n s)"
  shows "pmemset memset a b sz s =
    (if 4096 dvd unat sz
     then Some (Inr (fold (\<lambda>i. f (pa2kva (a + of_nat (4096 * i))) b PAGE_SIZE) [0..<unat sz div 4096] s))
     else None)"
  using pmemset_multiple [of memset f sz "unat sz div 4096" a b s, OF assms] pmemset_dvd [of memset f a b sz s, OF assms]
  by (cases "pmemset memset a b sz s") auto

theorem pmemset_returns_witness:
  "pmemset (\<lambda>p b n s. Inr ((p, b) # s)) 0x1000 0x20 0x2000 [] = Some (Inr [(0x80002000, 0x20), (0x80001000, 0x20)]) \<and>
   pmemset (\<lambda>p b n s. Inr ((p, b) # s)) 0x1000 0x20 0x2001 [] = None"
  using pmemset_returns [of "\<lambda>p b n s. Inr ((p, b) # s)" "\<lambda>p b n s. (p, b) # s" "0x1000" "0x20" "0x2000" "[]"]
    pmemset_returns [of "\<lambda>p b n s. Inr ((p, b) # s)" "\<lambda>p b n s. (p, b) # s" "0x1000" "0x20" "0x2001" "[]"]
  by (simp add: upt_rec pa2kva_def KERN_BASE_def)

end
