(* ===== verification/Vmm.thy ===== *)
theory Vmm
  imports Addr
begin

text \<open>
  The object allocation front end \<^verbatim>\<open>kern/mm/vmm/vmm.c\<close> and \<^verbatim>\<open>include/aim/vmm.h\<close>: the calls go through
  tables of functions that the allocators register. A table is a record of functions over the
  state the allocator works on; \<^verbatim>\<open>memset\<close> on that state is an argument.
\<close>

section \<open>Objects of any size\<close>

record 's simple_allocator =
  sa_alloc :: "u32 \<Rightarrow> u32 \<Rightarrow> 's \<Rightarrow> (ptr \<times> 's) res"
  sa_free :: "ptr \<Rightarrow> 's \<Rightarrow> 's res"
  sa_size :: "ptr \<Rightarrow> 's \<Rightarrow> u32 res"

definition dummy_simple_allocator :: "'s simple_allocator" where
  "dummy_simple_allocator =
     \<lparr>sa_alloc = (\<lambda>size flags s. Inr (NULL, s)), sa_free = (\<lambda>obj s. Inr s), sa_size = (\<lambda>obj s. Inr 0)\<rparr>"

type_synonym 's memset_fn = "ptr \<Rightarrow> u8 \<Rightarrow> u32 \<Rightarrow> 's \<Rightarrow> 's res"

definition kmalloc :: "'s simple_allocator \<Rightarrow> 's memset_fn \<Rightarrow> u32 \<Rightarrow> u32 \<Rightarrow> 's \<Rightarrow> (ptr \<times> 's) res" where
  "kmalloc tbl memset sz flags s =
     (if sz > PAGE_SIZE div 2 then Inl Panic
      else and_then (sa_alloc tbl sz flags s) (\<lambda>(result, s).
        if flags AND GFP_ZERO \<noteq> 0
        then and_then (memset result 0 sz s) (\<lambda>s. Inr (result, s))
        else Inr (result, s)))"

definition kcalloc :: "'s simple_allocator \<Rightarrow> 's memset_fn \<Rightarrow> u32 \<Rightarrow> u32 \<Rightarrow> u32 \<Rightarrow> 's \<Rightarrow> (ptr \<times> 's) res" where
  "kcalloc tbl memset nmemb sz flags s =
     and_then (kmalloc tbl memset (nmemb * sz) flags s) (\<lambda>(result, s).
     and_then (memset result 0 (nmemb * sz) s) (\<lambda>s. Inr (result, s)))"

definition kfree :: "'s simple_allocator \<Rightarrow> ptr \<Rightarrow> 's \<Rightarrow> 's res" where
  "kfree tbl obj s = (if obj \<noteq> NULL then sa_free tbl obj s else Inr s)"

definition ksize :: "'s simple_allocator \<Rightarrow> ptr \<Rightarrow> 's \<Rightarrow> u32 res" where
  "ksize tbl obj s = (if obj \<noteq> NULL then sa_size tbl (premap_addr (ucast obj)) s else Inr 0)"

text \<open>The table is copied; a \<^verbatim>\<open>NULL\<close> argument (\<open>None\<close>) changes nothing.\<close>

definition set_simple_allocator :: "'s simple_allocator option \<Rightarrow> 's simple_allocator \<Rightarrow> 's simple_allocator" where
  "set_simple_allocator allocator cur = (case allocator of None \<Rightarrow> cur | Some tbl \<Rightarrow> tbl)"

definition get_simple_allocator :: "'s simple_allocator option \<Rightarrow> 's simple_allocator \<Rightarrow> 's simple_allocator option" where
  "get_simple_allocator allocator cur = (case allocator of None \<Rightarrow> None | Some _ \<Rightarrow> Some cur)"

section \<open>Caches of objects\<close>

text \<open>The part of \<^verbatim>\<open>struct allocator_cache\<close> that the front end reads; \<^verbatim>\<open>EOF\<close> is -1.\<close>

record allocator_cache =
  ac_head :: ptr
  ac_size :: u32
  ac_align :: u32
  ac_flags :: u32

record 's caching_allocator =
  ca_create :: "ptr \<Rightarrow> 's \<Rightarrow> (int \<times> 's) res"
  ca_destroy :: "ptr \<Rightarrow> 's \<Rightarrow> (int \<times> 's) res"
  ca_alloc :: "ptr \<Rightarrow> 's \<Rightarrow> (ptr \<times> 's) res"
  ca_free :: "ptr \<Rightarrow> ptr \<Rightarrow> 's \<Rightarrow> (int \<times> 's) res"
  ca_trim :: "ptr \<Rightarrow> 's \<Rightarrow> 's res"

definition dummy_caching_allocator :: "'s caching_allocator" where
  "dummy_caching_allocator =
     \<lparr>ca_create = (\<lambda>cache s. Inr (- 1, s)), ca_destroy = (\<lambda>cache s. Inr (- 1, s)),
      ca_alloc = (\<lambda>cache s. Inr (NULL, s)), ca_free = (\<lambda>cache obj s. Inr (- 1, s)),
      ca_trim = (\<lambda>cache s. Inr s)\<rparr>"

definition set_caching_allocator :: "'s caching_allocator option \<Rightarrow> 's caching_allocator \<Rightarrow> 's caching_allocator" where
  "set_caching_allocator allocator cur = (case allocator of None \<Rightarrow> cur | Some tbl \<Rightarrow> tbl)"

definition cache_create :: "'s caching_allocator \<Rightarrow> ptr \<Rightarrow> 's \<Rightarrow> (int \<times> 's) res" where
  "cache_create tbl cache s = (if cache = NULL then Inr (- 1, s) else ca_create tbl cache s)"

definition cache_destroy :: "'s caching_allocator \<Rightarrow> ptr \<Rightarrow> 's \<Rightarrow> (int \<times> 's) res" where
  "cache_destroy tbl cache s = (if cache = NULL then Inr (- 1, s) else ca_destroy tbl cache s)"

text \<open>\<open>caches\<close> reads the cache descriptors, which live in the state.\<close>

definition cache_alloc :: "'s caching_allocator \<Rightarrow> 's memset_fn \<Rightarrow> ('s \<Rightarrow> ptr \<rightharpoonup> allocator_cache) \<Rightarrow> ptr \<Rightarrow> 's \<Rightarrow> (ptr \<times> 's) res" where
  "cache_alloc tbl memset caches cache s =
     (if cache = NULL then Inr (NULL, s)
      else and_then (ca_alloc tbl cache s) (\<lambda>(retval, s).
        and_then (ld (caches s) cache) (\<lambda>c.
        if ac_flags c AND GFP_ZERO \<noteq> 0
        then and_then (memset retval 0 (ac_size c) s) (\<lambda>s. Inr (retval, s))
        else Inr (retval, s))))"

definition cache_free :: "'s caching_allocator \<Rightarrow> 's memset_fn \<Rightarrow> ('s \<Rightarrow> ptr \<rightharpoonup> allocator_cache) \<Rightarrow> ptr \<Rightarrow> ptr \<Rightarrow> 's \<Rightarrow> (int \<times> 's) res" where
  "cache_free tbl memset caches cache obj s =
     (if cache = NULL then Inr (- 1, s)
      else and_then (ld (caches s) cache) (\<lambda>c.
        and_then (if ac_flags c AND GFP_UNSAFE = 0 then memset obj JUNKBYTE (ac_size c) s else Inr s) (\<lambda>s.
        ca_free tbl cache obj s)))"

definition cache_trim :: "'s caching_allocator \<Rightarrow> ptr \<Rightarrow> 's \<Rightarrow> 's res" where
  "cache_trim tbl cache s = (if cache = NULL then Inr s else ca_trim tbl cache s)"

section \<open>Lemmas\<close>

lemma PAGE_SIZE_half: "sz > PAGE_SIZE div 2 \<longleftrightarrow> 2048 < unat sz" for sz :: u32
  by (simp add: PAGE_SIZE_def word_less_nat_alt)

lemma kmalloc_plain:
  "unat sz \<le> 2048 \<Longrightarrow> flags AND GFP_ZERO = 0 \<Longrightarrow> kmalloc tbl memset sz flags s = sa_alloc tbl sz flags s"
  by (auto simp: kmalloc_def PAGE_SIZE_half and_then_def split: sum.split)

end
