(* ===== verification/Simple.thy ===== *)
theory Simple
  imports Pmm Vmm
begin

unbundle bit_operations_syntax

text \<open>
  The two object allocators of \<^verbatim>\<open>kern/mm/vmm/simple.c\<close>. The bootstrap one hands out a fixed
  region from below and never takes anything back. The other one cuts pages into slots of one
  size: every page has a descriptor with a bitmap of the 16-byte units where an object starts,
  and the descriptors are linked between the static nodes \<^verbatim>\<open>h\<close> and \<^verbatim>\<open>t\<close>. Its pages come from
  \<^verbatim>\<open>pgalloc\<close> and go back by \<^verbatim>\<open>pgfree\<close>, which are arguments.
\<close>

section \<open>State\<close>

record alloced_page =
  ap_prev :: ptr
  ap_next :: ptr
  ap_paddr :: ptr
  ap_size :: u32
  ap_num :: u32
  ap_status :: "u8 list"

text \<open>The static variables of \<^verbatim>\<open>simple.c\<close>, in one state with those of the page allocator.\<close>

record kmem = palloc +
  km_top :: ptr
  km_bottom :: ptr
  km_ssize :: u32
  km_descs :: "ptr \<rightharpoonup> alloced_page"
  km_head :: ptr
  km_tail :: ptr
  km_now_plain_page :: ptr
  km_offset :: int

definition SIZE_NUM :: nat where
  "SIZE_NUM = 9"

definition BIT_SIZE :: nat where
  "BIT_SIZE = 16"

definition PG_EMPTY :: u32 where
  "PG_EMPTY = 0x7ffff"

definition fri_size :: "u32 list" where
  "fri_size = [0x1000, 0x800, 0x400, 0x200, 0x100, 0x80, 0x40, 0x20, 0x10]"

text \<open>\<^verbatim>\<open>sizeof(struct alloced_page)\<close> and \<^verbatim>\<open>sizeof(struct mem_block)\<close> with 32-bit pointers.\<close>

definition sizeof_alloced_page :: u32 where
  "sizeof_alloced_page = 52"

definition sizeof_mem_block :: u32 where
  "sizeof_mem_block = 32"

section \<open>The bootstrap allocator\<close>

definition simple_alloc :: "u32 \<Rightarrow> u32 \<Rightarrow> 'a kmem_scheme \<Rightarrow> (ptr \<times> 'a kmem_scheme) res" where
  "simple_alloc sz flags s =
     (if km_top s + sz > km_bottom s + km_ssize s then Inr (NULL, s)
      else Inr (km_top s, s\<lparr>km_top := km_top s + sz\<rparr>))"

definition simple_free :: "ptr \<Rightarrow> 'a kmem_scheme \<Rightarrow> 'a kmem_scheme res" where
  "simple_free obj s = Inr s"

definition simple_size :: "ptr \<Rightarrow> 'a kmem_scheme \<Rightarrow> u32 res" where
  "simple_size obj s = Inr 0"

definition simple1 :: "'a kmem_scheme simple_allocator" where
  "simple1 = \<lparr>sa_alloc = simple_alloc, sa_free = simple_free, sa_size = simple_size\<rparr>"

text \<open>The state after \<^verbatim>\<open>simple_allocator_bootstrap\<close>, and the table it registers.\<close>

definition simple_allocator_bootstrap :: "ptr \<Rightarrow> u32 \<Rightarrow> 'a kmem_scheme \<Rightarrow> 'a kmem_scheme simple_allocator \<times> 'a kmem_scheme" where
  "simple_allocator_bootstrap pt sz s =
     (simple1, s\<lparr>km_top := pt, km_bottom := pt, km_ssize := sz\<rparr>)"

section \<open>Slots of a page\<close>

definition status_bit :: "u8 list \<Rightarrow> nat \<Rightarrow> bool res" where
  "status_bit x a = and_then (rd x (a div 8)) (\<lambda>w. Inr (bit w (a mod 8)))"

definition setbit :: "u8 list \<Rightarrow> nat \<Rightarrow> u8 list res" where
  "setbit x a = and_then (rd x (a div 8)) (\<lambda>w. wr x (a div 8) (w XOR push_bit (a mod 8) 1))"

text \<open>With a step of 0 the loop would test the same slot for ever.\<close>

function space_loop :: "u8 list \<Rightarrow> nat \<Rightarrow> nat \<Rightarrow> (u8 list \<times> nat) res" where
  "space_loop status leap i =
     (if i * BIT_SIZE < 4096
      then and_then (status_bit status i) (\<lambda>b.
        if \<not> b then and_then (setbit status i) (\<lambda>status. Inr (status, i))
        else if leap = 0 then Inl NoReturn
        else space_loop status leap (i + leap))
      else Inr (status, i))"
  by pat_completeness auto
termination
  by (relation "measure (\<lambda>(status, leap, i). 4096 - i)") (auto simp: BIT_SIZE_def)

declare space_loop.simps [simp del]

definition get_space :: "u8 list \<Rightarrow> u32 \<Rightarrow> (u8 list \<times> u32) res" where
  "get_space status sz =
     and_then (space_loop status (unat sz div BIT_SIZE) 0) (\<lambda>(status, i). Inr (status, of_nat (BIT_SIZE * i)))"

definition free_space :: "u8 list \<Rightarrow> nat \<Rightarrow> u8 list res" where
  "free_space status pos = and_then (status_bit status pos) (\<lambda>b. if b then setbit status pos else Inr status)"

section \<open>Memory for the descriptors\<close>

definition new_plain_page ::
  "('a kmem_scheme \<Rightarrow> (u64 \<times> 'a kmem_scheme) res) \<Rightarrow> 'a kmem_scheme \<Rightarrow> (ptr \<times> 'a kmem_scheme) res" where
  "new_plain_page pg_get s =
     and_then (pg_get s) (\<lambda>(paddr, s).
     let s = s\<lparr>km_offset := 0\<rparr> in
     if paddr = - 1 then Inr (NULL, s) else Inr (pa2kva paddr, s))"

definition get_plain_object ::
  "('a kmem_scheme \<Rightarrow> (u64 \<times> 'a kmem_scheme) res) \<Rightarrow> u32 \<Rightarrow> 'a kmem_scheme \<Rightarrow> (ptr \<times> 'a kmem_scheme) res" where
  "get_plain_object pg_get sz s =
     (if sz > PAGE_SIZE then Inl Panic
      else if km_offset s + int (unat sz) \<le> 4096
      then Inr (km_now_plain_page s + of_int (km_offset s), s\<lparr>km_offset := km_offset s + int (unat sz)\<rparr>)
      else and_then (new_plain_page pg_get s) (\<lambda>(p, s).
        let s = s\<lparr>km_now_plain_page := p\<rparr> in
        if p = NULL then Inl Panic else Inr (p, s)))"

section \<open>The page-based allocator\<close>

text \<open>\<^verbatim>\<open>for (ii = SIZE_NUM - 1; ii >= 0; --ii) if (fri_size[ii] >= size) break;\<close>\<close>

fun size_class :: "nat \<Rightarrow> u32 \<Rightarrow> u32 res" where
  "size_class 0 sz = Inl Fault"
| "size_class (Suc ii) sz = and_then (rd fri_size ii) (\<lambda>f. if f \<ge> sz then Inr f else size_class ii sz)"

text \<open>A descriptor that is taken from plain memory exists from then on; all its fields are set before they are read.\<close>

definition fresh_desc :: "ptr \<Rightarrow> 'a kmem_scheme \<Rightarrow> 'a kmem_scheme" where
  "fresh_desc p s =
     (case km_descs s p of None \<Rightarrow>
        s\<lparr>km_descs := (km_descs s)(p \<mapsto> \<lparr>ap_prev = 0, ap_next = 0, ap_paddr = 0, ap_size = 0, ap_num = 0, ap_status = []\<rparr>)\<rparr>
      | Some _ \<Rightarrow> s)"

text \<open>The new descriptor becomes the first of the list.\<close>

definition new_desc ::
  "('a kmem_scheme \<Rightarrow> (u64 \<times> 'a kmem_scheme) res) \<Rightarrow> 'a kmem_scheme \<Rightarrow> (ptr \<times> 'a kmem_scheme) res" where
  "new_desc pg_get s =
     and_then (get_plain_object pg_get sizeof_alloced_page s) (\<lambda>(a, s).
     let s = fresh_desc a s; h = km_head s in
     and_then (upd (km_descs s) a (ap_prev_update (\<lambda>_. h))) (\<lambda>D.
     and_then (ld D h) (\<lambda>hd.
     and_then (upd D a (ap_next_update (\<lambda>_. ap_next hd))) (\<lambda>D.
     and_then (ld D h) (\<lambda>hd.
     and_then (upd D (ap_next hd) (ap_prev_update (\<lambda>_. a))) (\<lambda>D.
     and_then (upd D h (ap_next_update (\<lambda>_. a))) (\<lambda>D.
     Inr (a, s\<lparr>km_descs := D\<rparr>))))))))"

text \<open>The search for a page with a free slot, then for a descriptor without a page.\<close>

definition find_page :: "u32 \<Rightarrow> 'a kmem_scheme \<Rightarrow> ptr res" where
  "find_page sz s =
     and_then (ld (km_descs s) (km_head s)) (\<lambda>hd.
     and_then (returns (walk (km_descs s) ap_next
        (\<lambda>_ d. sz = ap_size d \<and> ap_num d * ap_size d < PAGE_SIZE) (km_tail s) (ap_next hd))) (\<lambda>a.
     if a = km_tail s
     then returns (walk (km_descs s) ap_next (\<lambda>_ d. ap_size d = PG_EMPTY) (km_tail s) (ap_next hd))
     else Inr a))"

text \<open>A page for the descriptor \<open>a\<close>, or for a new one when \<open>a\<close> is the tail.\<close>

definition add_page ::
  "('a kmem_scheme \<Rightarrow> (u64 \<times> 'a kmem_scheme) res) \<Rightarrow> ptr \<Rightarrow> u32 \<Rightarrow> 'a kmem_scheme \<Rightarrow> (ptr option \<times> 'a kmem_scheme) res" where
  "add_page pg_get a sz s =
     and_then (pg_get s) (\<lambda>(pa, s).
     let new_page = pa2kva pa in
     if new_page = NULL then Inr (None, s)
     else and_then (if a = km_tail s then new_desc pg_get s else Inr (a, s)) (\<lambda>(a, s).
       and_then (upd (km_descs s) a (\<lambda>d. d\<lparr>ap_paddr := new_page, ap_size := sz, ap_num := 0, ap_status := replicate 32 0\<rparr>)) (\<lambda>D.
       Inr (Some a, s\<lparr>km_descs := D\<rparr>))))"

definition alloc ::
  "('a kmem_scheme \<Rightarrow> (u64 \<times> 'a kmem_scheme) res) \<Rightarrow> u32 \<Rightarrow> u32 \<Rightarrow> 'a kmem_scheme \<Rightarrow> (ptr \<times> 'a kmem_scheme) res" where
  "alloc pg_get sz flags s =
     (if sz = 0 \<or> sz > PAGE_SIZE then Inr (NULL, s)
      else and_then (size_class SIZE_NUM sz) (\<lambda>sz.
        and_then (find_page sz s) (\<lambda>a.
        and_then (ld (km_descs s) a) (\<lambda>d.
        and_then (if ap_size d = PG_EMPTY \<or> a = km_tail s then add_page pg_get a sz s else Inr (Some a, s)) (\<lambda>(a, s).
        case a of None \<Rightarrow> Inr (NULL, s)
        | Some a \<Rightarrow>
            and_then (ld (km_descs s) a) (\<lambda>d.
            and_then (get_space (ap_status d) sz) (\<lambda>(status, off).
            and_then (upd (km_descs s) a (\<lambda>d. d\<lparr>ap_status := status, ap_num := ap_num d + 1\<rparr>)) (\<lambda>D.
            Inr (ap_paddr d + off, s\<lparr>km_descs := D\<rparr>)))))))))"

text \<open>The page that holds an address; the tail when there is none.\<close>

definition page_of :: "ptr \<Rightarrow> 'a kmem_scheme \<Rightarrow> ptr res" where
  "page_of obj s =
     and_then (ld (km_descs s) (km_head s)) (\<lambda>hd.
     returns (walk (km_descs s) ap_next (\<lambda>_ d. obj \<ge> ap_paddr d \<and> obj < ap_paddr d + PAGE_SIZE) (km_tail s) (ap_next hd)))"

definition free ::
  "(u64 \<Rightarrow> 'a kmem_scheme \<Rightarrow> 'a kmem_scheme res) \<Rightarrow> ptr \<Rightarrow> 'a kmem_scheme \<Rightarrow> 'a kmem_scheme res" where
  "free pg_put obj s =
     (if obj = NULL then Inr s
      else and_then (page_of obj s) (\<lambda>a.
        if a = km_tail s then Inl Panic
        else and_then (ld (km_descs s) a) (\<lambda>d.
          and_then (free_space (ap_status d) (unat (obj - ap_paddr d) div BIT_SIZE)) (\<lambda>status.
          let d = d\<lparr>ap_status := status, ap_num := ap_num d - 1\<rparr> in
          if ap_num d = 0
          then pg_put (ucast (kva2pa (ap_paddr d))) (s\<lparr>km_descs := (km_descs s)(a \<mapsto> d\<lparr>ap_size := PG_EMPTY\<rparr>)\<rparr>)
          else Inr (s\<lparr>km_descs := (km_descs s)(a \<mapsto> d)\<rparr>)))))"

definition obj_size :: "ptr \<Rightarrow> 'a kmem_scheme \<Rightarrow> u32 res" where
  "obj_size obj s =
     and_then (page_of obj s) (\<lambda>a. if a = km_tail s then Inr 0 else and_then (ld (km_descs s) a) (\<lambda>d. Inr (ap_size d)))"

definition simple_allocator_init ::
  "('a kmem_scheme \<Rightarrow> (u64 \<times> 'a kmem_scheme) res) \<Rightarrow> ptr \<Rightarrow> ptr \<Rightarrow> 'a kmem_scheme \<Rightarrow> 'a kmem_scheme res" where
  "simple_allocator_init pg_get h t s =
     (let s = s\<lparr>km_head := h, km_tail := t\<rparr> in
      and_then (upd (km_descs s) t (ap_next_update (\<lambda>_. NULL))) (\<lambda>D.
      and_then (upd D h (ap_prev_update (\<lambda>_. NULL))) (\<lambda>D.
      and_then (upd D h (ap_next_update (\<lambda>_. t))) (\<lambda>D.
      and_then (upd D t (ap_prev_update (\<lambda>_. h))) (\<lambda>D.
      and_then (new_plain_page pg_get (s\<lparr>km_descs := D\<rparr>)) (\<lambda>(p, s).
      Inr (s\<lparr>km_now_plain_page := p\<rparr>)))))))"

definition simple_table ::
  "('a kmem_scheme \<Rightarrow> (u64 \<times> 'a kmem_scheme) res) \<Rightarrow> (u64 \<Rightarrow> 'a kmem_scheme \<Rightarrow> 'a kmem_scheme res) \<Rightarrow> 'a kmem_scheme simple_allocator" where
  "simple_table pg_get pg_put =
     \<lparr>sa_alloc = alloc pg_get, sa_free = free pg_put, sa_size = obj_size\<rparr>"

section \<open>The slots of a page\<close>

definition slot_used :: "u8 list \<Rightarrow> nat \<Rightarrow> bool" where
  "slot_used status i = bit (status ! (i div 8)) (i mod 8)"

lemma status_bit_slot: "length status = 32 \<Longrightarrow> i < 256 \<Longrightarrow> status_bit status i = Inr (slot_used status i)"
  by (simp add: status_bit_def slot_used_def)

lemma setbit_slot:
  assumes "length status = 32" "i < 256"
  shows "\<exists>status'. setbit status i = Inr status' \<and> length status' = 32 \<and>
    (\<forall>j. slot_used status' j = (if j = i then \<not> slot_used status i else slot_used status j))"
proof -
  let ?s = "status[i div 8 := status ! (i div 8) XOR push_bit (i mod 8) 1]"
  have i: "i div 8 < 32" using assms(2) by simp
  have "slot_used ?s j = (if j = i then \<not> slot_used status i else slot_used status j)" for j
  proof (cases "j div 8 = i div 8")
    case True
    then have "j = i \<longleftrightarrow> j mod 8 = i mod 8" by (metis div_mult_mod_eq)
    moreover have "j mod 8 < 8" "i mod 8 < 8" by simp_all
    ultimately show ?thesis using True i assms(1)
      by (auto simp: slot_used_def bit_xor_iff bit_exp_iff)
  next
    case False
    with i assms(1) show ?thesis by (auto simp: slot_used_def)
  qed
  with i assms(1) show ?thesis by (intro exI [of _ ?s]) (simp add: setbit_def)
qed

text \<open>The status bytes are determined by the slots.\<close>

lemma status_eqI:
  assumes "length a = 32" "length b = 32" "\<And>i. i < 256 \<Longrightarrow> slot_used a i = slot_used b i"
  shows "a = b"
proof (rule nth_equalityI)
  fix k assume k: "k < length a"
  show "a ! k = b ! k"
  proof (rule bit_word_eqI)
    fix n assume "n < LENGTH(8)"
    with k assms(1) assms(3) [of "8 * k + n"] show "bit (a ! k) n = bit (b ! k) n"
      by (simp add: slot_used_def)
  qed
qed (use assms in simp)

lemma space_loop_spec:
  assumes "length status = 32" "0 < leap"
  shows "\<exists>status' k. space_loop status leap i = Inr (status', i + k * leap) \<and> length status' = 32 \<and>
    (\<forall>k'<k. i + k' * leap < 256 \<and> slot_used status (i + k' * leap)) \<and>
    (if i + k * leap < 256
     then \<not> slot_used status (i + k * leap) \<and> (\<forall>j. slot_used status' j \<longleftrightarrow> j = i + k * leap \<or> slot_used status j)
     else status' = status)"
  using assms
proof (induction status leap i rule: space_loop.induct)
  case (1 status leap i)
  show ?case
  proof (cases "i < 256")
    case False
    then show ?thesis using 1(2) by (intro exI [of _ status] exI [of _ 0]) (simp add: space_loop.simps [of status leap i] BIT_SIZE_def)
  next
    case i: True
    then have lt: "i * BIT_SIZE < 4096" by (simp add: BIT_SIZE_def)
    have b: "status_bit status i = Inr (slot_used status i)" using 1(2) i by (rule status_bit_slot)
    show ?thesis
    proof (cases "slot_used status i")
      case True
      have "leap \<noteq> 0" using 1(3) by simp
      from 1(1) [OF lt, of True] True b 1(2,3) obtain status' k where
        IH: "space_loop status leap (i + leap) = Inr (status', i + leap + k * leap)" "length status' = 32"
        "\<forall>k'<k. i + leap + k' * leap < 256 \<and> slot_used status (i + leap + k' * leap)"
        "if i + leap + k * leap < 256
         then \<not> slot_used status (i + leap + k * leap) \<and> (\<forall>j. slot_used status' j \<longleftrightarrow> j = i + leap + k * leap \<or> slot_used status j)
         else status' = status" by auto
      have "i + k' * leap < 256 \<and> slot_used status (i + k' * leap)" if "k' < Suc k" for k'
        using that IH(3) True i by (cases k') (auto simp: algebra_simps)
      moreover have "i + leap + k * leap = i + Suc k * leap" by simp
      ultimately show ?thesis using IH True b lt \<open>leap \<noteq> 0\<close>
        by (intro exI [of _ status'] exI [of _ "Suc k"]) (simp add: space_loop.simps [of status leap i] add.assoc split: if_split_asm)
    next
      case False
      from setbit_slot [OF 1(2) i] obtain status' where "setbit status i = Inr status'" "length status' = 32"
        "\<forall>j. slot_used status' j = (if j = i then \<not> slot_used status i else slot_used status j)" by blast
      with False b lt i show ?thesis
        by (intro exI [of _ status'] exI [of _ 0]) (auto simp: space_loop.simps [of status leap i])
    qed
  qed
qed

lemma free_space_spec:
  assumes "length status = 32" "i < 256"
  shows "\<exists>status'. free_space status i = Inr status' \<and> length status' = 32 \<and>
    (\<forall>j. slot_used status' j \<longleftrightarrow> j \<noteq> i \<and> slot_used status j)"
proof (cases "slot_used status i")
  case True
  from setbit_slot [OF assms] obtain status' where "setbit status i = Inr status'" "length status' = 32"
    "\<forall>j. slot_used status' j = (if j = i then \<not> slot_used status i else slot_used status j)" by blast
  with True assms show ?thesis by (intro exI [of _ status']) (auto simp: free_space_def status_bit_slot)
next
  case False
  with assms show ?thesis by (intro exI [of _ status]) (auto simp: free_space_def status_bit_slot)
qed

lemma fri_size_cases: "sz \<in> set fri_size \<Longrightarrow> \<exists>k\<le>8. sz = 16 * 2 ^ k"
  by (auto simp: fri_size_def intro: exI [of _ 0] exI [of _ 1] exI [of _ 2] exI [of _ 3] exI [of _ 4] exI [of _ 5]
      exI [of _ 6] exI [of _ 7] exI [of _ 8])

text \<open>The class of a size is the smallest one that holds it.\<close>

lemma size_class_eq:
  "size_class SIZE_NUM sz =
     (if sz \<le> 0x10 then Inr 0x10 else if sz \<le> 0x20 then Inr 0x20 else if sz \<le> 0x40 then Inr 0x40
      else if sz \<le> 0x80 then Inr 0x80 else if sz \<le> 0x100 then Inr 0x100 else if sz \<le> 0x200 then Inr 0x200
      else if sz \<le> 0x400 then Inr 0x400 else if sz \<le> 0x800 then Inr 0x800 else if sz \<le> 0x1000 then Inr 0x1000
      else Inl Fault)"
proof -
  have n: "SIZE_NUM = Suc (Suc (Suc (Suc (Suc (Suc (Suc (Suc (Suc 0))))))))" by (simp add: SIZE_NUM_def)
  show ?thesis unfolding n by (simp add: fri_size_def rd_def)
qed

lemma size_class_spec:
  assumes "unat sz \<le> 4096"
  shows "\<exists>c\<in>set fri_size. size_class SIZE_NUM sz = Inr c \<and> sz \<le> c \<and> (\<forall>c'\<in>set fri_size. sz \<le> c' \<longrightarrow> c \<le> c')"
  using assms unfolding size_class_eq fri_size_def by (simp add: word_le_nat_alt)

section \<open>The objects of the page-based allocator\<close>

text \<open>
  A page in use: its class is one of \<open>fri_size\<close>, the set slots are multiples of the class, and
  \<^verbatim>\<open>num\<close> counts them.
\<close>

definition page_ok :: "alloced_page \<Rightarrow> bool" where
  "page_ok d \<longleftrightarrow> ap_size d \<in> set fri_size \<and> length (ap_status d) = 32 \<and>
     (\<forall>i<256. slot_used (ap_status d) i \<longrightarrow> unat (ap_size d) dvd 16 * i) \<and>
     unat (ap_num d) = card {i. i < 256 \<and> slot_used (ap_status d) i}"

definition in_use :: "alloced_page \<Rightarrow> bool" where
  "in_use d \<longleftrightarrow> ap_size d \<noteq> PG_EMPTY"

text \<open>
  The descriptors in list order: an empty one keeps the address of the page it had, which
  must not be the page of a later one, since \<^verbatim>\<open>free\<close> takes the first match.
\<close>

definition descs_ok :: "alloced_page list \<Rightarrow> bool" where
  "descs_ok ds \<longleftrightarrow>
     (\<forall>d\<in>set ds. 4096 dvd unat (ap_paddr d) \<and> unat (ap_paddr d) + 4096 < 2 ^ 32 \<and> (in_use d \<longrightarrow> page_ok d)) \<and>
     sorted_wrt (\<lambda>d e. in_use e \<longrightarrow> ap_paddr d \<noteq> ap_paddr e) ds"

text \<open>The objects of a page, as pairs of address and size.\<close>

definition page_objects :: "alloced_page \<Rightarrow> (nat \<times> nat) set" where
  "page_objects d = {(unat (ap_paddr d) + 16 * i, unat (ap_size d)) | i. in_use d \<and> i < 256 \<and> slot_used (ap_status d) i}"

definition objects :: "alloced_page list \<Rightarrow> (nat \<times> nat) set" where
  "objects ds = (\<Union>d\<in>set ds. page_objects d)"

definition descs_rep :: "'a kmem_scheme \<Rightarrow> alloced_page list \<Rightarrow> bool" where
  "descs_rep s ds \<longleftrightarrow> (\<exists>xs. bounded_list (km_descs s) ap_next ap_prev (km_head s) (km_tail s) xs \<and>
     map (km_descs s) xs = map Some ds) \<and> descs_ok ds"

lemma page_full:
  assumes "page_ok d" "\<forall>i<256. unat (ap_size d) dvd 16 * i \<longrightarrow> slot_used (ap_status d) i"
  shows "unat (ap_num d) * unat (ap_size d) = 4096"
proof -
  from assms(1) obtain k where k: "k \<le> 8" "ap_size d = 16 * 2 ^ k" using fri_size_cases by (auto simp: page_ok_def)
  then have sz: "unat (ap_size d) = 16 * 2 ^ k"
  proof -
    have "k \<in> {0..8}" using k by simp
    then have "k = 0 \<or> k = 1 \<or> k = 2 \<or> k = 3 \<or> k = 4 \<or> k = 5 \<or> k = 6 \<or> k = 7 \<or> k = 8" by auto
    with k(2) show ?thesis by auto
  qed
  have "{i. i < 256 \<and> slot_used (ap_status d) i} = {i. i < 256 \<and> 2 ^ k dvd i}"
    using assms sz by (auto simp: page_ok_def)
  also have "\<dots> = (\<lambda>j. j * 2 ^ k) ` {..<2 ^ (8 - k)}"
  proof -
    have e: "(256::nat) = 2 ^ (8 - k) * 2 ^ k" using k(1) by (simp flip: power_add)
    show ?thesis unfolding e by (auto simp: dvd_def image_iff mult.commute)
  qed
  also have "card \<dots> = 2 ^ (8 - k)" by (subst card_image) (auto simp: inj_on_def)
  finally have "unat (ap_num d) = 2 ^ (8 - k)" using assms(1) by (simp add: page_ok_def)
  then show ?thesis using k(1) sz by (simp flip: power_add)
qed

lemma class_size:
  assumes "c \<in> set fri_size"
  obtains k where "k \<le> 8" "unat c = 16 * 2 ^ k"
  using assms by (auto simp: fri_size_def intro: that [of 0] that [of 1] that [of 2] that [of 3] that [of 4] that [of 5]
      that [of 6] that [of 7] that [of 8])

lemma class_not_empty: "c \<in> set fri_size \<Longrightarrow> c \<noteq> PG_EMPTY"
  by (auto simp: fri_size_def PG_EMPTY_def)

text \<open>A page that is not full has a free slot, and \<^verbatim>\<open>get_space\<close> takes the first.\<close>

lemma get_space_page:
  assumes ok: "page_ok d" and room: "unat (ap_num d) * unat (ap_size d) < 4096"
  shows "\<exists>status i. get_space (ap_status d) (ap_size d) = Inr (status, of_nat (16 * i)) \<and> i < 256 \<and>
    unat (ap_size d) dvd 16 * i \<and> \<not> slot_used (ap_status d) i \<and> length status = 32 \<and>
    (\<forall>j. slot_used status j \<longleftrightarrow> j = i \<or> slot_used (ap_status d) j)"
proof -
  obtain k where k: "k \<le> 8" "unat (ap_size d) = 16 * 2 ^ k" using ok class_size by (auto simp: page_ok_def)
  obtain i0 where i0: "i0 < 256" "2 ^ k dvd i0" "\<not> slot_used (ap_status d) i0"
    using page_full [OF ok] room k(2) by auto
  then obtain j0 where j0: "i0 = j0 * 2 ^ k" by (auto simp: dvd_def mult.commute)
  have leap: "unat (ap_size d) div BIT_SIZE = 2 ^ k" using k(2) by (simp add: BIT_SIZE_def)
  from space_loop_spec [of "ap_status d" "2 ^ k" 0, unfolded add_0] ok obtain status m where
    l: "space_loop (ap_status d) (2 ^ k) 0 = Inr (status, m * 2 ^ k)" "length status = 32"
      "\<forall>m'<m. m' * 2 ^ k < 256 \<and> slot_used (ap_status d) (m' * 2 ^ k)"
      "if m * 2 ^ k < 256 then \<not> slot_used (ap_status d) (m * 2 ^ k) \<and>
         (\<forall>j. slot_used status j \<longleftrightarrow> j = m * 2 ^ k \<or> slot_used (ap_status d) j) else status = ap_status d"
    by (auto simp: page_ok_def)
  have "m \<le> j0" using l(3) i0 j0 by (meson not_le)
  then have m: "m * 2 ^ k < 256" using i0 j0 by (meson le_less_trans mult_le_mono1)
  then show ?thesis using l k(2) leap
    by (intro exI [of _ status] exI [of _ "m * 2 ^ k"]) (simp add: get_space_def BIT_SIZE_def)
qed

lemma page_ok_take:
  assumes ok: "page_ok d" and i: "i < 256" "unat (ap_size d) dvd 16 * i" "\<not> slot_used (ap_status d) i"
    and st: "length status = 32" "\<forall>j. slot_used status j \<longleftrightarrow> j = i \<or> slot_used (ap_status d) j"
  shows "page_ok (d\<lparr>ap_status := status, ap_num := ap_num d + 1\<rparr>)"
proof -
  let ?U = "{j. j < 256 \<and> slot_used (ap_status d) j}"
  have "{j. j < 256 \<and> slot_used status j} = insert i ?U" using i(1) st(2) by auto
  moreover have "finite ?U" "i \<notin> ?U" using i(3) by auto
  ultimately have c: "card {j. j < 256 \<and> slot_used status j} = Suc (card ?U)" by simp
  have "card ?U \<le> card {..<256::nat}" by (rule card_mono) auto
  then have "unat (ap_num d + 1) = Suc (card ?U)"
    using ok by (simp add: page_ok_def unat_word_ariths)
  with ok i st c show ?thesis by (auto simp: page_ok_def)
qed

lemma page_ok_drop:
  assumes ok: "page_ok d" and i: "i < 256" "slot_used (ap_status d) i"
    and st: "length status = 32" "\<forall>j. slot_used status j \<longleftrightarrow> j \<noteq> i \<and> slot_used (ap_status d) j"
  shows "page_ok (d\<lparr>ap_status := status, ap_num := ap_num d - 1\<rparr>) \<and> unat (ap_num d) = Suc (unat (ap_num d - 1))"
proof -
  let ?U = "{j. j < 256 \<and> slot_used status j}"
  have "{j. j < 256 \<and> slot_used (ap_status d) j} = insert i ?U" using i st(2) by auto
  moreover have "finite ?U" "i \<notin> ?U" using st(2) by auto
  ultimately have c: "unat (ap_num d) = Suc (card ?U)" using ok by (simp add: page_ok_def)
  then have "(1::u32) \<le> ap_num d" by (simp add: word_le_nat_alt)
  then have "unat (ap_num d - 1) = card ?U" using c by (simp add: unat_sub)
  with ok st c show ?thesis by (auto simp: page_ok_def)
qed

text \<open>Replacing the descriptor of one node.\<close>

lemma descs_update:
  assumes "bounded_list D ap_next ap_prev h t (A @ a # B)" "map D (A @ a # B) = map Some (ds @ d # es)" "length A = length ds"
    and "ap_next d' = ap_next d" "ap_prev d' = ap_prev d"
  shows "bounded_list (D(a \<mapsto> d')) ap_next ap_prev h t (A @ a # B) \<and>
    map (D(a \<mapsto> d')) (A @ a # B) = map Some (ds @ d' # es)"
proof -
  have a: "D a = Some d" "map D A = map Some ds" "map D B = map Some es" using assms(2,3) by auto
  have "distinct (A @ a # B)" using assms(1) by (simp add: bounded_list_def)
  then have "map (D(a \<mapsto> d')) (A @ a # B) = map Some (ds @ d' # es)"
    using a by (auto simp flip: a(2,3))
  moreover have "bounded_list (D(a \<mapsto> d')) ap_next ap_prev h t (A @ a # B)"
    by (rule bounded_list_cong [OF assms(1)]) (use a assms(4,5) in auto)
  ultimately show ?thesis by blast
qed

lemma descs_rep_update:
  assumes "bounded_list (km_descs s) ap_next ap_prev (km_head s) (km_tail s) (A @ a # B)"
    and "map (km_descs s) (A @ a # B) = map Some (ds @ d # es)" "length A = length ds"
    and "ap_next d' = ap_next d" "ap_prev d' = ap_prev d" "descs_ok (ds @ d' # es)"
  shows "descs_rep (s\<lparr>km_descs := (km_descs s)(a \<mapsto> d')\<rparr>) (ds @ d' # es)"
proof -
  have "\<exists>xs. bounded_list ((km_descs s)(a \<mapsto> d')) ap_next ap_prev (km_head s) (km_tail s) xs \<and>
    map ((km_descs s)(a \<mapsto> d')) xs = map Some (ds @ d' # es)"
    by (rule exI, rule descs_update [OF assms(1-5)])
  with assms(6) show ?thesis by (simp add: descs_rep_def)
qed

lemma descs_split:
  assumes "map D (A @ B) = map Some ds"
  obtains ds1 ds2 where "ds = ds1 @ ds2" "length A = length ds1" "map D A = map Some ds1" "map D B = map Some ds2"
proof (rule that [of "take (length A) ds" "drop (length A) ds"])
  have "length ds = length A + length B" using assms by (metis length_append length_map)
  then show "length A = length (take (length A) ds)" by simp
  have "map D A = take (length A) (map D (A @ B))" "map D B = drop (length A) (map D (A @ B))" by simp_all
  then show "map D A = map Some (take (length A) ds)" "map D B = map Some (drop (length A) ds)"
    unfolding assms by (simp_all add: take_map drop_map)
qed simp

text \<open>Two pages in the list are equal or disjoint, so the walk of \<^verbatim>\<open>free\<close> finds the page of an object.\<close>

lemma in_page_iff:
  fixes p obj :: ptr
  assumes "4096 dvd unat p" "unat p + 4096 < 2 ^ 32"
  shows "obj \<ge> p \<and> obj < p + PAGE_SIZE \<longleftrightarrow> unat obj div 4096 * 4096 = unat p"
proof -
  have "unat (p + PAGE_SIZE) = unat p + 4096"
    using assms(2) unat_add_lem [of p PAGE_SIZE] by (simp add: unat_PAGE_SIZE)
  moreover obtain q where "unat p = 4096 * q" using assms(1) by (auto simp: dvd_def)
  ultimately show ?thesis by (auto simp: word_le_nat_alt word_less_nat_alt)
qed

lemma object_in_page:
  assumes "page_ok d" "i < 256" "unat (ap_size d) dvd 16 * i"
  shows "16 * i + unat (ap_size d) \<le> 4096"
proof -
  obtain k where k: "k \<le> 8" "unat (ap_size d) = 16 * 2 ^ k" using assms(1) class_size by (auto simp: page_ok_def)
  then obtain j where j: "i = 2 ^ k * j" using assms(3) by (auto simp: dvd_def)
  have e: "(256::nat) = 2 ^ k * 2 ^ (8 - k)" using k(1) by (simp flip: power_add)
  then have "2 ^ k * j < 2 ^ k * 2 ^ (8 - k)" using assms(2) j by metis
  then have "j < 2 ^ (8 - k)" by simp
  then have "2 ^ k * Suc j \<le> 2 ^ k * 2 ^ (8 - k)" by (intro mult_le_mono2) simp
  then show ?thesis using j k(2) e by simp
qed

lemma page_object_bounds:
  assumes "page_ok d" "(a, n) \<in> page_objects d"
  shows "unat (ap_paddr d) \<le> a \<and> a + n \<le> unat (ap_paddr d) + 4096"
  using assms object_in_page [OF assms(1)] by (auto simp: page_objects_def page_ok_def)

lemma page_objects_of:
  assumes "(a, n) \<in> page_objects d" "page_ok d" "4096 dvd unat (ap_paddr d)"
  shows "a div 4096 * 4096 = unat (ap_paddr d)"
proof -
  from assms(1) obtain i where "a = unat (ap_paddr d) + 16 * i" "i < 256" by (auto simp: page_objects_def)
  moreover obtain q where "unat (ap_paddr d) = 4096 * q" using assms(3) by (auto simp: dvd_def)
  ultimately show ?thesis by simp
qed

lemma multiples_disjoint:
  fixes n :: nat
  assumes "n dvd a" "n dvd b" "a \<noteq> b"
  shows "{x + a..<x + a + n} \<inter> {x + b..<x + b + n} = {}"
proof -
  obtain j k where jk: "a = n * j" "b = n * k" using assms(1,2) by (auto simp: dvd_def)
  with assms(3) have "j < k \<or> k < j" by auto
  then have "n * Suc j \<le> n * k \<or> n * Suc k \<le> n * j" by (metis Suc_leI mult_le_mono2)
  then have "a + n \<le> b \<or> b + n \<le> a" using jk by (simp add: add.commute)
  then show ?thesis by auto
qed

lemma pages_disjoint:
  fixes p :: nat
  assumes "4096 dvd p" "4096 dvd q" "p \<noteq> q" "p \<le> a" "a + n \<le> p + 4096" "q \<le> b" "b + m \<le> q + 4096"
  shows "{a..<a + n} \<inter> {b..<b + m} = {}"
  using multiples_disjoint [OF assms(1-3), of 0] assms(4-7) by fastforce

lemma objects_append [simp]: "objects (ds @ es) = objects ds \<union> objects es"
  by (auto simp: objects_def)

lemma objects_Cons [simp]: "objects (d # ds) = page_objects d \<union> objects ds"
  by (auto simp: objects_def)

text \<open>A free slot of a page lies apart from all objects.\<close>

lemma slot_disjoint:
  assumes ok: "descs_ok (ds @ d # es)" and d: "in_use d" and i: "i < 256" "unat (ap_size d) dvd 16 * i" "\<not> slot_used (ap_status d) i"
    and o: "(b, n) \<in> objects (ds @ d # es)"
  shows "{unat (ap_paddr d) + 16 * i..<unat (ap_paddr d) + 16 * i + unat (ap_size d)} \<inter> {b..<b + n} = {}"
proof -
  have pok: "page_ok d" and al: "4096 dvd unat (ap_paddr d)" using ok d by (auto simp: descs_ok_def)
  show ?thesis
  proof (cases "(b, n) \<in> page_objects d")
    case True
    then obtain j where j: "b = unat (ap_paddr d) + 16 * j" "n = unat (ap_size d)" "slot_used (ap_status d) j" "j < 256"
      by (auto simp: page_objects_def)
    with pok have "unat (ap_size d) dvd 16 * j" by (auto simp: page_ok_def)
    moreover have "i \<noteq> j" using j(3) i(3) by blast
    ultimately show ?thesis unfolding j using i(2) by (intro multiples_disjoint) auto
  next
    case False
    with o obtain e where e: "e \<in> set ds \<union> set es" "(b, n) \<in> page_objects e" by (auto simp: objects_def)
    then have u: "in_use e" by (auto simp: page_objects_def)
    have ne: "ap_paddr e \<noteq> ap_paddr d" using ok e(1) u d by (auto simp: descs_ok_def sorted_wrt_append)
    then have ne: "unat (ap_paddr d) \<noteq> unat (ap_paddr e)" by (simp add: word_unat_eq_iff)
    have "page_ok e" "4096 dvd unat (ap_paddr e)" using ok e(1) u by (auto simp: descs_ok_def)
    with page_object_bounds [OF _ e(2)] show ?thesis
      using object_in_page [OF pok i(1,2)] al ne by (intro pages_disjoint [of "unat (ap_paddr d)" "unat (ap_paddr e)"]) auto
  qed
qed

text \<open>Changing the slots of one page.\<close>

lemma descs_ok_update:
  assumes "descs_ok (ds @ d # es)" "page_ok d'" "ap_paddr d' = ap_paddr d" "in_use d"
  shows "descs_ok (ds @ d' # es)"
  using assms by (auto simp: descs_ok_def sorted_wrt_append)

lemma page_objects_take:
  assumes "in_use d" "i < 256" "\<forall>j. slot_used status j \<longleftrightarrow> j = i \<or> slot_used (ap_status d) j"
  shows "page_objects (d\<lparr>ap_status := status, ap_num := n\<rparr>) =
    insert (unat (ap_paddr d) + 16 * i, unat (ap_size d)) (page_objects d)"
  using assms by (auto simp: page_objects_def in_use_def)

lemma page_objects_drop:
  assumes "in_use d" "i < 256" "\<forall>j. slot_used status j \<longleftrightarrow> j \<noteq> i \<and> slot_used (ap_status d) j"
  shows "page_objects (d\<lparr>ap_status := status, ap_num := n\<rparr>) =
    page_objects d - {(unat (ap_paddr d) + 16 * i, unat (ap_size d))}"
proof -
  let ?f = "\<lambda>i. (unat (ap_paddr d) + 16 * i, unat (ap_size d))" and ?U = "\<lambda>st. {j. j < 256 \<and> slot_used st j}"
  have "page_objects (d\<lparr>ap_status := status, ap_num := n\<rparr>) = ?f ` ?U status" "page_objects d = ?f ` ?U (ap_status d)"
    using assms(1) by (auto simp: page_objects_def in_use_def)
  moreover have "?U status = ?U (ap_status d) - {i}" using assms(3) by auto
  moreover have "inj ?f" by (simp add: inj_def)
  ultimately show ?thesis by (simp add: image_set_diff)
qed

text \<open>\<open>find_page\<close> finds a page of the class with room, if there is one.\<close>

lemma room_word:
  assumes "page_ok d"
  shows "ap_num d * ap_size d < PAGE_SIZE \<longleftrightarrow> unat (ap_num d) * unat (ap_size d) < 4096"
proof -
  let ?U = "{j. j < 256 \<and> slot_used (ap_status d) j}"
  have "card ?U \<le> card {..<256::nat}" by (rule card_mono) auto
  then have "unat (ap_num d) \<le> 256" using assms by (simp add: page_ok_def)
  moreover have "unat (ap_size d) \<le> 4096" using assms by (auto simp: page_ok_def fri_size_def)
  ultimately have "unat (ap_num d) * unat (ap_size d) \<le> 256 * 4096" by (intro mult_le_mono)
  then have "unat (ap_num d * ap_size d) = unat (ap_num d) * unat (ap_size d)"
    by (subst unat_mult_lem [symmetric]) simp
  then show ?thesis by (simp add: word_less_nat_alt unat_PAGE_SIZE)
qed

lemma find_page_room:
  assumes rep: "descs_rep s ds" and d: "d \<in> set ds" "ap_size d = c" "unat (ap_num d) * unat c < 4096" and c: "c \<in> set fri_size"
  obtains A a B ds1 d1 ds2 where "find_page c s = Inr a" "a \<noteq> km_tail s" "ds = ds1 @ d1 # ds2"
    "bounded_list (km_descs s) ap_next ap_prev (km_head s) (km_tail s) (A @ a # B)"
    "map (km_descs s) (A @ a # B) = map Some ds" "length A = length ds1" "km_descs s a = Some d1"
    "ap_size d1 = c" "unat (ap_num d1) * unat c < 4096"
proof -
  let ?D = "km_descs s" and ?h = "km_head s" and ?t = "km_tail s"
  let ?P = "\<lambda>(_::ptr) d. c = ap_size d \<and> ap_num d * ap_size d < PAGE_SIZE"
  obtain xs where xs: "bounded_list ?D ap_next ap_prev ?h ?t xs" "map ?D xs = map Some ds" and ok: "descs_ok ds"
    using rep by (auto simp: descs_rep_def)
  obtain hd' where h: "?D ?h = Some hd'" using bounded_list_head [OF xs(1)] by blast
  have room: "?P 0 e \<longleftrightarrow> ap_size e = c \<and> unat (ap_num e) * unat c < 4096" if "e \<in> set ds" for e
    using ok that room_word [of e] class_not_empty [OF c] by (auto simp: descs_ok_def in_use_def)
  obtain A B where w: "xs = A @ B" "walk ?D ap_next ?P ?t (ap_next hd') = Some (Inr (hd (B @ [?t])))"
    "\<forall>p\<in>set A. \<not> holds_at ?D ?P p" "B \<noteq> [] \<longrightarrow> holds_at ?D ?P (hd B)"
    using walk_bounded [OF xs(1) h, of ?P] by blast
  obtain ds1 ds2 where ds: "ds = ds1 @ ds2" "length A = length ds1" "map ?D A = map Some ds1" "map ?D B = map Some ds2"
    using descs_split [of ?D A B ds] xs(2) w(1) by metis
  have "d \<notin> set ds1"
  proof
    assume "d \<in> set ds1"
    then obtain k where "k < length ds1" "ds1 ! k = d" by (auto simp: in_set_conv_nth)
    then have "?D (A ! k) = Some d" "A ! k \<in> set A" using ds(2,3) by (metis length_map nth_map, simp)
    with w(3) room [OF d(1)] d(2,3) show False by (auto simp: holds_at_def)
  qed
  with d(1) ds(1) obtain a B' where B: "B = a # B'" using ds(4) by (cases B) auto
  then obtain d1 ds2' where d1: "ds2 = d1 # ds2'" "?D a = Some d1" using ds(4) by (cases ds2) auto
  have "a \<noteq> ?t" using xs(1) w(1) B by (auto simp: bounded_list_def)
  moreover have "find_page c s = Inr a" using h w(2) B \<open>a \<noteq> ?t\<close> by (simp add: find_page_def)
  moreover have "ap_size d1 = c" "unat (ap_num d1) * unat c < 4096"
    using w(4) B d1 room [of d1] ds(1) by (auto simp: holds_at_def)
  ultimately show thesis using that [of a ds1 d1 ds2' A B'] xs w(1) B ds(1,2) d1 by simp
qed

lemma alloc_in_page:
  assumes rep: "descs_rep s ds" and sz: "0 < unat sz" "unat sz \<le> 4096" and c: "size_class SIZE_NUM sz = Inr c"
    and d: "d \<in> set ds" "ap_size d = c" "unat (ap_num d) * unat c < 4096"
  shows "\<exists>obj s' ds'. alloc pg_get sz flags s = Inr (obj, s') \<and> descs_rep s' ds' \<and>
    objects ds' = insert (unat obj, unat c) (objects ds) \<and> map ap_paddr ds' = map ap_paddr ds \<and>
    (\<forall>(b, n)\<in>objects ds. {unat obj..<unat obj + unat c} \<inter> {b..<b + n} = {}) \<and> s' = s\<lparr>km_descs := km_descs s'\<rparr>"
proof -
  have cls: "c \<in> set fri_size" using size_class_spec [OF sz(2)] c by auto
  obtain A a B ds1 e ds2 where f: "find_page c s = Inr a" "a \<noteq> km_tail s" "ds = ds1 @ e # ds2"
    "bounded_list (km_descs s) ap_next ap_prev (km_head s) (km_tail s) (A @ a # B)"
    "map (km_descs s) (A @ a # B) = map Some ds" "length A = length ds1" "km_descs s a = Some e"
    "ap_size e = c" "unat (ap_num e) * unat c < 4096"
    by (rule find_page_room [OF rep d cls]) blast
  have use: "in_use e" using f(8) class_not_empty [OF cls] by (simp add: in_use_def)
  have ok: "descs_ok (ds1 @ e # ds2)" using rep f(3) by (simp add: descs_rep_def)
  then have pok: "page_ok e" and addr: "unat (ap_paddr e) + 4096 < 2 ^ 32" using use by (auto simp: descs_ok_def)
  obtain status i where g: "get_space (ap_status e) c = Inr (status, of_nat (16 * i))" "i < 256" "unat c dvd 16 * i"
    "\<not> slot_used (ap_status e) i" "length status = 32" "\<forall>j. slot_used status j \<longleftrightarrow> j = i \<or> slot_used (ap_status e) j"
    using get_space_page [OF pok] f(8,9) by auto
  let ?e = "e\<lparr>ap_status := status, ap_num := ap_num e + 1\<rparr>" and ?obj = "ap_paddr e + of_nat (16 * i)"
  let ?s = "s\<lparr>km_descs := (km_descs s)(a \<mapsto> ?e)\<rparr>" and ?ds = "ds1 @ ?e # ds2"
  have obj: "unat ?obj = unat (ap_paddr e) + 16 * i"
  proof -
    have u: "unat (of_nat (16 * i) :: u32) = 16 * i" by (rule unat_of_nat_u32) (use g(2) in simp)
    have "unat ?obj = unat (ap_paddr e) + unat (of_nat (16 * i) :: u32)"
      by (rule unat_add_lem [THEN iffD1]) (use addr g(2) in \<open>simp only: u; simp\<close>)
    then show ?thesis unfolding u .
  qed
  have "alloc pg_get sz flags s = Inr (?obj, ?s)"
    using sz c f(1,2,7,8) g(1) class_not_empty [OF cls]
    by (auto simp: alloc_def word_less_nat_alt unat_PAGE_SIZE unat_eq_0 [symmetric])
  moreover have "page_ok ?e" using page_ok_take [OF pok g(2) _ g(4,5,6)] g(3) f(8) by simp
  then have "descs_rep ?s ?ds"
    using descs_ok_update [OF ok _ _ use, of ?e]
    by (intro descs_rep_update [OF f(4) f(5) [unfolded f(3)] f(6)]) simp_all
  moreover have "objects ?ds = insert (unat ?obj, unat c) (objects ds)"
    unfolding obj f(3) using page_objects_take [OF use g(2,6)] f(8) by simp
  moreover have "\<forall>(b, n)\<in>objects ds. {unat ?obj..<unat ?obj + unat c} \<inter> {b..<b + n} = {}"
    unfolding obj using slot_disjoint [OF ok use g(2) _ g(4)] g(3) f(3,8) by blast
  ultimately show ?thesis using f(3) by (intro exI [of _ ?obj] exI [of _ ?s] exI [of _ ?ds]) simp
qed

lemma page_of_object:
  assumes rep: "descs_rep s ds" and o: "(unat obj, n) \<in> objects ds"
  obtains A a B ds1 e ds2 i where "page_of obj s = Inr a" "a \<noteq> km_tail s" "ds = ds1 @ e # ds2"
    "bounded_list (km_descs s) ap_next ap_prev (km_head s) (km_tail s) (A @ a # B)"
    "map (km_descs s) (A @ a # B) = map Some ds" "length A = length ds1" "km_descs s a = Some e"
    "in_use e" "unat (ap_size e) = n" "unat obj = unat (ap_paddr e) + 16 * i" "i < 256" "slot_used (ap_status e) i"
    "(unat obj, n) \<notin> objects ds1" "(unat obj, n) \<notin> objects ds2"
proof -
  let ?D = "km_descs s" and ?h = "km_head s" and ?t = "km_tail s"
  let ?P = "\<lambda>(_::ptr) d. obj \<ge> ap_paddr d \<and> obj < ap_paddr d + PAGE_SIZE"
  obtain xs where xs: "bounded_list ?D ap_next ap_prev ?h ?t xs" "map ?D xs = map Some ds" and ok: "descs_ok ds"
    using rep by (auto simp: descs_rep_def)
  obtain hd' where h: "?D ?h = Some hd'" using bounded_list_head [OF xs(1)] by blast
  have P: "?P 0 d \<longleftrightarrow> unat obj div 4096 * 4096 = unat (ap_paddr d)" if "d \<in> set ds" for d
    using ok that by (intro in_page_iff) (auto simp: descs_ok_def)
  obtain e where e: "e \<in> set ds" "(unat obj, n) \<in> page_objects e" using o by (auto simp: objects_def)
  have use: "in_use e" using e(2) by (auto simp: page_objects_def)
  have Pe: "unat obj div 4096 * 4096 = unat (ap_paddr e)"
    using page_objects_of [OF e(2)] ok e(1) use by (auto simp: descs_ok_def)
  obtain A B where w: "xs = A @ B" "walk ?D ap_next ?P ?t (ap_next hd') = Some (Inr (hd (B @ [?t])))"
    "\<forall>p\<in>set A. \<not> holds_at ?D ?P p" "B \<noteq> [] \<longrightarrow> holds_at ?D ?P (hd B)"
    using walk_bounded [OF xs(1) h, of ?P] by blast
  obtain ds1 ds2 where ds: "ds = ds1 @ ds2" "length A = length ds1" "map ?D A = map Some ds1" "map ?D B = map Some ds2"
    using descs_split [of ?D A B ds] xs(2) w(1) by metis
  have before: "unat obj div 4096 * 4096 \<noteq> unat (ap_paddr d)" if "d \<in> set ds1" for d
  proof -
    from that obtain k where "k < length ds1" "ds1 ! k = d" by (auto simp: in_set_conv_nth)
    then have "?D (A ! k) = Some d" "A ! k \<in> set A" using ds(2,3) by (metis length_map nth_map, simp)
    with w(3) P [of d] that ds(1) show ?thesis by (auto simp: holds_at_def)
  qed
  with e(1) ds(1) Pe have "e \<in> set ds2" by auto
  then obtain a B' d1 ds2' where B: "B = a # B'" "ds2 = d1 # ds2'" "?D a = Some d1"
    using ds(4) by (cases B; cases ds2) auto
  have P1: "unat obj div 4096 * 4096 = unat (ap_paddr d1)" using w(4) B P [of d1] ds(1) by (auto simp: holds_at_def)
  have later: "unat obj div 4096 * 4096 \<noteq> unat (ap_paddr d)" if "d \<in> set ds2'" "in_use d" for d
    using ok that unfolding ds(1) B(2) P1 by (auto simp: descs_ok_def sorted_wrt_append word_unat_eq_iff)
  then have d1: "d1 = e" using \<open>e \<in> set ds2\<close> B(2) Pe use by auto
  have no: "(unat obj, n) \<notin> page_objects d" if "d \<in> set ds1 \<union> set ds2'" for d
    using page_objects_of [of "unat obj" n d] ok that before later unfolding ds(1) B(2)
    by (auto simp: descs_ok_def page_objects_def)
  have "a \<noteq> ?t" using xs(1) w(1) B(1) by (auto simp: bounded_list_def)
  moreover have "page_of obj s = Inr a" using h w(2) B(1) by (simp add: page_of_def)
  moreover obtain i where "n = unat (ap_size e)" "unat obj = unat (ap_paddr e) + 16 * i" "i < 256" "slot_used (ap_status e) i"
    using e(2) by (auto simp: page_objects_def)
  moreover have "(unat obj, n) \<notin> objects ds1" "(unat obj, n) \<notin> objects ds2'" using no by (auto simp: objects_def)
  ultimately show thesis using that [of a ds1 e ds2' A B' i] xs w(1) B ds(1,2) d1 use by simp
qed

lemma same_page:
  assumes "descs_ok (ds1 @ e # ds2)" "in_use e" "(b, m) \<in> objects (ds1 @ e # ds2)"
  shows "b div 4096 * 4096 = unat (ap_paddr e) \<longleftrightarrow> (b, m) \<in> page_objects e"
proof -
  obtain d where d: "d \<in> set (ds1 @ e # ds2)" "(b, m) \<in> page_objects d" using assms(3) by (auto simp: objects_def)
  then have u: "in_use d" by (auto simp: page_objects_def)
  then have ok: "page_ok d" "4096 dvd unat (ap_paddr d)" "page_ok e" "4096 dvd unat (ap_paddr e)"
    using assms(1,2) d(1) by (auto simp: descs_ok_def)
  have b: "b div 4096 * 4096 = unat (ap_paddr d)" by (rule page_objects_of [OF d(2) ok(1,2)])
  have "d = e \<or> ap_paddr d \<noteq> ap_paddr e"
    using assms(1,2) d(1) u by (auto simp: descs_ok_def sorted_wrt_append)
  with b d(2) page_objects_of [OF _ ok(3,4)] show ?thesis by (auto simp: word_unat_eq_iff)
qed

lemma page_objects_empty:
  assumes "page_ok d" "in_use d"
  shows "ap_num d = 0 \<longleftrightarrow> page_objects d = {}"
proof -
  have "finite {i. i < 256 \<and> slot_used (ap_status d) i}" by simp
  then have "ap_num d = 0 \<longleftrightarrow> {i. i < 256 \<and> slot_used (ap_status d) i} = {}"
    using assms(1) by (simp add: page_ok_def unat_eq_0 [symmetric])
  with assms(2) show ?thesis by (auto simp: page_objects_def)
qed

lemma free_object:
  assumes rep: "descs_rep s ds" and o: "(unat obj, n) \<in> objects ds" "obj \<noteq> NULL"
  shows "\<exists>s' ds'. descs_rep s' ds' \<and> objects ds' = objects ds - {(unat obj, n)} \<and>
    map ap_paddr ds' = map ap_paddr ds \<and> s' = s\<lparr>km_descs := km_descs s'\<rparr> \<and>
    free pg_put obj s =
      (if \<exists>(b, m)\<in>objects ds - {(unat obj, n)}. b div 4096 = unat obj div 4096 then Inr s'
       else pg_put (ucast (kva2pa (of_nat (unat obj div 4096 * 4096)))) s')"
proof -
  obtain A a B ds1 e ds2 i where f: "page_of obj s = Inr a" "a \<noteq> km_tail s" "ds = ds1 @ e # ds2"
    "bounded_list (km_descs s) ap_next ap_prev (km_head s) (km_tail s) (A @ a # B)"
    "map (km_descs s) (A @ a # B) = map Some ds" "length A = length ds1" "km_descs s a = Some e"
    "in_use e" "unat (ap_size e) = n" "unat obj = unat (ap_paddr e) + 16 * i" "i < 256" "slot_used (ap_status e) i"
    "(unat obj, n) \<notin> objects ds1" "(unat obj, n) \<notin> objects ds2"
    by (rule page_of_object [OF rep o(1)]) blast
  have ok: "descs_ok (ds1 @ e # ds2)" using rep f(3) by (simp add: descs_rep_def)
  then have pok: "page_ok e" and al: "4096 dvd unat (ap_paddr e)" using f(8) by (auto simp: descs_ok_def)
  obtain status where st: "free_space (ap_status e) i = Inr status" "length status = 32"
    "\<forall>j. slot_used status j \<longleftrightarrow> j \<noteq> i \<and> slot_used (ap_status e) j"
    using free_space_spec [of "ap_status e" i] pok f(11) by (auto simp: page_ok_def)
  let ?e = "e\<lparr>ap_status := status, ap_num := ap_num e - 1\<rparr>"
  let ?d = "if ap_num e - 1 = 0 then ?e\<lparr>ap_size := PG_EMPTY\<rparr> else ?e"
  let ?s = "s\<lparr>km_descs := (km_descs s)(a \<mapsto> ?d)\<rparr>" and ?ds = "ds1 @ ?d # ds2"
  have e: "page_ok ?e" "page_objects ?e = page_objects e - {(unat obj, n)}" "in_use ?e"
    using page_ok_drop [OF pok f(11,12) st(2,3)] page_objects_drop [OF f(8,11) st(3), of "ap_num e - 1"] f(8-10)
    by (simp_all add: in_use_def)
  have empty: "ap_num e - 1 = 0 \<longleftrightarrow> page_objects e - {(unat obj, n)} = {}"
    using page_objects_empty [OF e(1,3)] e(2) by simp
  have d: "descs_ok ?ds" "page_objects ?d = page_objects e - {(unat obj, n)}"
    using descs_ok_update [OF ok e(1) _ f(8)] ok e(2) empty
    by (auto simp: descs_ok_def sorted_wrt_append in_use_def page_objects_def)
  have page: "unat obj div 4096 * 4096 = unat (ap_paddr e)" using f(10,11) al by (auto simp: dvd_def)
  have pos: "unat (obj - ap_paddr e) div BIT_SIZE = i"
    using f(10) by (simp add: unat_sub word_le_nat_alt BIT_SIZE_def)
  have cond: "(\<exists>(b, m)\<in>objects ds - {(unat obj, n)}. b div 4096 = unat obj div 4096) \<longleftrightarrow> ap_num e - 1 \<noteq> 0"
  proof -
    have "(b, m) \<in> objects ds \<and> b div 4096 = unat obj div 4096 \<longleftrightarrow> (b, m) \<in> page_objects e" for b m
      using same_page [OF ok f(8), of b m] page f(3) by auto
    then show ?thesis unfolding empty by auto
  qed
  have "free pg_put obj s =
    (if ap_num e - 1 = 0 then pg_put (ucast (kva2pa (ap_paddr e))) ?s else Inr ?s)"
    using o(2) f(1,2,7) pos st(1) by (simp add: free_def Let_def)
  moreover have "descs_rep ?s ?ds"
    by (rule descs_rep_update [OF f(4) f(5) [unfolded f(3)] f(6) _ _ d(1)]) simp_all
  moreover have "objects ?ds = objects ds - {(unat obj, n)}" using f(3,13,14) d(2) by auto
  moreover have "of_nat (unat obj div 4096 * 4096) = ap_paddr e" unfolding page by simp
  ultimately show ?thesis unfolding cond using f(3)
    by (intro exI [of _ ?s] exI [of _ ?ds]) (simp only: kmem.simps map_append list.map; simp)
qed

lemma obj_size_object:
  assumes "descs_rep s ds" "(unat obj, n) \<in> objects ds"
  shows "obj_size obj s = Inr (of_nat n)"
  by (rule page_of_object [OF assms]) (auto simp: obj_size_def)

section \<open>Properties of the object allocator\<close>

text \<open>The status bytes of a page with the objects 0 and 1 of class 32, for the witnesses.\<close>

definition page_example :: alloced_page where
  "page_example = \<lparr>ap_prev = 0x100, ap_next = 0x200, ap_paddr = 0x80001000, ap_size = 0x20, ap_num = 2,
     ap_status = 5 # replicate 31 0\<rparr>"

definition kmem_example :: kmem where
  "kmem_example = \<lparr>pa_blocks = Map.empty, pa_head = 0, pa_tail = 0, pa_free_size = 0, km_top = 0, km_bottom = 0,
     km_ssize = 0, km_descs = [0x100 \<mapsto> page_example\<lparr>ap_prev := 0, ap_next := 0x300\<rparr>, 0x200 \<mapsto> page_example\<lparr>ap_prev := 0x300, ap_next := 0\<rparr>,
       0x300 \<mapsto> page_example], km_head = 0x100, km_tail = 0x200, km_now_plain_page = 0x80002000, km_offset = 4072\<rparr>"

lemma slots_example: "slot_used (5 # replicate 31 0) i \<longleftrightarrow> i = 0 \<or> i = 2" if "i < 256" for i
proof (cases "i < 8")
  case True
  then have "i = 0 \<or> i = 1 \<or> i = 2 \<or> i = 3 \<or> i = 4 \<or> i = 5 \<or> i = 6 \<or> i = 7" by auto
  then show ?thesis by (auto simp: slot_used_def bit_simps)
next
  case False
  then have "0 < i div 8" "i div 8 < 32" using that by auto
  then obtain k where "i div 8 = Suc k" "k < 31" by (cases "i div 8") auto
  with False show ?thesis by (auto simp: slot_used_def)
qed

lemma example_ok: "page_ok page_example" "in_use page_example"
proof -
  have "{i. i < 256 \<and> slot_used (5 # replicate 31 0) i} = {0, 2}" using slots_example by auto
  then show "page_ok page_example" using slots_example
    by (auto simp: page_ok_def page_example_def fri_size_def)
  show "in_use page_example" by (simp add: in_use_def page_example_def PG_EMPTY_def)
qed

lemma example_rep: "descs_rep kmem_example [page_example]"
proof -
  have "bounded_list (km_descs kmem_example) ap_next ap_prev 0x100 0x200 [0x300]"
    by (simp add: bounded_list_def chain_def kmem_example_def page_example_def)
  moreover have "descs_ok [page_example]" using example_ok by (simp add: descs_ok_def) (simp add: page_example_def dvd_eq_mod_eq_0)
  ultimately show ?thesis unfolding descs_rep_def
    by (intro conjI exI [of _ "[0x300]"]) (simp_all add: kmem_example_def)
qed

lemma example_objects: "objects [page_example] = {(0x80001000, 32), (0x80001020, 32)}"
  using example_ok(2) slots_example by (auto simp: objects_def page_objects_def page_example_def)

text \<open>
  C3. Allocation from a page with room. The state holds a well-formed list of pages whose objects
  are \<open>objects ds\<close>; when some page of the class of the size has a free slot, \<open>alloc\<close> returns an
  object of that class that overlaps none of the objects in use and adds exactly it, keeps the
  list well-formed, and changes nothing but the descriptors; no page is asked for.
\<close>

theorem alloc_fresh:
  assumes "descs_rep s ds" "0 < unat sz" "unat sz \<le> 4096" "size_class SIZE_NUM sz = Inr c"
    and "d \<in> set ds" "ap_size d = c" "unat (ap_num d) * unat c < 4096"
  shows "\<exists>obj s' ds'. alloc pg_get sz flags s = Inr (obj, s') \<and> descs_rep s' ds' \<and> sz \<le> c \<and>
    objects ds' = insert (unat obj, unat c) (objects ds) \<and>
    (\<forall>(b, n)\<in>objects ds. {unat obj..<unat obj + unat c} \<inter> {b..<b + n} = {}) \<and> s' = s\<lparr>km_descs := km_descs s'\<rparr>"
proof -
  have "sz \<le> c" using size_class_spec [OF assms(3)] assms(4) by auto
  with alloc_in_page [OF assms, of pg_get flags] show ?thesis by blast
qed

theorem alloc_fresh_witness:
  "\<exists>obj s' ds'. alloc (\<lambda>s. Inl Panic) 20 0 kmem_example = Inr (obj, s') \<and> descs_rep s' ds' \<and>
     objects ds' = insert (unat obj, 32) {(0x80001000, 32), (0x80001020, 32)}"
proof -
  have "size_class SIZE_NUM 20 = Inr 0x20" by (simp add: size_class_eq)
  moreover have "ap_size page_example = 0x20" "unat (ap_num page_example) * unat (0x20::u32) < 4096" by (simp_all add: page_example_def)
  ultimately show ?thesis
    using alloc_fresh [OF example_rep, of 20 "0x20" page_example "\<lambda>s. Inl Panic" 0] example_objects by auto
qed

text \<open>
  C4. Releasing an object. \<open>free\<close> of the address of an object in use removes exactly that object
  and keeps the list well-formed. The page goes back to the page allocator exactly when no other
  object of it is left; the state handed to \<^verbatim>\<open>pgfree\<close> is already the final one.
\<close>

theorem free_exact:
  assumes "descs_rep s ds" "(unat obj, n) \<in> objects ds" "obj \<noteq> NULL"
  shows "\<exists>s' ds'. descs_rep s' ds' \<and> objects ds' = objects ds - {(unat obj, n)} \<and> s' = s\<lparr>km_descs := km_descs s'\<rparr> \<and>
    free pg_put obj s =
      (if \<exists>(b, m)\<in>objects ds - {(unat obj, n)}. b div 4096 = unat obj div 4096 then Inr s'
       else pg_put (ucast (kva2pa (of_nat (unat obj div 4096 * 4096)))) s')"
  using free_object [OF assms, of pg_put] by blast

theorem free_exact_witness:
  "\<exists>s' ds'. descs_rep s' ds' \<and> objects ds' = {(0x80001020, 32)} \<and> free (\<lambda>a s. Inl Panic) 0x80001000 kmem_example = Inr s'"
proof -
  have u: "unat (0x80001000 :: ptr) = 0x80001000" by simp
  have "(unat (0x80001000 :: ptr), 32) \<in> objects [page_example]" unfolding example_objects u by simp
  from free_exact [OF example_rep this, of "\<lambda>a s. Inl Panic"] show ?thesis unfolding example_objects u by auto
qed

text \<open>
  C37. The first object of a new plain page is handed out twice: when the current page has no room,
  \<open>get_plain_object\<close> takes a new page and returns its start without advancing the offset, so the
  next call for an object of that size returns the same address again. Two page descriptors then
  share one memory.
\<close>

theorem plain_object_twice:
  assumes "unat sz \<le> 4096" "km_offset s + int (unat sz) > 4096" "pg_get s = Inr (pa, s1)" "pa \<noteq> - 1" "pa2kva pa \<noteq> NULL"
  shows "\<exists>s2 s3. get_plain_object pg_get sz s = Inr (pa2kva pa, s2) \<and> get_plain_object pg_get sz s2 = Inr (pa2kva pa, s3)"
proof -
  have "int (unat sz) \<le> int 4096" using assms(1) by (simp only: of_nat_le_iff)
  moreover have "\<not> sz > PAGE_SIZE" using assms(1) by (simp add: word_less_nat_alt unat_PAGE_SIZE)
  ultimately show ?thesis using assms(2-5) by (simp add: get_plain_object_def new_plain_page_def Let_def)
qed

theorem plain_object_twice_witness:
  "\<exists>s2 s3. get_plain_object (\<lambda>s. Inr (0x5000, s)) 52 kmem_example = Inr (0x80005000, s2) \<and>
     get_plain_object (\<lambda>s. Inr (0x5000, s)) 52 s2 = Inr (0x80005000, s3)"
  using plain_object_twice [of 52 kmem_example "\<lambda>s. Inr (0x5000, s)" "0x5000" kmem_example]
  by (simp add: kmem_example_def pa2kva_def KERN_BASE_def)

end
