(* ===== verification/Kmem.thy ===== *)
theory Kmem
  imports Simple
begin

text \<open>
  The memory allocators together. The page allocator takes its nodes from the object allocator
  and the object allocator its pages from the page allocator; at boot the bootstrap allocator
  breaks the circle (\<^verbatim>\<open>allocator_init\<close> in \<^verbatim>\<open>kern/init/init.c\<close>). The bootstrap allocator keeps the
  contract of \<open>node_allocator\<close>, so the page allocator refines its specification on it.
\<close>

section \<open>Nodes from an object allocator\<close>

text \<open>Memory for a node: where the allocator returns it, a node with unknown contents begins to exist.\<close>

definition fresh_block :: "ptr \<Rightarrow> 'a kmem_scheme \<Rightarrow> 'a kmem_scheme" where
  "fresh_block p s =
     (case pa_blocks s p of None \<Rightarrow>
        s\<lparr>pa_blocks := (pa_blocks s)(p \<mapsto> \<lparr>mb_prev = 0, mb_next = 0, mb_paddr = 0, mb_size = 0, mb_flags = 0\<rparr>)\<rparr>
      | Some _ \<Rightarrow> s)"

definition kmalloc_block ::
  "'a kmem_scheme simple_allocator \<Rightarrow> 'a kmem_scheme memset_fn \<Rightarrow> 'a kmem_scheme \<Rightarrow> (ptr \<times> 'a kmem_scheme) res" where
  "kmalloc_block tbl memset s =
     and_then (kmalloc tbl memset sizeof_mem_block 0 s) (\<lambda>(p, s). Inr (p, if p = NULL then s else fresh_block p s))"

text \<open>The table that \<^verbatim>\<open>page_allocator_init\<close> registers, over a given object allocator.\<close>

definition palloc_table ::
  "'a kmem_scheme simple_allocator \<Rightarrow> 'a kmem_scheme memset_fn \<Rightarrow> 'a kmem_scheme page_allocator" where
  "palloc_table tbl memset =
     \<lparr>pal_alloc = palloc_alloc (kfree tbl), pal_free = palloc_free (kmalloc_block tbl memset) (kfree tbl),
      pal_get_free = palloc_get_free\<rparr>"

section \<open>The bootstrap allocator provides nodes\<close>

text \<open>
  The region ends below the last address, the memory handed out is below \<^verbatim>\<open>top\<close>, and no node lies
  in the rest of the region.
\<close>

definition boot_ok :: "'a kmem_scheme \<Rightarrow> bool" where
  "boot_ok s \<longleftrightarrow> 0 < unat (km_bottom s) \<and> km_bottom s \<le> km_top s \<and>
     unat (km_top s) \<le> unat (km_bottom s) + unat (km_ssize s) \<and>
     unat (km_bottom s) + unat (km_ssize s) + 4096 < 2 ^ 32 \<and>
     (\<forall>p\<in>dom (pa_blocks s). p < km_top s \<or> unat (km_bottom s) + unat (km_ssize s) \<le> unat p)"

lemma simple_alloc_boot:
  assumes "boot_ok s" "unat sz \<le> 4096"
  shows "simple_alloc sz flags s =
    (if unat (km_top s) + unat sz > unat (km_bottom s) + unat (km_ssize s) then Inr (NULL, s)
     else Inr (km_top s, s\<lparr>km_top := km_top s + sz\<rparr>))" "unat (km_top s + sz) = unat (km_top s) + unat sz"
proof -
  have a: "unat (km_bottom s + km_ssize s) = unat (km_bottom s) + unat (km_ssize s)"
    "unat (km_top s + sz) = unat (km_top s) + unat sz"
    using assms by (auto simp: boot_ok_def intro!: unat_add_lem [THEN iffD1])
  then show "simple_alloc sz flags s =
    (if unat (km_top s) + unat sz > unat (km_bottom s) + unat (km_ssize s) then Inr (NULL, s)
     else Inr (km_top s, s\<lparr>km_top := km_top s + sz\<rparr>))"
    by (simp add: simple_alloc_def word_less_nat_alt)
  show "unat (km_top s + sz) = unat (km_top s) + unat sz" by (rule a)
qed

lemma kmalloc_block_boot:
  assumes "boot_ok s"
  shows "kmalloc_block simple1 memset s =
    (if unat (km_top s) + 32 > unat (km_bottom s) + unat (km_ssize s) then Inr (NULL, s)
     else Inr (km_top s, fresh_block (km_top s) (s\<lparr>km_top := km_top s + 32\<rparr>)))"
proof -
  have "km_top s \<noteq> NULL" using assms by (auto simp: boot_ok_def word_le_nat_alt)
  with simple_alloc_boot(1) [OF assms, of 32 0] show ?thesis
    by (simp add: kmalloc_block_def kmalloc_plain sizeof_mem_block_def simple1_def)
qed

text \<open>Neither of the two operations changes what a larger state holds besides; \<open>c\<close> is that part.\<close>

interpretation boot: node_allocator "kmalloc_block simple1 memset" "kfree simple1" "\<lambda>s. boot_ok s \<and> kmem.more s = c"
  for memset :: "'a kmem_scheme memset_fn" and c :: 'a
proof
  fix s :: "'a kmem_scheme"
  assume ok': "boot_ok s \<and> kmem.more s = c"
  then have ok: "boot_ok s" by simp
  show "\<exists>p s'. kmalloc_block simple1 memset s = Inr (p, s') \<and> (boot_ok s' \<and> kmem.more s' = c) \<and> same_vars s s' \<and>
      (if p = NULL then pa_blocks s' = pa_blocks s
       else p \<notin> dom (pa_blocks s) \<and> (\<exists>b. pa_blocks s' = (pa_blocks s)(p \<mapsto> b)))"
  proof (cases "unat (km_top s) + 32 > unat (km_bottom s) + unat (km_ssize s)")
    case True
    with ok ok' show ?thesis by (simp add: kmalloc_block_boot same_vars_def)
  next
    case False
    have new: "pa_blocks s (km_top s) = None" using ok False by (auto simp: boot_ok_def domIff)
    have t: "unat (km_top s + 32) = unat (km_top s) + 32" using simple_alloc_boot(2) [OF ok, of 32] by simp
    have "boot_ok (fresh_block (km_top s) (s\<lparr>km_top := km_top s + 32\<rparr>))"
    proof -
      have "p < km_top s + 32 \<or> unat (km_bottom s) + unat (km_ssize s) \<le> unat p"
        if "p = km_top s \<or> p \<in> dom (pa_blocks s)" for p
      proof (cases "p = km_top s")
        case False
        with that ok have "unat p < unat (km_top s) \<or> unat (km_bottom s) + unat (km_ssize s) \<le> unat p"
          unfolding boot_ok_def word_less_nat_alt by blast
        with t show ?thesis by (auto simp: word_less_nat_alt)
      qed (use t in \<open>simp add: word_less_nat_alt\<close>)
      moreover have "dom (pa_blocks (fresh_block (km_top s) (s\<lparr>km_top := km_top s + 32\<rparr>))) = insert (km_top s) (dom (pa_blocks s))"
        using new by (simp add: fresh_block_def)
      ultimately show ?thesis using ok False new t by (auto simp: boot_ok_def fresh_block_def word_le_nat_alt)
    qed
    moreover have "kmem.more (fresh_block (km_top s) (s\<lparr>km_top := km_top s + 32\<rparr>)) = c"
      using ok' new by (simp add: fresh_block_def)
    moreover have "km_top s \<noteq> NULL" using ok by (auto simp: boot_ok_def word_le_nat_alt)
    ultimately show ?thesis using kmalloc_block_boot [OF ok, of memset] False new
      by (auto simp: fresh_block_def same_vars_def)
  qed
next
  fix s :: "'a kmem_scheme" and p
  assume "boot_ok s \<and> kmem.more s = c" "p \<in> dom (pa_blocks s)"
  then show "\<exists>s'. kfree simple1 p s = Inr s' \<and> (boot_ok s' \<and> kmem.more s' = c) \<and> same_vars s s' \<and>
      (\<forall>q. q \<noteq> p \<longrightarrow> pa_blocks s' q = pa_blocks s q)"
    by (simp add: kfree_def simple1_def simple_free_def same_vars_def)
qed (simp_all add: boot_ok_def)

section \<open>The two allocators on each other\<close>

text \<open>
  After boot a call of one allocator can call the other, which can call the first again; the fuel
  bounds the depth of the calls, and running out of it is \<open>NoReturn\<close>. \<open>p0\<close> is the uninitialised
  address field in \<^verbatim>\<open>pgalloc\<close>.
\<close>

primrec object_table :: "'a kmem_scheme memset_fn \<Rightarrow> u64 \<Rightarrow> nat \<Rightarrow> 'a kmem_scheme simple_allocator" where
  "object_table memset p0 0 =
     \<lparr>sa_alloc = (\<lambda>sz flags s. Inl NoReturn), sa_free = (\<lambda>obj s. Inl NoReturn), sa_size = (\<lambda>obj s. Inl NoReturn)\<rparr>"
| "object_table memset p0 (Suc n) =
     (let tbl = palloc_table (object_table memset p0 n) memset in simple_table (pgalloc tbl memset p0) (pgfree tbl memset))"

definition LOWRAM_TOP :: u32 where
  "LOWRAM_TOP = 0x10000000"

text \<open>\<^verbatim>\<open>sizeof(struct pages)\<close>; the descriptor is filled in and passed on at once.\<close>

definition sizeof_pages :: u32 where
  "sizeof_pages = 24"

definition init_free_pages ::
  "'a kmem_scheme simple_allocator \<Rightarrow> 'a kmem_scheme memset_fn \<Rightarrow> ptr \<Rightarrow> 'a kmem_scheme \<Rightarrow> 'a kmem_scheme res" where
  "init_free_pages tbl memset kern_end s =
     (let kend = ALIGN_ABOVE (kva2pa kern_end) PAGE_SIZE in
      and_then (kmalloc tbl memset sizeof_pages 0 s) (\<lambda>(p, s).
      if p = NULL then Inl Fault
      else free_pages (palloc_table tbl memset) memset
             \<lparr>pg_paddr = ucast kend, pg_size = ucast (LOWRAM_TOP - kend), pg_flags = GFP_UNSAFE\<rparr> s))"

text \<open>
  \<^verbatim>\<open>allocator_init\<close>: \<open>h\<close>, \<open>t\<close> and \<open>h'\<close>, \<open>t'\<close> are the static nodes of the two allocators. The final
  table is the one the system runs on.
\<close>

definition allocator_init ::
  "'a kmem_scheme memset_fn \<Rightarrow> u64 \<Rightarrow> nat \<Rightarrow> ptr \<Rightarrow> ptr \<Rightarrow> ptr \<Rightarrow> ptr \<Rightarrow> ptr \<Rightarrow> ptr \<Rightarrow> 'a kmem_scheme \<Rightarrow>
   ('a kmem_scheme simple_allocator \<times> 'a kmem_scheme) res" where
  "allocator_init memset p0 fuel simple1_start kern_end h t h' t' s =
     (let (tbl, s) = simple_allocator_bootstrap simple1_start 0x8000 s in
      and_then (page_allocator_init h t s) (\<lambda>s.
      and_then (init_free_pages tbl memset kern_end s) (\<lambda>s.
      let old = get_simple_allocator (Some tbl) tbl in
      and_then (simple_allocator_init (pgalloc (palloc_table tbl memset) memset p0) h' t' s) (\<lambda>s.
      let tbl = object_table memset p0 fuel in
      and_then (page_allocator_move (kmalloc_block tbl memset) (sa_free (the old)) s) (\<lambda>(_, s).
      Inr (tbl, s))))))"

section \<open>Properties of the page allocator\<close>

lemma blocks_rep_separated: "blocks_rep s bs \<Longrightarrow> separated 0 bs"
  by (simp add: blocks_rep_def)

text \<open>A state with one free block of two pages, for the witnesses.\<close>

definition boot_example :: kmem where
  "boot_example = \<lparr>pa_blocks = [0x100 \<mapsto> \<lparr>mb_prev = 0, mb_next = 0x1000, mb_paddr = 0, mb_size = 0, mb_flags = 0\<rparr>,
       0x200 \<mapsto> \<lparr>mb_prev = 0x1000, mb_next = 0, mb_paddr = 0, mb_size = 0, mb_flags = 0\<rparr>,
       0x1000 \<mapsto> \<lparr>mb_prev = 0x100, mb_next = 0x200, mb_paddr = 0x5000, mb_size = 0x2000, mb_flags = 0\<rparr>],
     pa_head = 0x100, pa_tail = 0x200, pa_free_size = 0x2000, km_top = 0x1020, km_bottom = 0x1000, km_ssize = 0x8000,
     km_descs = Map.empty, km_head = 0, km_tail = 0, km_now_plain_page = 0, km_offset = 0\<rparr>"

lemma boot_example_ok: "boot_ok boot_example" "blocks_rep boot_example [(0x5000, 0x2000)]"
proof -
  show "boot_ok boot_example" by (auto simp: boot_ok_def boot_example_def word_less_nat_alt word_le_nat_alt)
  have "block_list (pa_blocks boot_example) 0x100 0x200 [0x1000]"
    by (simp add: bounded_list_def chain_def boot_example_def)
  then show "blocks_rep boot_example [(0x5000, 0x2000)]" unfolding blocks_rep_def
    by (intro conjI exI [of _ "[0x1000]"]) (simp_all add: boot_example_def)
qed

text \<open>
  C1. \<open>palloc_alloc\<close> implements first fit. On a state that holds the free blocks \<open>bs\<close>, for a size
  that is a whole number of pages, it fails without any change when no block is large enough, and
  otherwise returns the start of the first block that is, leaving the blocks of the
  specification: the region was free, it is free no more and everything else is as before.
\<close>

theorem palloc_alloc_refines:
  assumes "boot_ok s" "blocks_rep s bs" "4096 dvd unat (pg_size pages)"
  shows "case take_fit (unat (pg_size pages)) bs of
      None \<Rightarrow> palloc_alloc (kfree simple1) pages s = Inr (- 1, pages, s) \<and> (\<forall>b\<in>set bs. snd b < unat (pg_size pages))
    | Some (r, bs') \<Rightarrow> \<exists>s'. palloc_alloc (kfree simple1) pages s = Inr (0, pages\<lparr>pg_paddr := of_nat r\<rparr>, s') \<and>
        boot_ok s' \<and> blocks_rep s' bs' \<and> {r..<r + unat (pg_size pages)} \<subseteq> free_mem bs \<and>
        free_mem bs' = free_mem bs - {r..<r + unat (pg_size pages)}"
proof (cases "take_fit (unat (pg_size pages)) bs")
  case None
  with boot.palloc_alloc_spec [OF conjI [OF assms(1) refl] assms(2,3)] show ?thesis using take_fit_None [THEN iffD1, OF None] by simp
next
  case (Some a)
  then obtain r bs' where a: "take_fit (unat (pg_size pages)) bs = Some (r, bs')" by (cases a) simp
  with boot.palloc_alloc_spec [OF conjI [OF assms(1) refl] assms(2,3)] show ?thesis
    using take_fit_Some [OF blocks_rep_separated [OF assms(2)] a] by auto
qed

theorem palloc_alloc_refines_witness:
  "\<exists>s'. palloc_alloc (kfree simple1) \<lparr>pg_paddr = 0, pg_size = 0x1000, pg_flags = 0\<rparr> boot_example =
     Inr (0, \<lparr>pg_paddr = 0x5000, pg_size = 0x1000, pg_flags = 0\<rparr>, s') \<and> blocks_rep s' [(0x6000, 0x1000)]"
  using palloc_alloc_refines [OF boot_example_ok, of "\<lparr>pg_paddr = 0, pg_size = 0x1000, pg_flags = 0\<rparr>"]
  by (auto simp: dvd_eq_mod_eq_0)

text \<open>
  C2. \<open>palloc_free\<close> returns a region. When the region is disjoint from the free memory and ends
  below the last address, the operation panics if there is no memory for a node, and otherwise
  returns with the blocks of the specification: sorted, merged with both neighbours, and covering
  exactly the old free memory and the region.
\<close>

theorem palloc_free_refines:
  assumes "boot_ok s" "blocks_rep s bs" "4096 dvd unat (pg_size pages)" "0 < unat (pg_size pages)"
    and "unat (pg_paddr pages) + unat (pg_size pages) < 2 ^ 64"
    and "{unat (pg_paddr pages)..<unat (pg_paddr pages) + unat (pg_size pages)} \<inter> free_mem bs = {}"
  shows "if unat (km_top s) + 32 > unat (km_bottom s) + unat (km_ssize s)
    then palloc_free (kmalloc_block simple1 memset) (kfree simple1) pages s = Inl Panic
    else \<exists>s' bs'. palloc_free (kmalloc_block simple1 memset) (kfree simple1) pages s = Inr s' \<and> boot_ok s' \<and> blocks_rep s' bs' \<and>
      bs' = give_back (unat (pg_paddr pages), unat (pg_size pages)) bs \<and>
      free_mem bs' = {unat (pg_paddr pages)..<unat (pg_paddr pages) + unat (pg_size pages)} \<union> free_mem bs"
proof -
  have "\<not> pg_size pages mod PAGE_SIZE \<noteq> 0" using assms(3) by (simp add: size_mod_PAGE_SIZE)
  moreover have "km_top s \<noteq> NULL" using assms(1) by (auto simp: boot_ok_def word_le_nat_alt)
  ultimately show ?thesis
    using boot.palloc_free_spec [OF conjI [OF assms(1) refl] assms(2-), of memset] kmalloc_block_boot [OF assms(1), of memset]
      give_back_spec [OF blocks_rep_separated [OF assms(2)] assms(4) _ assms(6)]
    by (auto simp: palloc_free_def)
qed

theorem palloc_free_refines_witness:
  "\<exists>s' bs'. palloc_free (kmalloc_block simple1 (\<lambda>p b n s. Inr s)) (kfree simple1) \<lparr>pg_paddr = 0x4000, pg_size = 0x1000, pg_flags = 0\<rparr>
     boot_example = Inr s' \<and> blocks_rep s' bs' \<and> bs' = [(0x4000, 0x3000)]"
proof -
  have "\<not> unat (km_top boot_example) + 32 > unat (km_bottom boot_example) + unat (km_ssize boot_example)"
    by (simp add: boot_example_def)
  with palloc_free_refines [OF boot_example_ok, of "\<lparr>pg_paddr = 0x4000, pg_size = 0x1000, pg_flags = 0\<rparr>" "\<lambda>p b n s. Inr s"]
  show ?thesis by (auto simp: dvd_eq_mod_eq_0)
qed

text \<open>
  C5. Round trip, in the boot configuration, where the nodes of the list come from the bootstrap
  allocator: pages that were just allocated can be returned, as long as the bootstrap allocator
  has memory for one more node, and the page allocator is then back at exactly the list of blocks
  it had, however many blocks the allocation had split or used up.
\<close>

theorem palloc_alloc_free:
  assumes ok: "boot_ok s" and rep: "blocks_rep s bs" and sz: "4096 dvd unat (pg_size pages)" "0 < unat (pg_size pages)"
    and run: "palloc_alloc (kfree simple1) pages s = Inr (0, pages', s')"
    and room: "unat (km_top s') + 32 \<le> unat (km_bottom s') + unat (km_ssize s')"
  shows "\<exists>s''. palloc_free (kmalloc_block simple1 memset) (kfree simple1) pages' s' = Inr s'' \<and> boot_ok s'' \<and> blocks_rep s'' bs"
proof -
  let ?n = "unat (pg_size pages)"
  obtain r bs' where fit: "take_fit ?n bs = Some (r, bs')" and s': "boot_ok s'" "blocks_rep s' bs'"
    and p': "pages' = pages\<lparr>pg_paddr := of_nat r\<rparr>"
    using boot.palloc_alloc_spec [OF conjI [OF ok refl] rep sz(1)] run by (auto split: option.splits)
  note t = take_fit_Some [OF blocks_rep_separated [OF rep] fit]
  have "r + ?n - 1 \<in> free_mem bs" using t sz(2) by auto
  then obtain a m where "(a, m) \<in> set bs" "r + ?n - 1 < a + m" by (auto simp: free_mem_def)
  then have top: "r + ?n < 2 ^ 64" using rep sz(2) by (fastforce simp: blocks_rep_def)
  then have u: "unat (pg_paddr pages') = r" using p' by (simp add: unat_of_nat take_bit_nat_eq_self)
  have d: "{r..<r + ?n} \<inter> free_mem bs' = {}" using t by auto
  have g: "give_back (r, ?n) bs' = bs"
  proof (rule separated_unique)
    show "separated 0 bs" by (rule blocks_rep_separated [OF rep])
    have "separated 0 bs'" using t by simp
    note b = give_back_spec [OF this sz(2) _ d, of]
    show "separated 0 (give_back (r, ?n) bs')" using b by simp
    show "free_mem (give_back (r, ?n) bs') = free_mem bs" using b t by auto
  qed
  have "km_top s' \<noteq> NULL" using s'(1) by (auto simp: boot_ok_def word_le_nat_alt)
  then have "\<not> (\<exists>s0. kmalloc_block simple1 memset s' = Inr (NULL, s0))"
    using kmalloc_block_boot [OF s'(1), of memset] room by simp
  moreover have "pg_size pages' = pg_size pages" using p' by simp
  ultimately show ?thesis
    using boot.palloc_free_spec [OF conjI [OF s'(1) refl] s'(2), of pages' memset] sz top d g u by auto
qed

theorem palloc_alloc_free_witness:
  "\<exists>s' s''. palloc_alloc (kfree simple1) \<lparr>pg_paddr = 0, pg_size = 0x2000, pg_flags = 0\<rparr> boot_example =
     Inr (0, \<lparr>pg_paddr = 0x5000, pg_size = 0x2000, pg_flags = 0\<rparr>, s') \<and>
   palloc_free (kmalloc_block simple1 (\<lambda>p b n s. Inr s)) (kfree simple1) \<lparr>pg_paddr = 0x5000, pg_size = 0x2000, pg_flags = 0\<rparr> s' = Inr s'' \<and>
   blocks_rep s'' [(0x5000, 0x2000)]"
proof -
  obtain s' where s': "palloc_alloc (kfree simple1) \<lparr>pg_paddr = 0, pg_size = 0x2000, pg_flags = 0\<rparr> boot_example =
      Inr (0, \<lparr>pg_paddr = 0x5000, pg_size = 0x2000, pg_flags = 0\<rparr>, s')"
    and t: "km_top s' = 0x1020" "km_bottom s' = 0x1000" "km_ssize s' = 0x8000"
    by (simp add: palloc_alloc_def boot_example_def PAGE_SIZE_def walk.simps block_shrink_def block_unlink_def
        kfree_def simple1_def simple_free_def)
  from palloc_alloc_free [OF boot_example_ok _ _ s', of "\<lambda>p b n s. Inr s"] t s' show ?thesis
    by (auto simp: dvd_eq_mod_eq_0)
qed

end
