(* ===== verification/Errno.thy ===== *)
theory Errno
  imports Main
begin

text \<open>The error numbers of \<^verbatim>\<open>include/errno.h\<close> that the modelled code returns, negated.\<close>

definition ENOENT :: int where "ENOENT = 2"
definition ENOMEM :: int where "ENOMEM = 12"
definition EACCES :: int where "EACCES = 13"
definition EFAULT :: int where "EFAULT = 14"
definition EBUSY :: int where "EBUSY = 16"
definition EEXIST :: int where "EEXIST = 17"
definition ENODEV :: int where "ENODEV = 19"
definition EINVAL :: int where "EINVAL = 22"
definition EAGAIN :: int where "EAGAIN = 35"
definition ENOTSUP :: int where "ENOTSUP = 91"

lemmas errno_defs = ENOENT_def ENOMEM_def EACCES_def EFAULT_def EBUSY_def EEXIST_def ENODEV_def EINVAL_def
  EAGAIN_def ENOTSUP_def

end
