(* ===== verification/Pgtable.thy ===== *)
theory Pgtable
  imports Kmem Errno
begin

unbundle bit_operations_syntax

text \<open>
  The two-level page tables of \<^verbatim>\<open>kern/arch/mips/pgtable.c\<close>. A table is a page of 1024 entries at its
  kernel address; the directory entries are the kernel addresses of the leaf tables. The calls of
  \<^verbatim>\<open>pgalloc\<close> and \<^verbatim>\<open>pgfree\<close> are arguments. A table whose page is freed no longer exists.
\<close>

section \<open>State and constants\<close>

record vmem = kmem +
  vm_tables :: "ptr \<rightharpoonup> u32 list"
  vm_current_pgdir :: ptr

definition PTE_LOWMASK :: u32 where "PTE_LOWMASK = 0xfff"
definition PTE_CACHEABLE :: u32 where "PTE_CACHEABLE = 0x600"
definition PTE_DIRTY :: u32 where "PTE_DIRTY = 0x100"
definition PTE_VALID :: u32 where "PTE_VALID = 0x080"
definition PTE_GLOBAL :: u32 where "PTE_GLOBAL = 0x040"

definition PTE_PADDR :: "u32 \<Rightarrow> u32" where
  "PTE_PADDR pte = pte AND NOT PTE_LOWMASK"

definition PTXMASK :: u32 where "PTXMASK = 2 ^ (PAGE_SHIFT - WORD_SHIFT) - 1"
definition NR_PTENTRIES :: nat where "NR_PTENTRIES = 2 ^ (PAGE_SHIFT - WORD_SHIFT)"
definition PTXSHIFT :: nat where "PTXSHIFT = PAGE_SHIFT"
definition PDXSHIFT :: nat where "PDXSHIFT = PTXSHIFT + PAGE_SHIFT - WORD_SHIFT"

definition PDX :: "u32 \<Rightarrow> u32" where
  "PDX va = drop_bit PDXSHIFT va AND PTXMASK"

definition PTX :: "u32 \<Rightarrow> u32" where
  "PTX va = drop_bit PTXSHIFT va AND PTXMASK"

definition VMA_EXEC :: u32 where "VMA_EXEC = 0x01"
definition VMA_WRITE :: u32 where "VMA_WRITE = 0x02"
definition VMA_READ :: u32 where "VMA_READ = 0x04"

record pagedesc =
  pd_pdev :: u32
  pd_ptev :: u32
  pd_pdx :: u32
  pd_ptx :: u32

type_synonym 'a pg_get = "'a vmem_scheme \<Rightarrow> (u64 \<times> 'a vmem_scheme) res"
type_synonym 'a pg_put = "u64 \<Rightarrow> 'a vmem_scheme \<Rightarrow> 'a vmem_scheme res"

section \<open>Tables\<close>

text \<open>Reading and writing an entry of the table at an address.\<close>

definition rd_entry :: "ptr \<Rightarrow> u32 \<Rightarrow> 'a vmem_scheme \<Rightarrow> u32 res" where
  "rd_entry tbl i s = and_then (ld (vm_tables s) tbl) (\<lambda>t. rd t (unat i))"

definition wr_entry :: "ptr \<Rightarrow> u32 \<Rightarrow> u32 \<Rightarrow> 'a vmem_scheme \<Rightarrow> 'a vmem_scheme res" where
  "wr_entry tbl i v s =
     and_then (ld (vm_tables s) tbl) (\<lambda>t.
     and_then (wr t (unat i) v) (\<lambda>t. Inr (s\<lparr>vm_tables := (vm_tables s)(tbl \<mapsto> t)\<rparr>)))"

text \<open>A page that is cleared becomes a table of zero entries.\<close>

definition clear_table :: "ptr \<Rightarrow> 'a vmem_scheme \<Rightarrow> 'a vmem_scheme" where
  "clear_table p s = s\<lparr>vm_tables := (vm_tables s)(p \<mapsto> replicate NR_PTENTRIES 0)\<rparr>"

definition drop_table :: "ptr \<Rightarrow> 'a vmem_scheme \<Rightarrow> 'a vmem_scheme" where
  "drop_table p s = s\<lparr>vm_tables := (vm_tables s)(p := None)\<rparr>"

text \<open>\<^verbatim>\<open>__getpagedesc\<close>: the descriptor is filled in as far as the code gets.\<close>

definition getpagedesc ::
  "'a pg_get \<Rightarrow> ptr \<Rightarrow> ptr \<Rightarrow> bool \<Rightarrow> pagedesc \<Rightarrow> 'a vmem_scheme \<Rightarrow> (int \<times> pagedesc \<times> 'a vmem_scheme) res" where
  "getpagedesc pga pgindex addr create pd s =
     (let pd = pd\<lparr>pd_pdev := pgindex, pd_pdx := PDX addr\<rparr> in
      and_then (rd_entry pgindex (pd_pdx pd) s) (\<lambda>e.
      if e \<noteq> 0 then Inr (0, pd\<lparr>pd_ptev := e, pd_ptx := PTX addr\<rparr>, s)
      else if \<not> create then Inr (- ENOENT, pd, s)
      else and_then (pga s) (\<lambda>(paddr, s).
        if paddr = - 1 then Inr (- ENOMEM, pd, s)
        else let pd = pd\<lparr>pd_ptev := pa2kva paddr\<rparr> in
          and_then (wr_entry pgindex (pd_pdx pd) (pd_ptev pd) (clear_table (pd_ptev pd) s)) (\<lambda>s.
          Inr (0, pd\<lparr>pd_ptx := PTX addr\<rparr>, s)))))"

text \<open>Whether all entries of a leaf table are zero.\<close>

definition table_empty :: "ptr \<Rightarrow> 'a vmem_scheme \<Rightarrow> bool res" where
  "table_empty pte s =
     and_then (scan 0 NR_PTENTRIES (\<lambda>i. and_then (rd_entry pte (of_nat i) s) (\<lambda>e. Inr (e \<noteq> 0)))) (\<lambda>b. Inr (\<not> b))"

definition free_intermediate_pgtable ::
  "'a pg_put \<Rightarrow> ptr \<Rightarrow> ptr \<Rightarrow> u32 \<Rightarrow> 'a vmem_scheme \<Rightarrow> 'a vmem_scheme res" where
  "free_intermediate_pgtable pgf pgindex vaddr sz s =
     (let pdx_end = PDX (vaddr + sz - PAGE_SIZE) in
      returns (loop (\<lambda>(pdx, s).
        if pdx \<le> pdx_end
        then and_then (rd_entry pgindex pdx s) (\<lambda>pte.
             and_then (table_empty pte s) (\<lambda>empty.
             if empty
             then and_then (pgf (ucast (kva2pa pte)) s) (\<lambda>s.
                  and_then (wr_entry pgindex pdx 0 (drop_table pte s)) (\<lambda>s. Inr (Cont (pdx + 1, s))))
             else Inr (Cont (pdx + 1, s))))
        else Inr (Break s)) (PDX vaddr, s)))"

text \<open>\<open>None\<close> is \<^verbatim>\<open>NULL\<close>; \<^verbatim>\<open>pmemset\<close> of one page clears the new directory.\<close>

definition init_pgindex :: "'a pg_get \<Rightarrow> 'a vmem_scheme \<Rightarrow> (ptr \<times> 'a vmem_scheme) res" where
  "init_pgindex pga s =
     and_then (pga s) (\<lambda>(paddr, s).
     if paddr = - 1 then Inr (NULL, s) else Inr (pa2kva paddr, clear_table (pa2kva paddr) s))"

definition destroy_pgindex :: "'a pg_put \<Rightarrow> ptr \<Rightarrow> 'a vmem_scheme \<Rightarrow> 'a vmem_scheme res" where
  "destroy_pgindex pgf pgindex s =
     and_then (pgf (ucast (kva2pa pgindex)) s) (\<lambda>s. Inr (drop_table pgindex s))"

definition pgtable_perm :: "u32 \<Rightarrow> u32" where
  "pgtable_perm vma_flags =
     PTE_VALID OR PTE_GLOBAL OR PTE_CACHEABLE OR (if vma_flags AND VMA_WRITE \<noteq> 0 then PTE_DIRTY else 0)"

section \<open>Mapping\<close>

text \<open>The first pass; it ends with 0, or with the error and the address reached.\<close>

definition map_alloc ::
  "'a pg_get \<Rightarrow> ptr \<Rightarrow> u64 \<Rightarrow> u64 \<times> ptr \<times> pagedesc \<times> 'a vmem_scheme \<Rightarrow>
   (int \<times> ptr \<times> pagedesc \<times> 'a vmem_scheme) res" where
  "map_alloc pga pgindex pend start =
     returns (loop (\<lambda>(pcur, vcur, pd, s).
       if pcur < pend
       then and_then (getpagedesc pga pgindex vcur True pd s) (\<lambda>(retcode, pd, s).
            if retcode = - ENOMEM then Inr (Break (retcode, vcur, pd, s))
            else and_then (rd_entry (pd_ptev pd) (pd_ptx pd) s) (\<lambda>e.
              if e \<noteq> 0 then Inr (Break (- EEXIST, vcur, pd, s))
              else Inr (Cont (pcur + PAGE_SIZE, vcur + PAGE_SIZE, pd, s))))
       else Inr (Break (0, vcur, pd, s))) start)"

definition map_fill ::
  "'a pg_get \<Rightarrow> ptr \<Rightarrow> u64 \<Rightarrow> u32 \<Rightarrow> u64 \<times> ptr \<times> pagedesc \<times> 'a vmem_scheme \<Rightarrow> 'a vmem_scheme res" where
  "map_fill pga pgindex pend flags start =
     returns (loop (\<lambda>(pcur, vcur, pd, s).
       if pcur < pend
       then and_then (getpagedesc pga pgindex vcur False pd s) (\<lambda>(_, pd, s).
            and_then (wr_entry (pd_ptev pd) (pd_ptx pd) (ucast pcur OR pgtable_perm flags) s) (\<lambda>s.
            Inr (Cont (pcur + PAGE_SIZE, vcur + PAGE_SIZE, pd, s))))
       else Inr (Break s)) start)"

text \<open>\<open>pd0\<close> is the uninitialised descriptor on the stack.\<close>

definition map_pages ::
  "'a pg_get \<Rightarrow> 'a pg_put \<Rightarrow> pagedesc \<Rightarrow> ptr \<Rightarrow> ptr \<Rightarrow> u64 \<Rightarrow> u32 \<Rightarrow> u32 \<Rightarrow> 'a vmem_scheme \<Rightarrow> (int \<times> 'a vmem_scheme) res" where
  "map_pages pga pgf pd0 pgindex vaddr paddr sz flags s =
     (if \<not> IS_ALIGNED paddr PAGE_SIZE \<or> \<not> IS_ALIGNED sz PAGE_SIZE \<or> \<not> IS_ALIGNED vaddr PAGE_SIZE
      then Inr (- EINVAL, s)
      else let pend = paddr + ucast sz in
        and_then (map_alloc pga pgindex pend (paddr, vaddr, pd0, s)) (\<lambda>(retcode, vcur, pd, s).
        if retcode \<noteq> 0
        then and_then (free_intermediate_pgtable pgf pgindex vaddr (vcur - vaddr) s) (\<lambda>s. Inr (retcode, s))
        else and_then (map_fill pga pgindex pend flags (paddr, vaddr, pd, s)) (\<lambda>s. Inr (0, s))))"

text \<open>
  \<open>unmap_pages\<close> returns the number of bytes and, in the last component, what is stored at
  \<^verbatim>\<open>*paddr\<close> if anything.
\<close>

definition unmap_pages ::
  "'a pg_get \<Rightarrow> 'a pg_put \<Rightarrow> pagedesc \<Rightarrow> ptr \<Rightarrow> ptr \<Rightarrow> u32 \<Rightarrow> 'a vmem_scheme \<Rightarrow> (int \<times> u64 option \<times> 'a vmem_scheme) res" where
  "unmap_pages pga pgf pd0 pgindex vaddr sz s =
     (let vend = vaddr + sz in
      and_then (returns (loop (\<lambda>(vcur, unmapped, pcur, out, pd, s).
        if vcur < vend
        then and_then (getpagedesc pga pgindex vcur False pd s) (\<lambda>(r, pd, s).
          if r < 0 then Inl Panic
          else and_then (rd_entry (pd_ptev pd) (pd_ptx pd) s) (\<lambda>e.
            if unmapped \<noteq> 0 \<and> ucast e \<noteq> pcur then Inr (Break (unmapped, out, s))
            else let pcur = (if unmapped = 0 then ucast (PTE_PADDR e) else pcur);
                     out = (if unmapped = 0 then Some pcur else out) in
              and_then (wr_entry (pd_ptev pd) (pd_ptx pd) 0 s) (\<lambda>s.
              Inr (Cont (vcur + PAGE_SIZE, unmapped + PAGE_SIZE, pcur + PAGE_SIZE, out, pd, s)))))
        else Inr (Break (unmapped, out, s))) (vaddr, 0 :: u32, 0 :: u64, None, pd0, s))) (\<lambda>(unmapped, out, s).
      and_then (free_intermediate_pgtable pgf pgindex vaddr unmapped s) (\<lambda>s.
      Inr (sint unmapped, out, s))))"

definition set_pages_perm ::
  "'a pg_get \<Rightarrow> pagedesc \<Rightarrow> ptr \<Rightarrow> ptr \<Rightarrow> u32 \<Rightarrow> u32 \<Rightarrow> 'a vmem_scheme \<Rightarrow> (int \<times> 'a vmem_scheme) res" where
  "set_pages_perm pga pd0 pgindex addr len flags s =
     and_then (returns (loop (\<lambda>(i, addr, pd, s).
       if i < len
       then and_then (getpagedesc pga pgindex addr False pd s) (\<lambda>(r, pd, s).
         if r < 0 then Inl Panic
         else and_then (rd_entry (pd_ptev pd) (pd_ptx pd) s) (\<lambda>e.
           and_then (wr_entry (pd_ptev pd) (pd_ptx pd) (e AND NOT PTE_LOWMASK) s) (\<lambda>s.
           and_then (rd_entry (pd_ptev pd) (pd_ptx pd) s) (\<lambda>e.
           and_then (wr_entry (pd_ptev pd) (pd_ptx pd) (e OR pgtable_perm flags) s) (\<lambda>s.
           Inr (Cont (i + PAGE_SIZE, addr + PAGE_SIZE, pd, s)))))))
       else Inr (Break s)) (0 :: u32, addr, pd0, s))) (\<lambda>s. Inr (0, s))"

text \<open>The TLB is flushed as well; see \<open>tlb_flush\<close>, which acts on the registers of the processor.\<close>

definition switch_pgindex :: "ptr \<Rightarrow> 'a vmem_scheme \<Rightarrow> int \<times> 'a vmem_scheme" where
  "switch_pgindex pgindex s = (0, s\<lparr>vm_current_pgdir := pgindex\<rparr>)"

definition get_pgindex :: "'a vmem_scheme \<Rightarrow> ptr" where
  "get_pgindex s = vm_current_pgdir s"

definition uva2kva :: "'a pg_get \<Rightarrow> pagedesc \<Rightarrow> ptr \<Rightarrow> ptr \<Rightarrow> 'a vmem_scheme \<Rightarrow> ptr res" where
  "uva2kva pga pd0 pgindex uaddr s =
     and_then (getpagedesc pga pgindex uaddr False pd0 s) (\<lambda>(r, pd, s).
     if r < 0 then Inr NULL
     else and_then (rd_entry (pd_ptev pd) (pd_ptx pd) s) (\<lambda>e.
       Inr (pa2kva (ucast (PTE_PADDR e OR PAGE_OFFSET uaddr)))))"

section \<open>Indices\<close>

lemma PTXMASK_eq: "PTXMASK = mask 10"
  by (simp add: PTXMASK_def PAGE_SHIFT_def WORD_SHIFT_def mask_eq_exp_minus_1)

lemma NR_PTENTRIES_eq: "NR_PTENTRIES = 1024"
  by (simp add: NR_PTENTRIES_def PAGE_SHIFT_def WORD_SHIFT_def)

abbreviation vpn :: "ptr \<Rightarrow> nat" where
  "vpn va \<equiv> unat va div 4096"

lemma unat_PTX: "unat (PTX va) = vpn va mod 1024"
proof -
  have "PTX va = take_bit 10 (drop_bit 12 va)"
    by (simp add: PTX_def PTXMASK_eq PTXSHIFT_def PAGE_SHIFT_def take_bit_eq_mask)
  then show ?thesis by (simp add: take_bit_eq_mod drop_bit_eq_div unat_mod unat_div)
qed

lemma unat_PDX: "unat (PDX va) = vpn va div 1024"
proof -
  have "PDX va = take_bit 10 (drop_bit 22 va)"
    by (simp add: PDX_def PTXMASK_eq PTXSHIFT_def PDXSHIFT_def PAGE_SHIFT_def WORD_SHIFT_def take_bit_eq_mask)
  then have "unat (PDX va) = unat va div 4194304 mod 1024"
    by (simp add: take_bit_eq_mod drop_bit_eq_div unat_mod unat_div)
  moreover have "unat va div 4194304 = vpn va div 1024" by (simp add: div_mult2_eq)
  moreover have "vpn va div 1024 < 1024" using unat_u32 [of va] by simp
  ultimately show ?thesis by simp
qed

lemma vpn_less: "vpn va div 1024 < 1024" "vpn va mod 1024 < 1024"
  using unat_u32 [of va] by simp_all

section \<open>What the tables map\<close>

text \<open>The entry of a page number, 0 where there is no leaf table.\<close>

definition page_entry :: "'a vmem_scheme \<Rightarrow> ptr \<Rightarrow> nat \<Rightarrow> u32" where
  "page_entry s pg n =
     (case vm_tables s pg of None \<Rightarrow> 0
      | Some dir \<Rightarrow> if dir ! (n div 1024) = 0 then 0
        else (case vm_tables s (dir ! (n div 1024)) of None \<Rightarrow> 0 | Some t \<Rightarrow> t ! (n mod 1024)))"

text \<open>Every directory entry is 0 or a leaf table of its own.\<close>

definition pgt_wf :: "'a vmem_scheme \<Rightarrow> ptr \<Rightarrow> bool" where
  "pgt_wf s pg \<longleftrightarrow> (\<exists>dir. vm_tables s pg = Some dir \<and> length dir = 1024 \<and>
     (\<forall>i<1024. dir ! i \<noteq> 0 \<longrightarrow> dir ! i \<noteq> pg \<and> (\<exists>t. vm_tables s (dir ! i) = Some t \<and> length t = 1024)) \<and>
     (\<forall>i<1024. \<forall>j<1024. dir ! i \<noteq> 0 \<longrightarrow> dir ! i = dir ! j \<longrightarrow> i = j))"

definition has_leaf :: "'a vmem_scheme \<Rightarrow> ptr \<Rightarrow> nat \<Rightarrow> bool" where
  "has_leaf s pg i \<longleftrightarrow> (case vm_tables s pg of None \<Rightarrow> False | Some dir \<Rightarrow> dir ! i \<noteq> 0)"

lemma pgt_wfE:
  assumes "pgt_wf s pg"
  obtains dir where "vm_tables s pg = Some dir" "length dir = 1024"
    "\<And>i. i < 1024 \<Longrightarrow> dir ! i \<noteq> 0 \<Longrightarrow> dir ! i \<noteq> pg \<and> (\<exists>t. vm_tables s (dir ! i) = Some t \<and> length t = 1024)"
    "\<And>i j. i < 1024 \<Longrightarrow> j < 1024 \<Longrightarrow> dir ! i \<noteq> 0 \<Longrightarrow> dir ! i = dir ! j \<Longrightarrow> i = j"
  using assms unfolding pgt_wf_def by blast

text \<open>Writing an entry of an existing leaf table.\<close>

lemma wr_leaf:
  assumes wf: "pgt_wf s pg" and dir: "vm_tables s pg = Some dir" "dir ! (n div 1024) \<noteq> 0" and n: "n div 1024 < 1024"
    and i: "unat i = n mod 1024"
  shows "\<exists>s'. wr_entry (dir ! (n div 1024)) i v s = Inr s' \<and> pgt_wf s' pg \<and> vm_tables s' pg = Some dir \<and>
      dom (vm_tables s') = dom (vm_tables s) \<and> s' = s\<lparr>vm_tables := vm_tables s'\<rparr> \<and>
      (\<forall>m. m div 1024 < 1024 \<longrightarrow> page_entry s' pg m = (if m = n then v else page_entry s pg m))"
proof -
  obtain d where wf': "vm_tables s pg = Some d" "length d = 1024"
    "\<And>i. i < 1024 \<Longrightarrow> d ! i \<noteq> 0 \<Longrightarrow> d ! i \<noteq> pg \<and> (\<exists>t. vm_tables s (d ! i) = Some t \<and> length t = 1024)"
    "\<And>i j. i < 1024 \<Longrightarrow> j < 1024 \<Longrightarrow> d ! i \<noteq> 0 \<Longrightarrow> d ! i = d ! j \<Longrightarrow> i = j"
    by (rule pgt_wfE [OF wf]) blast
  have d: "d = dir" using wf'(1) dir(1) by simp
  let ?p = "dir ! (n div 1024)"
  obtain t where t: "vm_tables s ?p = Some t" "length t = 1024" "?p \<noteq> pg" using wf'(3) [OF n] dir(2) d by auto
  let ?s = "s\<lparr>vm_tables := (vm_tables s)(?p \<mapsto> t[unat i := v])\<rparr>"
  have "wr_entry ?p i v s = Inr ?s" using t i by (simp add: wr_entry_def)
  moreover have pg: "vm_tables ?s pg = Some dir" using t(3) dir(1) by simp
  moreover have "pgt_wf ?s pg" unfolding pgt_wf_def
  proof (intro exI conjI)
    show "vm_tables ?s pg = Some dir" by (rule pg)
  qed (use wf' d t in auto)
  moreover have "page_entry ?s pg m = (if m = n then v else page_entry s pg m)" if m: "m div 1024 < 1024" for m
  proof (cases "m div 1024 = n div 1024")
    case True
    then have "m = n \<longleftrightarrow> m mod 1024 = n mod 1024" by (metis div_mult_mod_eq)
    with True t dir i show ?thesis by (auto simp: page_entry_def)
  next
    case False
    have "dir ! (m div 1024) \<noteq> ?p \<or> dir ! (m div 1024) = 0" using wf'(4) [OF m n] d False by auto
    with False t dir show ?thesis by (auto simp: page_entry_def)
  qed
  moreover have "dom (vm_tables ?s) = dom (vm_tables s)" using t(1) by auto
  ultimately show ?thesis by (intro exI [of _ ?s]) simp
qed

lemma rd_leaf:
  assumes "pgt_wf s pg" "vm_tables s pg = Some dir" "dir ! (n div 1024) \<noteq> 0" "n div 1024 < 1024" "unat i = n mod 1024"
  shows "rd_entry (dir ! (n div 1024)) i s = Inr (page_entry s pg n)"
proof -
  obtain t where "vm_tables s (dir ! (n div 1024)) = Some t" "length t = 1024" using assms by (auto simp: pgt_wf_def)
  with assms show ?thesis by (simp add: rd_entry_def page_entry_def)
qed

lemma tables_cong:
  assumes "vm_tables s' = vm_tables s"
  shows "page_entry s' = page_entry s" "has_leaf s' = has_leaf s" "pgt_wf s' = pgt_wf s"
  unfolding page_entry_def [abs_def] has_leaf_def [abs_def] pgt_wf_def [abs_def] assms by (rule refl)+

lemma entry_leaf: "page_entry s pg m \<noteq> 0 \<Longrightarrow> has_leaf s pg (m div 1024)"
  by (auto simp: page_entry_def has_leaf_def split: option.splits if_splits)

section \<open>Page steps\<close>

lemma vpn_step:
  assumes "4096 dvd unat va" "unat va + 4096 * i < 2 ^ 32"
  shows "vpn (va + of_nat (4096 * i)) = vpn va + i"
proof -
  have u: "unat (of_nat (4096 * i) :: u32) = 4096 * i" by (rule unat_of_nat_u32) (use assms(2) in simp)
  have "unat (va + of_nat (4096 * i)) = unat va + unat (of_nat (4096 * i) :: u32)"
    by (rule unat_add_lem [THEN iffD1]) (use assms(2) in \<open>simp only: u; simp\<close>)
  then show ?thesis using assms(1) unfolding u by (auto simp: dvd_def)
qed

lemma paddr_step:
  fixes p :: u64
  assumes "unat p + 4096 * i < 2 ^ 64"
  shows "unat (p + of_nat (4096 * i)) = unat p + 4096 * i"
proof -
  have u: "unat (of_nat (4096 * i) :: u64) = 4096 * i"
    using assms by (simp only: unat_of_nat) (simp add: take_bit_nat_eq_self)
  have "unat (p + of_nat (4096 * i)) = unat p + unat (of_nat (4096 * i) :: u64)"
    by (rule unat_add_lem [THEN iffD1]) (use assms in \<open>simp only: u; simp\<close>)
  then show ?thesis unfolding u .
qed

lemma step_Suc: "p + of_nat (4096 * i) + PAGE_SIZE = p + of_nat (4096 * Suc i)" for p :: "'a::len word"
  by (simp add: PAGE_SIZE_def algebra_simps)

end
