(* ===== verification/PgtableMap.thy ===== *)
theory PgtableMap
  imports Pgtable
begin

unbundle bit_operations_syntax

text \<open>
  Correctness of the page tables: the operations of \<^verbatim>\<open>kern/arch/mips/pgtable.c\<close> act on the entries of
  the page numbers as on a function. The tables rely on the contract \<open>page_source\<close> of \<^verbatim>\<open>pgalloc\<close>
  and \<^verbatim>\<open>pgfree\<close>, which the page allocator over the bootstrap allocator keeps.
\<close>

section \<open>Looking up and creating leaf tables\<close>

text \<open>The descriptor of an address with a leaf table.\<close>

definition desc_of :: "u32 list \<Rightarrow> ptr \<Rightarrow> ptr \<Rightarrow> pagedesc" where
  "desc_of dir pg va = \<lparr>pd_pdev = pg, pd_ptev = dir ! (vpn va div 1024), pd_pdx = PDX va, pd_ptx = PTX va\<rparr>"

lemma getpagedesc_found:
  assumes "pgt_wf s pg" "vm_tables s pg = Some dir" "dir ! (vpn va div 1024) \<noteq> 0"
  shows "getpagedesc pga pg va create pd s = Inr (0, desc_of dir pg va, s)"
proof -
  have "length dir = 1024" using assms(1,2) by (auto simp: pgt_wf_def)
  then have "rd_entry pg (PDX va) s = Inr (dir ! (vpn va div 1024))"
    using assms(2) vpn_less [of va] by (simp add: rd_entry_def unat_PDX)
  with assms(3) show ?thesis by (cases pd) (simp add: getpagedesc_def Let_def desc_of_def)
qed

lemma getpagedesc_missing:
  assumes "pgt_wf s pg" "\<not> has_leaf s pg (vpn va div 1024)"
  shows "\<exists>pd'. getpagedesc pga pg va False pd s = Inr (- ENOENT, pd', s)"
proof -
  obtain dir where d: "vm_tables s pg = Some dir" "length dir = 1024" using assms(1) by (auto simp: pgt_wf_def)
  then have "rd_entry pg (PDX va) s = Inr 0"
    using assms(2) vpn_less [of va] by (simp add: rd_entry_def unat_PDX has_leaf_def)
  then show ?thesis by (simp add: getpagedesc_def Let_def)
qed

text \<open>The leaf tables of a range of pages, and those of them that do not exist.\<close>

definition leaf_range :: "nat \<Rightarrow> nat \<Rightarrow> nat set" where
  "leaf_range v n = (\<lambda>j. (v + j) div 1024) ` {..<n}"

definition missing :: "'a vmem_scheme \<Rightarrow> ptr \<Rightarrow> nat \<Rightarrow> nat \<Rightarrow> nat set" where
  "missing s pg v n = {k \<in> leaf_range v n. \<not> has_leaf s pg k}"

lemma leaf_range_0 [simp]: "leaf_range v 0 = {}"
  by (simp add: leaf_range_def)

lemma leaf_range_Suc: "leaf_range v (Suc i) = insert ((v + i) div 1024) (leaf_range v i)"
  by (simp add: leaf_range_def lessThan_Suc)

lemma finite_missing [simp]: "finite (missing s pg v n)"
  by (simp add: missing_def leaf_range_def)

lemma missing_mono: "i \<le> n \<Longrightarrow> card (missing s pg v i) \<le> card (missing s pg v n)"
  by (rule card_mono) (auto simp: missing_def leaf_range_def)

lemma missing_Suc:
  "card (missing s pg v (Suc i)) =
    (if has_leaf s pg ((v + i) div 1024) \<or> (v + i) div 1024 \<in> leaf_range v i then card (missing s pg v i) else Suc (card (missing s pg v i)))"
proof -
  let ?k = "(v + i) div 1024"
  have "missing s pg v (Suc i) = (if has_leaf s pg ?k \<or> ?k \<in> leaf_range v i then missing s pg v i else insert ?k (missing s pg v i))"
    by (auto simp: missing_def leaf_range_Suc)
  then show ?thesis by (auto simp: missing_def card_insert_if [OF finite_missing, unfolded missing_def])
qed

lemma leaf_range_interval:
  assumes "0 < i"
  shows "leaf_range v i = {v div 1024..(v + i - 1) div 1024}"
proof (intro equalityI subsetI)
  fix k assume "k \<in> {v div 1024..(v + i - 1) div 1024}"
  then have k: "v div 1024 \<le> k" "k * 1024 \<le> v + i - 1" by (simp_all add: less_eq_div_iff_mult_less_eq)
  define m where "m = max v (k * 1024)"
  have "v < Suc k * 1024" using k(1) by (simp add: div_less_iff_less_mult [symmetric] less_Suc_eq_le)
  then have "m div 1024 = k" unfolding m_def by (auto simp: max_def not_le intro!: div_nat_eqI)
  moreover have "m - v < i" using k(2) assms by (simp add: m_def)
  moreover have "v + (m - v) = m" by (simp add: m_def)
  ultimately show "k \<in> leaf_range v i" unfolding leaf_range_def by (metis imageI lessThan_iff)
qed (auto simp: leaf_range_def intro!: div_le_mono)

text \<open>
  What the page tables rely on. As long as there are pages to get, \<^verbatim>\<open>pgalloc\<close> returns a page that is
  not a table, and otherwise it fails; as long as there is room to put pages back, \<^verbatim>\<open>pgfree\<close> takes the
  page of a table, and otherwise it panics. Neither changes the tables.
\<close>

locale page_source =
  fixes pga :: "'a pg_get" and pgf :: "'a pg_put" and ok :: "'a vmem_scheme \<Rightarrow> bool"
    and pages :: "'a vmem_scheme \<Rightarrow> nat" and room :: "'a vmem_scheme \<Rightarrow> nat"
  assumes pga_page: "ok s \<Longrightarrow> if pages s = 0 then pga s = Inr (- 1, s)
      else \<exists>p s'. pga s = Inr (p, s') \<and> p \<noteq> - 1 \<and> vm_tables s' = vm_tables s \<and> pa2kva p \<noteq> 0 \<and> vm_tables s (pa2kva p) = None \<and>
        ok (clear_table (pa2kva p) s') \<and> pages s = Suc (pages s') \<and> room s' = room s"
    and pgf_page: "ok s \<Longrightarrow> t \<in> dom (vm_tables s) \<Longrightarrow> if room s = 0 then pgf (ucast (kva2pa t)) s = Inl Panic
      else \<exists>s'. pgf (ucast (kva2pa t)) s = Inr s' \<and> vm_tables s' = vm_tables s \<and> ok (drop_table t s') \<and> room s = Suc (room s')"
    and ok_tables: "ok s \<Longrightarrow> dom T = dom (vm_tables s) \<Longrightarrow> ok (s\<lparr>vm_tables := T\<rparr>)"
    and counts_tables: "pages (s\<lparr>vm_tables := T\<rparr>) = pages s" "room (s\<lparr>vm_tables := T\<rparr>) = room s"
begin

lemma getpagedesc_create:
  assumes ok: "ok s" and wf: "pgt_wf s pg" and no: "\<not> has_leaf s pg (vpn va div 1024)"
  shows "if pages s = 0 then \<exists>pd'. getpagedesc pga pg va True pd s = Inr (- ENOMEM, pd', s)
    else \<exists>dir s'. getpagedesc pga pg va True pd s = Inr (0, desc_of dir pg va, s') \<and> ok s' \<and> pgt_wf s' pg \<and>
      vm_tables s' pg = Some dir \<and> dir ! (vpn va div 1024) \<noteq> 0 \<and>
      (\<forall>i<1024. has_leaf s' pg i \<longleftrightarrow> has_leaf s pg i \<or> i = vpn va div 1024) \<and>
      (\<forall>m. m div 1024 < 1024 \<longrightarrow> page_entry s' pg m = page_entry s pg m) \<and> pages s = Suc (pages s') \<and> room s' = room s"
proof -
  obtain dir where wf': "vm_tables s pg = Some dir" "length dir = 1024"
    "\<And>i. i < 1024 \<Longrightarrow> dir ! i \<noteq> 0 \<Longrightarrow> dir ! i \<noteq> pg \<and> (\<exists>t. vm_tables s (dir ! i) = Some t \<and> length t = 1024)"
    "\<And>i j. i < 1024 \<Longrightarrow> j < 1024 \<Longrightarrow> dir ! i \<noteq> 0 \<Longrightarrow> dir ! i = dir ! j \<Longrightarrow> i = j"
    by (rule pgt_wfE [OF wf]) blast
  let ?i = "vpn va div 1024"
  have z: "dir ! ?i = 0" using no wf'(1) by (simp add: has_leaf_def)
  have e: "rd_entry pg (PDX va) s = Inr 0" using wf'(1,2) z vpn_less [of va] by (simp add: rd_entry_def unat_PDX)
  show ?thesis
  proof (cases "pages s = 0")
    case True
    then have "pga s = Inr (- 1, s)" using pga_page [OF ok] by simp
    with True e show ?thesis by (simp add: getpagedesc_def Let_def)
  next
    case False
    then obtain p s1 where p: "pga s = Inr (p, s1)" "p \<noteq> - 1" "vm_tables s1 = vm_tables s"
      and t: "pa2kva p \<noteq> 0" "vm_tables s (pa2kva p) = None" "ok (clear_table (pa2kva p) s1)" and c: "pages s = Suc (pages s1)" "room s1 = room s"
      using pga_page [OF ok] by auto
    let ?t = "pa2kva p" and ?d = "dir[?i := pa2kva p]"
    let ?s = "(clear_table ?t s1)\<lparr>vm_tables := (vm_tables (clear_table ?t s1))(pg \<mapsto> ?d)\<rparr>"
    have tp: "?t \<noteq> pg" using wf'(1) t(2) by auto
    have run: "getpagedesc pga pg va True pd s = Inr (0, desc_of ?d pg va, ?s)"
      using e p tp wf'(1,2) vpn_less [of va]
      by (cases pd) (simp add: getpagedesc_def Let_def wr_entry_def clear_table_def unat_PDX desc_of_def)
    have ok': "ok ?s" by (rule ok_tables [OF t(3)]) (use wf'(1) p(3) in \<open>auto simp: clear_table_def\<close>)
    have ft: "vm_tables ?s = (vm_tables s)(?t \<mapsto> replicate 1024 0, pg \<mapsto> ?d)"
      using p(3) by (simp add: clear_table_def NR_PTENTRIES_eq)
    have di: "?d ! j = (if j = ?i then ?t else dir ! j)" for j
      using wf'(2) vpn_less(1) [of va] by (auto simp: nth_list_update)
    have nt: "dir ! j \<noteq> ?t" if "j < 1024" "dir ! j \<noteq> 0" for j using wf'(3) [OF that] t(2) by auto
    have wfs: "pgt_wf ?s pg" unfolding pgt_wf_def ft
    proof (intro exI conjI)
      show "((vm_tables s)(?t \<mapsto> replicate 1024 0, pg \<mapsto> ?d)) pg = Some ?d" by simp
      show "\<forall>i<1024. ?d ! i \<noteq> 0 \<longrightarrow> ?d ! i \<noteq> pg \<and>
        (\<exists>t. ((vm_tables s)(?t \<mapsto> replicate 1024 0, pg \<mapsto> ?d)) (?d ! i) = Some t \<and> length t = 1024)"
        using wf'(3) tp by (auto simp: di)
      show "\<forall>i<1024. \<forall>j<1024. ?d ! i \<noteq> 0 \<longrightarrow> ?d ! i = ?d ! j \<longrightarrow> i = j"
        unfolding di using wf'(4) nt t(1) by (metis (mono_tags))
    qed (use wf'(2) in simp)
    have "page_entry ?s pg m = page_entry s pg m" if "m div 1024 < 1024" for m
      using that wf'(1,2) z nt [of "m div 1024"] wf'(3) [of "m div 1024"] t(1) tp
      by (auto simp: page_entry_def ft di)
    moreover have "has_leaf ?s pg i \<longleftrightarrow> has_leaf s pg i \<or> i = ?i" for i
      using wf'(1,2) t(1) by (auto simp: has_leaf_def ft di)
    moreover have "pages ?s = pages s1" "room ?s = room s1" by (simp_all add: clear_table_def counts_tables)
    ultimately show ?thesis using False run ok' wfs ft di t(1) c by auto
  qed
qed

text \<open>The first pass of a mapping of \<open>n\<close> pages, up to page \<open>i\<close>.\<close>

definition tables_made :: "ptr \<Rightarrow> nat \<Rightarrow> 'a vmem_scheme \<Rightarrow> nat \<Rightarrow> 'a vmem_scheme \<Rightarrow> bool" where
  "tables_made pg v s i s' \<longleftrightarrow> ok s' \<and> pgt_wf s' pg \<and> (\<forall>k<1024. has_leaf s' pg k \<longleftrightarrow> has_leaf s pg k \<or> k \<in> leaf_range v i) \<and>
     (\<forall>m. m div 1024 < 1024 \<longrightarrow> page_entry s' pg m = page_entry s pg m) \<and> (\<forall>j<i. page_entry s pg (v + j) = 0) \<and>
     pages s = card (missing s pg v i) + pages s' \<and> room s' = room s"

lemma tables_made_leaf:
  "tables_made pg v s i s' \<Longrightarrow> (v + i) div 1024 < 1024 \<Longrightarrow> \<not> has_leaf s' pg ((v + i) div 1024) \<Longrightarrow>
   card (missing s pg v (Suc i)) = Suc (card (missing s pg v i))"
  unfolding missing_Suc tables_made_def by simp

text \<open>One turn: the leaf table of page \<open>i\<close> is there afterwards, unless no page could be had for it.\<close>

lemma tables_made_step:
  assumes k: "tables_made pg v s i s1" and v: "vpn va = v + i"
  shows "(\<exists>pd'. getpagedesc pga pg va True pd s1 = Inr (- ENOMEM, pd', s1) \<and> pages s1 = 0 \<and> \<not> has_leaf s1 pg ((v + i) div 1024)) \<or>
    (\<exists>dir s2. getpagedesc pga pg va True pd s1 = Inr (0, desc_of dir pg va, s2) \<and>
      rd_entry (dir ! (vpn va div 1024)) (PTX va) s2 = Inr (page_entry s pg (v + i)) \<and>
      (if page_entry s pg (v + i) = 0 then tables_made pg v s (Suc i) s2 else tables_made pg v s i s2))"
proof -
  have vl: "(v + i) div 1024 < 1024" using vpn_less(1) [of va] v by simp
  note K = k [unfolded tables_made_def]
  show ?thesis
  proof (cases "has_leaf s1 pg ((v + i) div 1024)")
    case True
    then obtain dir where d: "vm_tables s1 pg = Some dir" "dir ! (vpn va div 1024) \<noteq> 0" using v by (auto simp: has_leaf_def split: option.splits)
    have "pgt_wf s1 pg" using K by blast
    note g = getpagedesc_found [OF this d] and e = rd_leaf [OF this d vpn_less(1) unat_PTX]
    have "has_leaf s pg ((v + i) div 1024) \<or> (v + i) div 1024 \<in> leaf_range v i" using K True vl by blast
    then have "tables_made pg v s (Suc i) s1" if "page_entry s pg (v + i) = 0"
      using K that vl unfolding tables_made_def by (auto simp: missing_Suc leaf_range_Suc less_Suc_eq)
    moreover have "page_entry s1 pg (v + i) = page_entry s pg (v + i)" using K vl by blast
    ultimately show ?thesis using g e k v by (intro disjI2) auto
  next
    case False
    have o: "ok s1" "pgt_wf s1 pg" "\<not> has_leaf s1 pg (vpn va div 1024)" using K False v by simp_all
    show ?thesis
    proof (cases "pages s1 = 0")
      case True
      with getpagedesc_create [OF o, of pd] False show ?thesis by (intro disjI1) simp
    next
      case p: False
      then obtain dir s2 where g: "getpagedesc pga pg va True pd s1 = Inr (0, desc_of dir pg va, s2)" "ok s2" "pgt_wf s2 pg"
        "vm_tables s2 pg = Some dir" "dir ! (vpn va div 1024) \<noteq> 0" "\<forall>i<1024. has_leaf s2 pg i \<longleftrightarrow> has_leaf s1 pg i \<or> i = vpn va div 1024"
        "\<forall>m. m div 1024 < 1024 \<longrightarrow> page_entry s2 pg m = page_entry s1 pg m" "pages s1 = Suc (pages s2)" "room s2 = room s1"
        using getpagedesc_create [OF o, of pd] by auto
      have "\<not> has_leaf s pg ((v + i) div 1024)" using K False vl by blast
      then have z: "page_entry s pg (v + i) = 0" using entry_leaf by blast
      have e: "rd_entry (dir ! (vpn va div 1024)) (PTX va) s2 = Inr (page_entry s pg (v + i))"
        using rd_leaf [OF g(3,4,5) vpn_less(1) unat_PTX] g(7) K vl v by simp
      have c: "card (missing s pg v (Suc i)) = Suc (card (missing s pg v i))" by (rule tables_made_leaf [OF k vl False])
      have "tables_made pg v s (Suc i) s2" unfolding tables_made_def
      proof (intro conjI)
        show "\<forall>k<1024. has_leaf s2 pg k \<longleftrightarrow> has_leaf s pg k \<or> k \<in> leaf_range v (Suc i)" using g(6) K v by (auto simp: leaf_range_Suc)
        show "\<forall>m. m div 1024 < 1024 \<longrightarrow> page_entry s2 pg m = page_entry s pg m" using g(7) K by simp
        show "\<forall>j<Suc i. page_entry s pg (v + j) = 0" using K z by (simp add: less_Suc_eq)
        show "pages s = card (missing s pg v (Suc i)) + pages s2" using K c g(8) by simp
      qed (use g K in simp_all)
      with z g(1) e show ?thesis by (intro disjI2) auto
    qed
  qed
qed

lemma map_alloc_spec:
  assumes ok: "ok s" and wf: "pgt_wf s pg" and va: "4096 dvd unat vaddr" "unat vaddr + 4096 * n \<le> 2 ^ 32"
    and pa: "unat paddr + 4096 * n < 2 ^ 64"
  shows "\<exists>r i pd' s'. map_alloc pga pg (paddr + of_nat (4096 * n)) (paddr, vaddr, pd, s) =
      Inr (r, vaddr + of_nat (4096 * i), pd', s') \<and> tables_made pg (vpn vaddr) s i s' \<and>
    (r = 0 \<and> i = n \<or> i < n \<and> r = - EEXIST \<and> page_entry s pg (vpn vaddr + i) \<noteq> 0 \<or>
     i < n \<and> r = - ENOMEM \<and> \<not> has_leaf s' pg ((vpn vaddr + i) div 1024) \<and> pages s' = 0)"
proof -
  define body where "body = (\<lambda>(pcur, vcur, pd, s).
       if pcur < paddr + of_nat (4096 * n)
       then and_then (getpagedesc pga pg vcur True pd s) (\<lambda>(retcode, pd, s).
            if retcode = - ENOMEM then Inr (Break (retcode, vcur, pd, s))
            else and_then (rd_entry (pd_ptev pd) (pd_ptx pd) s) (\<lambda>e.
              if e \<noteq> 0 then Inr (Break (- EEXIST, vcur, pd, s))
              else Inr (Cont (pcur + PAGE_SIZE, vcur + PAGE_SIZE, pd, s))))
       else Inr (Break (0, vcur, pd, s)))"
  let ?made = "tables_made pg (vpn vaddr) s"
  define I where "I = (\<lambda>i (st :: u64 \<times> ptr \<times> pagedesc \<times> 'a vmem_scheme). \<exists>pd s'. st = (paddr + of_nat (4096 * i), vaddr + of_nat (4096 * i), pd, s') \<and> ?made i s')"
  define Q where "Q = (\<lambda>x :: (int \<times> ptr \<times> pagedesc \<times> 'a vmem_scheme) res. \<exists>r i pd s'. x = Inr (r, vaddr + of_nat (4096 * i), pd, s') \<and> ?made i s' \<and>
    (r = 0 \<and> i = n \<or> i < n \<and> r = - EEXIST \<and> page_entry s pg (vpn vaddr + i) \<noteq> 0 \<or>
     i < n \<and> r = - ENOMEM \<and> \<not> has_leaf s' pg ((vpn vaddr + i) div 1024) \<and> pages s' = 0))"
  have "\<exists>x. loop body (paddr, vaddr, pd, s) = Some x \<and> Q x"
  proof (rule loop_for [where I = I and n = n])
    show "I 0 (paddr, vaddr, pd, s)" using ok wf by (simp add: I_def tables_made_def missing_def)
  next
    fix i st assume i: "i < n" and "I i st"
    then obtain pd s1 where st: "st = (paddr + of_nat (4096 * i), vaddr + of_nat (4096 * i), pd, s1)" and k: "?made i s1"
      by (auto simp: I_def)
    let ?v = "vaddr + of_nat (4096 * i)"
    have lt: "paddr + of_nat (4096 * i) < paddr + of_nat (4096 * n)"
      using i pa by (simp add: word_less_nat_alt paddr_step del: of_nat_mult)
    have v: "vpn ?v = vpn vaddr + i" by (rule vpn_step [OF va(1)]) (use va(2) i in simp)
    from tables_made_step [OF k v, of pd]
    show "(\<exists>st'. body st = Inr (Cont st') \<and> I (Suc i) st') \<or> (\<exists>x. loop body st = Some x \<and> Q x)"
    proof (elim disjE exE conjE)
      fix pd' assume g: "getpagedesc pga pg ?v True pd s1 = Inr (- ENOMEM, pd', s1)" "pages s1 = 0" "\<not> has_leaf s1 pg ((vpn vaddr + i) div 1024)"
      have "Q (Inr (- ENOMEM, ?v, pd', s1))" using g(2,3) i k by (auto simp: Q_def)
      moreover have "body st = Inr (Break (- ENOMEM, ?v, pd', s1))" using lt g(1) st by (simp add: body_def del: of_nat_mult)
      ultimately show ?thesis by (auto simp: loop_Break)
    next
      fix dir s2 assume g: "getpagedesc pga pg ?v True pd s1 = Inr (0, desc_of dir pg ?v, s2)"
        "rd_entry (dir ! (vpn ?v div 1024)) (PTX ?v) s2 = Inr (page_entry s pg (vpn vaddr + i))"
        "if page_entry s pg (vpn vaddr + i) = 0 then ?made (Suc i) s2 else ?made i s2"
      have e: "rd_entry (pd_ptev (desc_of dir pg ?v)) (pd_ptx (desc_of dir pg ?v)) s2 = Inr (page_entry s pg (vpn vaddr + i))"
        using g(2) by (simp add: desc_of_def)
      show ?thesis
      proof (cases "page_entry s pg (vpn vaddr + i) = 0")
        case True
        then have "I (Suc i) (paddr + of_nat (4096 * i) + PAGE_SIZE, ?v + PAGE_SIZE, desc_of dir pg ?v, s2)"
          using g(3) unfolding step_Suc by (auto simp: I_def)
        moreover have "body st = Inr (Cont (paddr + of_nat (4096 * i) + PAGE_SIZE, ?v + PAGE_SIZE, desc_of dir pg ?v, s2))"
          using lt g(1) st e True by (simp add: body_def errno_defs del: of_nat_mult)
        ultimately show ?thesis by blast
      next
        case False
        have "body st = Inr (Break (- EEXIST, ?v, desc_of dir pg ?v, s2))"
          using lt g(1) st e False by (simp add: body_def errno_defs del: of_nat_mult)
        moreover have "Q (Inr (- EEXIST, ?v, desc_of dir pg ?v, s2))" using g(3) i False by (auto simp: Q_def)
        ultimately show ?thesis by (auto simp: loop_Break)
      qed
    qed
  next
    fix st assume "I n st"
    then obtain pd s1 where st: "st = (paddr + of_nat (4096 * n), vaddr + of_nat (4096 * n), pd, s1)" and k: "?made n s1"
      by (auto simp: I_def)
    have "body st = Inr (Break (0, vaddr + of_nat (4096 * n), pd, s1))" using st by (simp add: body_def)
    moreover have "Q (Inr (0, vaddr + of_nat (4096 * n), pd, s1))" using k by (auto simp: Q_def)
    ultimately show "\<exists>x. loop body st = Some x \<and> Q x" by (auto simp: loop_Break)
  qed
  then show ?thesis unfolding map_alloc_def body_def [symmetric] by (auto simp: Q_def)
qed

text \<open>The second pass: every page has its leaf table.\<close>

lemma map_fill_spec:
  assumes ok: "ok s" and wf: "pgt_wf s pg" and va: "4096 dvd unat vaddr" "unat vaddr + 4096 * n \<le> 2 ^ 32"
    and pa: "unat paddr + 4096 * n < 2 ^ 64" and leaf: "\<forall>j<n. has_leaf s pg ((vpn vaddr + j) div 1024)"
  shows "\<exists>s'. map_fill pga pg (paddr + of_nat (4096 * n)) flags (paddr, vaddr, pd, s) = Inr s' \<and> ok s' \<and> pgt_wf s' pg \<and> room s' = room s \<and>
    (\<forall>m. m div 1024 < 1024 \<longrightarrow> page_entry s' pg m =
      (if vpn vaddr \<le> m \<and> m < vpn vaddr + n then ucast (paddr + of_nat (4096 * (m - vpn vaddr))) OR pgtable_perm flags
       else page_entry s pg m))"
proof -
  define body where "body = (\<lambda>(pcur, vcur, pd, s).
       if pcur < paddr + of_nat (4096 * n)
       then and_then (getpagedesc pga pg vcur False pd s) (\<lambda>(_, pd, s).
            and_then (wr_entry (pd_ptev pd) (pd_ptx pd) (ucast pcur OR pgtable_perm flags) s) (\<lambda>s.
            Inr (Cont (pcur + PAGE_SIZE, vcur + PAGE_SIZE, pd, s))))
       else Inr (Break s))"
  define keeps where "keeps = (\<lambda>i s'. ok s' \<and> pgt_wf s' pg \<and> vm_tables s' pg = vm_tables s pg \<and> room s' = room s \<and>
    (\<forall>m. m div 1024 < 1024 \<longrightarrow> page_entry s' pg m =
      (if vpn vaddr \<le> m \<and> m < vpn vaddr + i then ucast (paddr + of_nat (4096 * (m - vpn vaddr))) OR pgtable_perm flags
       else page_entry s pg m)))"
  define I where "I = (\<lambda>i (st :: u64 \<times> ptr \<times> pagedesc \<times> 'a vmem_scheme).
    \<exists>pd s'. st = (paddr + of_nat (4096 * i), vaddr + of_nat (4096 * i), pd, s') \<and> keeps i s')"
  have "\<exists>x. loop body (paddr, vaddr, pd, s) = Some x \<and> (\<exists>s'. x = Inr s' \<and> keeps n s')"
  proof (rule loop_for [where I = I and n = n])
    show "I 0 (paddr, vaddr, pd, s)" using ok wf by (auto simp: I_def keeps_def)
  next
    fix i st assume i: "i < n" and "I i st"
    then obtain pd s1 where st: "st = (paddr + of_nat (4096 * i), vaddr + of_nat (4096 * i), pd, s1)" and k: "keeps i s1"
      by (auto simp: I_def)
    let ?v = "vaddr + of_nat (4096 * i)" and ?p = "paddr + of_nat (4096 * i)"
    have lt: "?p < paddr + of_nat (4096 * n)"
      using i pa by (simp add: word_less_nat_alt paddr_step del: of_nat_mult)
    have v: "vpn ?v = vpn vaddr + i" by (rule vpn_step [OF va(1)]) (use va(2) i in simp)
    from k have k': "ok s1" "pgt_wf s1 pg" "vm_tables s1 pg = vm_tables s pg" by (auto simp: keeps_def)
    obtain dir where d: "vm_tables s1 pg = Some dir" "dir ! (vpn ?v div 1024) \<noteq> 0"
      using leaf i v k'(3) by (auto simp: has_leaf_def split: option.splits)
    have g: "getpagedesc pga pg ?v False pd s1 = Inr (0, desc_of dir pg ?v, s1)" by (rule getpagedesc_found [OF k'(2) d])
    obtain s2 where w: "wr_entry (dir ! (vpn ?v div 1024)) (PTX ?v) (ucast ?p OR pgtable_perm flags) s1 = Inr s2"
      "pgt_wf s2 pg" "vm_tables s2 pg = Some dir" "dom (vm_tables s2) = dom (vm_tables s1)" "s2 = s1\<lparr>vm_tables := vm_tables s2\<rparr>"
      "\<forall>m. m div 1024 < 1024 \<longrightarrow> page_entry s2 pg m = (if m = vpn ?v then ucast ?p OR pgtable_perm flags else page_entry s1 pg m)"
      using wr_leaf [OF k'(2) d vpn_less(1) unat_PTX, of "ucast ?p OR pgtable_perm flags"] by blast
    have "ok s2" "room s2 = room s1" using ok_tables [OF k'(1) w(4)] counts_tables(2) [of _ s1] w(5) by metis+
    moreover have "(if m = vpn vaddr + i then ucast ?p OR pgtable_perm flags
        else if vpn vaddr \<le> m \<and> m < vpn vaddr + i then ucast (paddr + of_nat (4096 * (m - vpn vaddr))) OR pgtable_perm flags
        else page_entry s pg m) =
      (if vpn vaddr \<le> m \<and> m < vpn vaddr + Suc i then ucast (paddr + of_nat (4096 * (m - vpn vaddr))) OR pgtable_perm flags
        else page_entry s pg m)" for m by (auto simp: less_Suc_eq simp del: of_nat_mult)
    ultimately have "keeps (Suc i) s2" using k w(2,3,6) d(1) unfolding keeps_def v by simp
    then have "I (Suc i) (?p + PAGE_SIZE, ?v + PAGE_SIZE, desc_of dir pg ?v, s2)"
      unfolding step_Suc by (auto simp: I_def)
    moreover have "body st = Inr (Cont (?p + PAGE_SIZE, ?v + PAGE_SIZE, desc_of dir pg ?v, s2))"
      using lt g st w(1) by (simp add: body_def desc_of_def del: of_nat_mult)
    ultimately show "(\<exists>st'. body st = Inr (Cont st') \<and> I (Suc i) st') \<or>
      (\<exists>x. loop body st = Some x \<and> (\<exists>s'. x = Inr s' \<and> keeps n s'))" by blast
  next
    fix st assume "I n st"
    then obtain pd s1 where st: "st = (paddr + of_nat (4096 * n), vaddr + of_nat (4096 * n), pd, s1)" and k: "keeps n s1"
      by (auto simp: I_def)
    have "body st = Inr (Break s1)" using st by (simp add: body_def)
    with k show "\<exists>x. loop body st = Some x \<and> (\<exists>s'. x = Inr s' \<and> keeps n s')" by (auto simp: loop_Break)
  qed
  then show ?thesis unfolding map_fill_def body_def [symmetric] by (auto simp: keeps_def)
qed

lemma table_empty_spec:
  assumes wf: "pgt_wf s pg" and dir: "vm_tables s pg = Some dir" "dir ! k \<noteq> 0" and k: "k < 1024"
  shows "table_empty (dir ! k) s = Inr (\<forall>m. m div 1024 = k \<longrightarrow> page_entry s pg m = 0)"
proof -
  have e: "rd_entry (dir ! k) (of_nat i) s = Inr (page_entry s pg (k * 1024 + i))" if "i < 1024" for i
    using rd_leaf [OF wf dir(1), of "k * 1024 + i" "of_nat i"] dir(2) k that
    by (simp add: unat_of_nat_u32)
  have "scan 0 1024 (\<lambda>i. and_then (rd_entry (dir ! k) (of_nat i) s) (\<lambda>e. Inr (e \<noteq> 0))) =
    Inr (\<exists>j. 0 \<le> j \<and> j < 1024 \<and> page_entry s pg (k * 1024 + j) \<noteq> 0)"
    by (rule scan_spec) (simp add: e)
  moreover have "(\<exists>j. 0 \<le> j \<and> j < 1024 \<and> page_entry s pg (k * 1024 + j) \<noteq> 0) \<longleftrightarrow>
    \<not> (\<forall>m. m div 1024 = k \<longrightarrow> page_entry s pg m = 0)"
  proof -
    have "\<exists>j<1024. m = k * 1024 + j" if "m div 1024 = k" for m
      using that by (intro exI [of _ "m mod 1024"]) (auto simp: mult.commute)
    then show ?thesis by (metis div_mult_self3 div_less add.commute add.right_neutral le0 zero_neq_numeral)
  qed
  ultimately show ?thesis by (simp add: table_empty_def NR_PTENTRIES_eq)
qed

text \<open>Taking an empty leaf table out of the directory.\<close>

lemma drop_leaf:
  assumes ok: "ok (drop_table (dir ! k) s1)" and wf: "pgt_wf s pg" and dir: "vm_tables s pg = Some dir" "dir ! k \<noteq> 0"
    and k: "k < 1024" and empty: "\<forall>m. m div 1024 = k \<longrightarrow> page_entry s pg m = 0" and s1: "vm_tables s1 = vm_tables s"
  shows "\<exists>s2. wr_entry pg (of_nat k) 0 (drop_table (dir ! k) s1) = Inr s2 \<and> ok s2 \<and> pgt_wf s2 pg \<and> room s2 = room s1 \<and>
    (\<forall>m. m div 1024 < 1024 \<longrightarrow> page_entry s2 pg m = page_entry s pg m) \<and>
    (\<forall>i<1024. i \<noteq> k \<longrightarrow> has_leaf s2 pg i = has_leaf s pg i)"
proof -
  obtain d where wf': "vm_tables s pg = Some d" "length d = 1024"
    "\<And>i. i < 1024 \<Longrightarrow> d ! i \<noteq> 0 \<Longrightarrow> d ! i \<noteq> pg \<and> (\<exists>t. vm_tables s (d ! i) = Some t \<and> length t = 1024)"
    "\<And>i j. i < 1024 \<Longrightarrow> j < 1024 \<Longrightarrow> d ! i \<noteq> 0 \<Longrightarrow> d ! i = d ! j \<Longrightarrow> i = j"
    by (rule pgt_wfE [OF wf]) blast
  have d: "d = dir" using wf'(1) dir(1) by simp
  note wf' = wf' [unfolded d]
  let ?t = "dir ! k" and ?d = "dir[k := 0]"
  have tp: "?t \<noteq> pg" using wf'(3) [OF k dir(2)] by simp
  let ?s = "(drop_table ?t s1)\<lparr>vm_tables := (vm_tables (drop_table ?t s1))(pg \<mapsto> ?d)\<rparr>"
  have ft: "vm_tables ?s = (vm_tables s)(?t := None, pg \<mapsto> ?d)" using s1 by (simp add: drop_table_def)
  have di: "?d ! j = (if j = k then 0 else dir ! j)" for j using wf'(2) k by (auto simp: nth_list_update)
  have "wr_entry pg (of_nat k) 0 (drop_table ?t s1) = Inr ?s"
    using wf'(1,2) tp k s1 by (simp add: wr_entry_def drop_table_def unat_of_nat_u32)
  moreover have "ok ?s" by (rule ok_tables [OF ok]) (use wf'(1) s1 tp in \<open>auto simp: drop_table_def\<close>)
  moreover have "room ?s = room s1" by (simp add: drop_table_def counts_tables)
  moreover have other: "dir ! j \<noteq> ?t" if "j < 1024" "dir ! j \<noteq> 0" "j \<noteq> k" for j using wf'(4) [OF that(1) k that(2)] that(3) by auto
  moreover have "pgt_wf ?s pg" unfolding pgt_wf_def ft
  proof (intro exI conjI)
    show "((vm_tables s)(?t := None, pg \<mapsto> ?d)) pg = Some ?d" by simp
    show "\<forall>i<1024. ?d ! i \<noteq> 0 \<longrightarrow> ?d ! i \<noteq> pg \<and>
      (\<exists>t. ((vm_tables s)(?t := None, pg \<mapsto> ?d)) (?d ! i) = Some t \<and> length t = 1024)"
      using wf'(3) other by (auto simp: di)
    show "\<forall>i<1024. \<forall>j<1024. ?d ! i \<noteq> 0 \<longrightarrow> ?d ! i = ?d ! j \<longrightarrow> i = j"
      using wf'(4) by (auto simp: di)
  qed (use wf'(2) in simp)
  moreover have "page_entry ?s pg m = page_entry s pg m" if "m div 1024 < 1024" for m
  proof (cases "m div 1024 = k")
    case True
    with empty show ?thesis by (simp add: page_entry_def ft di)
  next
    case False
    with that wf'(1) other [of "m div 1024"] wf'(3) [of "m div 1024"] show ?thesis by (auto simp: page_entry_def ft di)
  qed
  moreover have "has_leaf ?s pg i = has_leaf s pg i" if "i < 1024" "i \<noteq> k" for i
    using that wf'(1) by (auto simp: has_leaf_def ft di)
  ultimately show ?thesis by blast
qed

text \<open>Freeing the empty leaf tables of a range, all of which exist; there is room to put them back.\<close>

lemma free_intermediate_spec:
  assumes ok: "ok s" and wf: "pgt_wf s pg" and leaf: "\<forall>k. lo \<le> k \<and> k \<le> hi \<longrightarrow> has_leaf s pg k" and hi: "hi < 1024"
    and ix: "unat (PDX vaddr) = lo" "unat (PDX (vaddr + sz - PAGE_SIZE)) = hi" and room: "Suc hi - lo \<le> room s"
  shows "\<exists>s'. free_intermediate_pgtable pgf pg vaddr sz s = Inr s' \<and> ok s' \<and> pgt_wf s' pg \<and>
      (\<forall>m. m div 1024 < 1024 \<longrightarrow> page_entry s' pg m = page_entry s pg m)"
proof -
  let ?last = "PDX (vaddr + sz - PAGE_SIZE)"
  define body where "body = (\<lambda>(pdx, s).
        if pdx \<le> ?last
        then and_then (rd_entry pg pdx s) (\<lambda>pte.
             and_then (table_empty pte s) (\<lambda>empty.
             if empty
             then and_then (pgf (ucast (kva2pa pte)) s) (\<lambda>s.
                  and_then (wr_entry pg pdx 0 (drop_table pte s)) (\<lambda>s. Inr (Cont (pdx + 1, s))))
             else Inr (Cont (pdx + 1, s))))
        else Inr (Break s))"
  define keeps where "keeps = (\<lambda>i s'. ok s' \<and> pgt_wf s' pg \<and> (\<forall>k. lo + i \<le> k \<and> k \<le> hi \<longrightarrow> has_leaf s' pg k) \<and>
    (\<forall>m. m div 1024 < 1024 \<longrightarrow> page_entry s' pg m = page_entry s pg m) \<and> Suc hi - lo \<le> room s' + i)"
  define I where "I = (\<lambda>i (st :: u32 \<times> 'a vmem_scheme). \<exists>s'. st = (PDX vaddr + of_nat i, s') \<and> keeps i s')"
  define Q where "Q = (\<lambda>x :: 'a vmem_scheme res. \<exists>s' i. x = Inr s' \<and> keeps i s')"
  have "\<exists>x. loop body (PDX vaddr, s) = Some x \<and> Q x"
  proof (rule loop_for [where I = I and n = "Suc hi - lo"])
    show "I 0 (PDX vaddr, s)" using ok wf leaf room by (simp add: I_def keeps_def)
  next
    fix i st assume i: "i < Suc hi - lo" and "I i st"
    then obtain s1 where st: "st = (PDX vaddr + of_nat i, s1)" and k: "keeps i s1" by (auto simp: I_def)
    let ?k = "lo + i"
    have kl: "?k \<le> hi" "?k < 1024" using i hi by auto
    have u: "unat (PDX vaddr + of_nat i) = ?k" using ix(1) kl by (subst unat_add_lem [THEN iffD1]) (simp_all add: unat_of_nat_u32)
    have "unat (of_nat ?k :: u32) = ?k" by (rule unat_of_nat_u32) (use kl(2) in simp)
    then have pdx: "PDX vaddr + of_nat i = of_nat ?k" unfolding word_unat_eq_iff u by (rule sym)
    have le: "PDX vaddr + of_nat i \<le> ?last" using u ix(2) kl by (simp add: word_le_nat_alt)
    from k have k': "ok s1" "pgt_wf s1 pg" "has_leaf s1 pg ?k" "room s1 \<noteq> 0" using kl i by (auto simp: keeps_def)
    obtain dir where d: "vm_tables s1 pg = Some dir" "dir ! ?k \<noteq> 0" "length dir = 1024"
      using k'(2,3) by (auto simp: has_leaf_def pgt_wf_def split: option.splits)
    have r: "rd_entry pg (PDX vaddr + of_nat i) s1 = Inr (dir ! ?k)" using d(1,3) u kl by (simp add: rd_entry_def)
    note t = table_empty_spec [OF k'(2) d(1,2) kl(2)]
    have nxt: "I (Suc i) (PDX vaddr + of_nat i + 1, s2)" if "keeps (Suc i) s2" for s2
      using that by (auto simp: I_def algebra_simps)
    have "\<exists>st'. body st = Inr (Cont st') \<and> I (Suc i) st'"
    proof (cases "\<forall>m. m div 1024 = ?k \<longrightarrow> page_entry s1 pg m = 0")
      case False
      have "keeps (Suc i) s1" using k by (simp add: keeps_def)
      moreover have "body st = Inr (Cont (PDX vaddr + of_nat i + 1, s1))" using le r t False st by (simp add: body_def)
      ultimately show ?thesis using nxt by blast
    next
      case True
      have "dir ! ?k \<in> dom (vm_tables s1)" using k'(2) d kl(2) by (auto simp: pgt_wf_def)
      from pgf_page [OF k'(1) this] k'(4) obtain s2 where
        s2: "pgf (ucast (kva2pa (dir ! ?k))) s1 = Inr s2" "vm_tables s2 = vm_tables s1" "ok (drop_table (dir ! ?k) s2)" "room s1 = Suc (room s2)" by auto
      from drop_leaf [OF s2(3) k'(2) d(1,2) kl(2) True s2(2)] obtain s3 where
        s3: "wr_entry pg (of_nat ?k) 0 (drop_table (dir ! ?k) s2) = Inr s3" "ok s3" "pgt_wf s3 pg" "room s3 = room s2"
        "\<forall>m. m div 1024 < 1024 \<longrightarrow> page_entry s3 pg m = page_entry s1 pg m"
        "\<forall>i<1024. i \<noteq> ?k \<longrightarrow> has_leaf s3 pg i = has_leaf s1 pg i" by blast
      have "keeps (Suc i) s3" using k s3 hi s2(4) by (auto simp: keeps_def)
      moreover have "body st = Inr (Cont (PDX vaddr + of_nat i + 1, s3))"
        using le r t True st s2(1) s3(1) unfolding pdx [symmetric] by (simp add: body_def)
      ultimately show ?thesis using nxt by blast
    qed
    then show "(\<exists>st'. body st = Inr (Cont st') \<and> I (Suc i) st') \<or> (\<exists>x. loop body st = Some x \<and> Q x)" ..
  next
    fix st assume "I (Suc hi - lo) st"
    then obtain s1 where st: "st = (PDX vaddr + of_nat (Suc hi - lo), s1)" and k: "keeps (Suc hi - lo) s1" by (auto simp: I_def)
    have "\<not> PDX vaddr + of_nat (Suc hi - lo) \<le> ?last"
    proof (cases "lo \<le> hi")
      case True
      have "unat (PDX vaddr + of_nat (Suc hi - lo)) = Suc hi"
        using ix(1) hi True by (subst unat_add_lem [THEN iffD1]) (simp_all add: unat_of_nat_u32 del: of_nat_diff)
      then show ?thesis using ix(2) by (simp add: word_le_nat_alt)
    next
      case False
      then show ?thesis using ix by (simp add: word_le_nat_alt)
    qed
    then have "body st = Inr (Break s1)" using st by (simp add: body_def)
    with k show "\<exists>x. loop body st = Some x \<and> Q x" by (auto simp: loop_Break Q_def)
  qed
  then show ?thesis unfolding free_intermediate_pgtable_def Let_def body_def [symmetric] by (auto simp: Q_def keeps_def)
qed
end

section \<open>Mapping pages\<close>

lemma aligned_PAGE_SIZE: "IS_ALIGNED x PAGE_SIZE \<longleftrightarrow> 4096 dvd unat x" for x :: "'a::len word"
proof -
  have "(PAGE_SIZE :: 'a word) = 2 ^ 12" by (simp add: PAGE_SIZE_def)
  then show ?thesis using IS_ALIGNED_iff [of x 12] by simp
qed

lemma pend_eq:
  fixes paddr :: u64 and sz :: u32
  assumes "unat sz = 4096 * n"
  shows "paddr + ucast sz = paddr + of_nat (4096 * n)"
proof -
  have "(ucast sz :: u64) = of_nat (unat sz)" by (simp add: word_unat_eq_iff unsigned_ucast_eq unat_of_nat)
  then show "paddr + ucast sz = paddr + of_nat (4096 * n)" unfolding assms by (rule arg_cong)
qed

context page_source
begin

text \<open>Undoing the first pass of a mapping that failed at page \<open>i\<close>.\<close>

lemma rollback_spec:
  assumes ok: "ok s" and wf: "pgt_wf s pg" and va: "4096 dvd unat vaddr" "unat vaddr + 4096 * i < 2 ^ 32"
    and leaf: "\<forall>k\<in>leaf_range (vpn vaddr) i. has_leaf s pg k"
    and first: "i = 0 \<Longrightarrow> 0 < unat vaddr \<and> (vpn vaddr mod 1024 = 0 \<or> has_leaf s pg (vpn vaddr div 1024))"
    and room: "card (leaf_range (vpn vaddr) (max 1 i)) \<le> room s"
  shows "\<exists>s'. free_intermediate_pgtable pgf pg vaddr (of_nat (4096 * i)) s = Inr s' \<and> ok s' \<and> pgt_wf s' pg \<and>
      (\<forall>m. m div 1024 < 1024 \<longrightarrow> page_entry s' pg m = page_entry s pg m)"
proof -
  obtain q where q: "unat vaddr = 4096 * q" using va(1) by (auto simp: dvd_def)
  have pos: "0 < q + i" using first q by (cases i) auto
  have u: "unat (of_nat (4096 * i) :: u32) = 4096 * i" by (rule unat_of_nat_u32) (use va(2) in simp)
  have "unat (vaddr + of_nat (4096 * i)) = unat vaddr + unat (of_nat (4096 * i) :: u32)"
    by (rule unat_add_lem [THEN iffD1]) (use va(2) in \<open>simp only: u; simp\<close>)
  then have ua: "unat (vaddr + of_nat (4096 * i)) = 4096 * (q + i)" unfolding u q by simp
  have "4096 * 1 \<le> 4096 * (q + i)" using pos by (intro mult_le_mono2) linarith
  then have "PAGE_SIZE \<le> vaddr + of_nat (4096 * i)" unfolding word_le_nat_alt unat_PAGE_SIZE ua by simp
  then have "unat (vaddr + of_nat (4096 * i) - PAGE_SIZE) = 4096 * (q + i) - 4096"
    using ua by (simp only: unat_sub unat_PAGE_SIZE)
  then have v: "vpn (vaddr + of_nat (4096 * i) - PAGE_SIZE) = q + i - 1" by simp
  have hi: "unat (PDX (vaddr + of_nat (4096 * i) - PAGE_SIZE)) = (q + i - 1) div 1024" unfolding unat_PDX v ..
  have lo: "unat (PDX vaddr) = q div 1024" using q by (simp add: unat_PDX)
  have lt: "(q + i - 1) div 1024 < 1024" using vpn_less(1) [of "vaddr + of_nat (4096 * i) - PAGE_SIZE"] v by simp
  have vq: "vpn vaddr = q" using q by simp
  have "(\<forall>k. q div 1024 \<le> k \<and> k \<le> (q + i - 1) div 1024 \<longrightarrow> has_leaf s pg k) \<and> Suc ((q + i - 1) div 1024) - q div 1024 \<le> room s"
  proof (cases "i = 0")
    case True
    have le: "(q - 1) div 1024 \<le> q div 1024" by (intro div_le_mono) simp
    have "has_leaf s pg (q div 1024)" if "q div 1024 \<le> (q - 1) div 1024"
    proof -
      have "q mod 1024 \<noteq> 0"
      proof
        assume "q mod 1024 = 0"
        then obtain c where c: "q = 1024 * c" by (auto simp: dvd_def mod_eq_0_iff_dvd)
        then have "(q - 1) div 1024 < c" using pos True by (intro less_mult_imp_div_less) simp
        with that c show False by simp
      qed
      with first True vq show ?thesis by simp
    qed
    moreover have "1 \<le> room s" using room True by (simp add: leaf_range_interval)
    ultimately show ?thesis using le True by (auto dest: le_antisym)
  next
    case False
    then have r: "leaf_range q i = {q div 1024..(q + i - 1) div 1024}" by (intro leaf_range_interval) simp
    have "max 1 i = i" using False by simp
    then have "Suc ((q + i - 1) div 1024) - q div 1024 \<le> room s" using room unfolding vq by (simp add: r)
    moreover have "\<forall>k\<in>{q div 1024..(q + i - 1) div 1024}. has_leaf s pg k" using leaf unfolding vq r .
    ultimately show ?thesis by simp
  qed
  then show ?thesis using free_intermediate_spec [OF ok wf _ lt lo hi] by blast
qed

text \<open>A call is the first pass, followed by the second or by the release of what the first created.\<close>

lemma map_pages_passes:
  assumes ok: "ok s" and wf: "pgt_wf s pg" and va: "4096 dvd unat vaddr" "unat vaddr + 4096 * n \<le> 2 ^ 32"
    and pa: "4096 dvd unat paddr" "unat paddr + 4096 * n < 2 ^ 64" and sz: "unat sz = 4096 * n"
  shows "(\<exists>s'. map_pages pga pgf pd pg vaddr paddr sz flags s = Inr (0, s') \<and> ok s' \<and> pgt_wf s' pg \<and> room s' = room s \<and>
      (\<forall>j<n. page_entry s pg (vpn vaddr + j) = 0) \<and> card (missing s pg (vpn vaddr) n) \<le> pages s \<and>
      (\<forall>m. m div 1024 < 1024 \<longrightarrow> page_entry s' pg m =
        (if vpn vaddr \<le> m \<and> m < vpn vaddr + n then ucast (paddr + of_nat (4096 * (m - vpn vaddr))) OR pgtable_perm flags
         else page_entry s pg m))) \<or>
    (\<exists>i<n. \<exists>r s1. map_pages pga pgf pd pg vaddr paddr sz flags s =
        and_then (free_intermediate_pgtable pgf pg vaddr (of_nat (4096 * i)) s1) (\<lambda>s. Inr (r, s)) \<and>
      tables_made pg (vpn vaddr) s i s1 \<and>
      (r = - EEXIST \<and> page_entry s pg (vpn vaddr + i) \<noteq> 0 \<or>
       r = - ENOMEM \<and> \<not> has_leaf s1 pg ((vpn vaddr + i) div 1024) \<and> pages s1 = 0))"
proof -
  have al: "\<not> (\<not> IS_ALIGNED paddr PAGE_SIZE \<or> \<not> IS_ALIGNED sz PAGE_SIZE \<or> \<not> IS_ALIGNED vaddr PAGE_SIZE)"
    using va(1) pa(1) sz by (simp add: aligned_PAGE_SIZE)
  obtain r i pd' s1 where a: "map_alloc pga pg (paddr + of_nat (4096 * n)) (paddr, vaddr, pd, s) =
      Inr (r, vaddr + of_nat (4096 * i), pd', s1)" "tables_made pg (vpn vaddr) s i s1"
    "r = 0 \<and> i = n \<or> i < n \<and> r = - EEXIST \<and> page_entry s pg (vpn vaddr + i) \<noteq> 0 \<or>
     i < n \<and> r = - ENOMEM \<and> \<not> has_leaf s1 pg ((vpn vaddr + i) div 1024) \<and> pages s1 = 0"
    using map_alloc_spec [OF ok wf va pa(2), of pd] by blast
  show ?thesis
  proof (cases "r = 0")
    case False
    have "map_pages pga pgf pd pg vaddr paddr sz flags s =
      and_then (free_intermediate_pgtable pgf pg vaddr (of_nat (4096 * i)) s1) (\<lambda>s. Inr (r, s))"
      using al a(1) False by (simp add: map_pages_def Let_def pend_eq [OF sz] del: of_nat_mult)
    with a(2,3) False show ?thesis by blast
  next
    case True
    then have i: "i = n" using a(3) by (auto simp: errno_defs)
    have m: "ok s1" "pgt_wf s1 pg" "\<forall>k<1024. has_leaf s1 pg k \<longleftrightarrow> has_leaf s pg k \<or> k \<in> leaf_range (vpn vaddr) n"
      "\<forall>m. m div 1024 < 1024 \<longrightarrow> page_entry s1 pg m = page_entry s pg m" "\<forall>j<n. page_entry s pg (vpn vaddr + j) = 0"
      "pages s = card (missing s pg (vpn vaddr) n) + pages s1" "room s1 = room s"
      using a(2) unfolding i tables_made_def by blast+
    have "has_leaf s1 pg ((vpn vaddr + j) div 1024)" if "j < n" for j
    proof -
      have "unat vaddr + 4096 * j < 2 ^ 32" using va(2) that by simp
      then have "(vpn vaddr + j) div 1024 < 1024" using vpn_less(1) [of "vaddr + of_nat (4096 * j)"] vpn_step [OF va(1)] by simp
      with m(3) that show ?thesis by (auto simp: leaf_range_def)
    qed
    then have leaf: "\<forall>j<n. has_leaf s1 pg ((vpn vaddr + j) div 1024)" by blast
    from map_fill_spec [OF m(1,2) va pa(2) leaf, of flags pd'] obtain s' where
      f: "map_fill pga pg (paddr + of_nat (4096 * n)) flags (paddr, vaddr, pd', s1) = Inr s'" "ok s'" "pgt_wf s' pg" "room s' = room s1"
      "\<forall>m. m div 1024 < 1024 \<longrightarrow> page_entry s' pg m =
        (if vpn vaddr \<le> m \<and> m < vpn vaddr + n then ucast (paddr + of_nat (4096 * (m - vpn vaddr))) OR pgtable_perm flags
         else page_entry s1 pg m)" by blast
    have "map_pages pga pgf pd pg vaddr paddr sz flags s = Inr (0, s')"
      using al a(1) True f(1) by (simp add: map_pages_def Let_def pend_eq [OF sz] del: of_nat_mult)
    with f m(4-7) show ?thesis by (intro disjI1) simp
  qed
qed

lemma map_pages_done:
  assumes "ok s" "pgt_wf s pg" "4096 dvd unat vaddr" "unat vaddr + 4096 * n \<le> 2 ^ 32"
    "4096 dvd unat paddr" "unat paddr + 4096 * n < 2 ^ 64" "unat sz = 4096 * n"
    and run: "map_pages pga pgf pd pg vaddr paddr sz flags s = Inr (0, s')"
  shows "ok s'" "pgt_wf s' pg" "room s' = room s" "\<forall>j<n. page_entry s pg (vpn vaddr + j) = 0"
    "\<forall>m. m div 1024 < 1024 \<longrightarrow> page_entry s' pg m =
        (if vpn vaddr \<le> m \<and> m < vpn vaddr + n then ucast (paddr + of_nat (4096 * (m - vpn vaddr))) OR pgtable_perm flags
         else page_entry s pg m)"
proof -
  have "map_pages pga pgf pd pg vaddr paddr sz flags s \<noteq> and_then x (\<lambda>s. Inr (- EEXIST, s))"
    "map_pages pga pgf pd pg vaddr paddr sz flags s \<noteq> and_then x (\<lambda>s. Inr (- ENOMEM, s))" for x
    using run by (cases x; simp add: errno_defs)+
  with map_pages_passes [OF assms(1-7), of pd flags] run
  have "ok s' \<and> pgt_wf s' pg \<and> room s' = room s \<and> (\<forall>j<n. page_entry s pg (vpn vaddr + j) = 0) \<and>
    (\<forall>m. m div 1024 < 1024 \<longrightarrow> page_entry s' pg m =
        (if vpn vaddr \<le> m \<and> m < vpn vaddr + n then ucast (paddr + of_nat (4096 * (m - vpn vaddr))) OR pgtable_perm flags
         else page_entry s pg m))" by auto
  then show "ok s'" "pgt_wf s' pg" "room s' = room s" "\<forall>j<n. page_entry s pg (vpn vaddr + j) = 0"
    "\<forall>m. m div 1024 < 1024 \<longrightarrow> page_entry s' pg m =
        (if vpn vaddr \<le> m \<and> m < vpn vaddr + n then ucast (paddr + of_nat (4096 * (m - vpn vaddr))) OR pgtable_perm flags
         else page_entry s pg m)" by blast+
qed

text \<open>A call succeeds exactly when no page is mapped and there are pages for the missing leaf tables.\<close>

lemma map_pages_succeeds:
  assumes "ok s" "pgt_wf s pg" and va: "4096 dvd unat vaddr" "unat vaddr + 4096 * n \<le> 2 ^ 32"
    and "4096 dvd unat paddr" "unat paddr + 4096 * n < 2 ^ 64" "unat sz = 4096 * n"
    and free: "\<forall>j<n. page_entry s pg (vpn vaddr + j) = 0" and enough: "card (missing s pg (vpn vaddr) n) \<le> pages s"
  shows "\<exists>s'. map_pages pga pgf pd pg vaddr paddr sz flags s = Inr (0, s')"
  using map_pages_passes [OF assms(1-7), of pd flags]
proof (elim disjE exE conjE)
  fix i r s1 assume i: "i < n" "tables_made pg (vpn vaddr) s i s1" "\<not> has_leaf s1 pg ((vpn vaddr + i) div 1024)" "pages s1 = 0"
  have "unat vaddr + 4096 * i < 2 ^ 32" using va(2) i(1) by simp
  then have "(vpn vaddr + i) div 1024 < 1024" using vpn_less(1) [of "vaddr + of_nat (4096 * i)"] vpn_step [OF va(1)] by simp
  from tables_made_leaf [OF i(2) this i(3)] have "pages s < card (missing s pg (vpn vaddr) (Suc i))"
    using i(2,4) by (simp add: tables_made_def)
  then show ?thesis using enough missing_mono [of "Suc i" n s pg "vpn vaddr"] i(1) by simp
qed (use free in auto)

text \<open>
  Otherwise the first page at which it cannot go on decides the error. The tables that it created
  are given back, for which there must be room, and all entries are what they were.
\<close>

lemma map_pages_fails:
  assumes "ok s" "pgt_wf s pg" and va: "4096 dvd unat vaddr" "unat vaddr + 4096 * n \<le> 2 ^ 32"
    and "4096 dvd unat paddr" "unat paddr + 4096 * n < 2 ^ 64" "unat sz = 4096 * n"
    and i: "i < n" "\<forall>j<i. page_entry s pg (vpn vaddr + j) = 0" "card (missing s pg (vpn vaddr) i) \<le> pages s"
    and stop: "page_entry s pg (vpn vaddr + i) \<noteq> 0 \<or> pages s < card (missing s pg (vpn vaddr) (Suc i))"
    and room: "card (leaf_range (vpn vaddr) n) \<le> room s"
    and first: "i = 0 \<Longrightarrow> 0 < unat vaddr \<and> (vpn vaddr mod 1024 = 0 \<or> page_entry s pg (vpn vaddr) \<noteq> 0)"
  shows "\<exists>s'. map_pages pga pgf pd pg vaddr paddr sz flags s =
      Inr (if page_entry s pg (vpn vaddr + i) \<noteq> 0 then - EEXIST else - ENOMEM, s') \<and> ok s' \<and> pgt_wf s' pg \<and>
    (\<forall>m. m div 1024 < 1024 \<longrightarrow> page_entry s' pg m = page_entry s pg m)"
proof -
  have vl: "(vpn vaddr + j) div 1024 < 1024" if "j < n" for j
  proof -
    have "unat vaddr + 4096 * j < 2 ^ 32" using va(2) that by simp
    then show ?thesis using vpn_less(1) [of "vaddr + of_nat (4096 * j)"] vpn_step [OF va(1)] by simp
  qed
  have mono: "card (missing s pg (vpn vaddr) a) \<le> card (missing s pg (vpn vaddr) b)" if "a \<le> b" for a b
    by (rule missing_mono [OF that])
  have big: "pages s < card (missing s pg (vpn vaddr) (Suc k))"
    if "k < n" "tables_made pg (vpn vaddr) s k s1" "\<not> has_leaf s1 pg ((vpn vaddr + k) div 1024)" "pages s1 = 0" for k s1
    using tables_made_leaf [OF that(2) vl [OF that(1)] that(3)] that(2,4) by (simp add: tables_made_def)
  have no: "\<not> (\<forall>j<n. page_entry s pg (vpn vaddr + j) = 0) \<or> \<not> card (missing s pg (vpn vaddr) n) \<le> pages s"
    using stop i(1) mono [of "Suc i" n] by auto
  then obtain k r s1 where k: "k < n" and run: "map_pages pga pgf pd pg vaddr paddr sz flags s =
      and_then (free_intermediate_pgtable pgf pg vaddr (of_nat (4096 * k)) s1) (\<lambda>s. Inr (r, s))"
    and made: "tables_made pg (vpn vaddr) s k s1"
    and r: "r = - EEXIST \<and> page_entry s pg (vpn vaddr + k) \<noteq> 0 \<or>
       r = - ENOMEM \<and> \<not> has_leaf s1 pg ((vpn vaddr + k) div 1024) \<and> pages s1 = 0"
    using map_pages_passes [OF assms(1-7), of pd flags] by blast
  note M = made [unfolded tables_made_def]
  have ki: "k = i"
  proof (rule linorder_cases [of k i])
    assume "k < i"
    then show ?thesis using r i(2,3) big [OF k made] mono [of "Suc k" i] by fastforce
  next
    assume "i < k"
    then show ?thesis using M stop mono [of "Suc i" k] by fastforce
  qed
  have same: "page_entry s1 pg m = page_entry s pg m" if "m div 1024 < 1024" for m using M that by blast
  have "r = (if page_entry s pg (vpn vaddr + i) \<noteq> 0 then - EEXIST else - ENOMEM)"
    using r same [OF vl [OF i(1)]] entry_leaf [of s1 pg "vpn vaddr + i"] unfolding ki by auto
  moreover have "\<exists>s'. free_intermediate_pgtable pgf pg vaddr (of_nat (4096 * i)) s1 = Inr s' \<and> ok s' \<and> pgt_wf s' pg \<and>
      (\<forall>m. m div 1024 < 1024 \<longrightarrow> page_entry s' pg m = page_entry s1 pg m)"
  proof (rule rollback_spec)
    show "unat vaddr + 4096 * i < 2 ^ 32" using va(2) i(1) by simp
    have "k < 1024" if "k \<in> leaf_range (vpn vaddr) i" for k using that vl i(1) by (auto simp: leaf_range_def)
    then show "\<forall>k\<in>leaf_range (vpn vaddr) i. has_leaf s1 pg k" using M unfolding ki by blast
    show "i = 0 \<Longrightarrow> 0 < unat vaddr \<and> (vpn vaddr mod 1024 = 0 \<or> has_leaf s1 pg (vpn vaddr div 1024))"
      using first same [OF vpn_less(1)] entry_leaf [of s1 pg "vpn vaddr"] by auto
    have "leaf_range (vpn vaddr) (max 1 i) \<subseteq> leaf_range (vpn vaddr) n" using i(1) by (auto simp: leaf_range_def)
    then have "card (leaf_range (vpn vaddr) (max 1 i)) \<le> card (leaf_range (vpn vaddr) n)"
      by (rule card_mono [rotated]) (simp add: leaf_range_def)
    then show "card (leaf_range (vpn vaddr) (max 1 i)) \<le> room s1" using room M by simp
  qed (use M va in blast)+
  ultimately show ?thesis unfolding run ki using same by auto
qed
end

section \<open>Tables on the page allocator\<close>

text \<open>
  The bytes of memory outside the objects are not part of the state, so that clearing a page that
  is no table changes nothing. Before the object allocator is up, the tables take their pages
  from the page allocator over the bootstrap allocator.
\<close>

definition plain_memset :: "'s memset_fn" where
  "plain_memset p b n s = Inr s"

abbreviation boot_pgalloc :: "u64 \<Rightarrow> 'a pg_get" where
  "boot_pgalloc p0 \<equiv> pgalloc (palloc_table simple1 plain_memset) plain_memset p0"

abbreviation boot_pgfree :: "'a pg_put" where
  "boot_pgfree \<equiv> pgfree (palloc_table simple1 plain_memset) plain_memset"

definition table_apart :: "block list \<Rightarrow> ptr \<Rightarrow> bool" where
  "table_apart bs t \<longleftrightarrow> 2 ^ 31 \<le> unat t \<and> 4096 dvd unat t \<and>
     {unat t - 2 ^ 31..<unat t - 2 ^ 31 + 4096} \<inter> free_mem bs = {}"

definition vm_ok :: "'a vmem_scheme \<Rightarrow> bool" where
  "vm_ok s \<longleftrightarrow> boot_ok s \<and> (\<exists>bs. blocks_rep s bs \<and> whole_pages (2 ^ 31) bs \<and> (\<forall>t\<in>dom (vm_tables s). table_apart bs t))"

lemma premap_low: "r < 2 ^ 31 \<Longrightarrow> unat (premap_addr (of_nat r)) = r"
proof -
  assume r: "r < 2 ^ 31"
  have "unat (ucast (of_nat r :: u64) :: u32) = r"
    using r by (simp add: unsigned_ucast_eq unat_of_nat take_bit_nat_eq_self)
  then show ?thesis using r by (simp add: premap_addr_def Let_def KERN_BASE_def word_le_nat_alt)
qed

lemma pa2kva_low: "r < 2 ^ 31 \<Longrightarrow> unat (pa2kva (of_nat r)) = r + 2 ^ 31"
proof -
  assume r: "r < 2 ^ 31"
  have "unat (ucast (of_nat r :: u64) :: u32) = r"
    using r by (simp add: unsigned_ucast_eq unat_of_nat take_bit_nat_eq_self)
  then show ?thesis unfolding pa2kva_def using r
    by (subst unat_add_lem [THEN iffD1]) (simp_all add: KERN_BASE_def)
qed

text \<open>The pages that are free, and the nodes for which the bootstrap allocator has memory.\<close>

definition pages_free :: "'a vmem_scheme \<Rightarrow> nat" where
  "pages_free s = unat (pa_free_size s) div 4096"

definition nodes_left :: "'a vmem_scheme \<Rightarrow> nat" where
  "nodes_left s = (unat (km_bottom s) + unat (km_ssize s) - unat (km_top s)) div 32"

lemma kfree_simple1 [simp]: "kfree simple1 p s = Inr s"
  by (simp add: kfree_def simple1_def simple_free_def)

lemma palloc_alloc_frame:
  "palloc_alloc (kfree simple1) p s = Inr (r, p', s') \<Longrightarrow> km_top s' = km_top s \<and> km_bottom s' = km_bottom s \<and> km_ssize s' = km_ssize s"
  by (auto simp: palloc_alloc_def block_shrink_def and_then_eq_Inr split: if_splits)

lemma merge_frame:
  "merge_prev (kfree simple1) a s = Inr (a', s') \<Longrightarrow> km_top s' = km_top s \<and> km_bottom s' = km_bottom s \<and> km_ssize s' = km_ssize s"
  "merge_next_block (kfree simple1) a s = Inr s' \<Longrightarrow> km_top s' = km_top s \<and> km_bottom s' = km_bottom s \<and> km_ssize s' = km_ssize s"
  by (auto simp: merge_prev_def merge_next_block_def and_then_eq_Inr split: if_splits)

lemma palloc_free_frame:
  assumes run: "palloc_free (kmalloc_block simple1 memset) (kfree simple1) p s = Inr s'" and ok: "boot_ok s" and "pg_size p mod PAGE_SIZE = 0"
  shows "km_top s' = km_top s + 32 \<and> km_bottom s' = km_bottom s \<and> km_ssize s' = km_ssize s"
proof -
  have f: "km_top (fresh_block q s1) = km_top s1 \<and> km_bottom (fresh_block q s1) = km_bottom s1 \<and> km_ssize (fresh_block q s1) = km_ssize s1" for q and s1 :: "'a kmem_scheme"
    by (simp add: fresh_block_def split: option.splits)
  from run assms(3) obtain a s1 H a' s2 s3 where k: "kmalloc_block simple1 memset s = Inr (a, s1)" "a \<noteq> NULL"
    and m: "merge_prev (kfree simple1) a (s1\<lparr>pa_blocks := H\<rparr>) = Inr (a', s2)" "merge_next_block (kfree simple1) a' s2 = Inr s3"
    "s' = s3\<lparr>pa_free_size := pa_free_size s3 + pg_size p\<rparr>"
    by (simp add: palloc_free_def and_then_eq_Inr) (elim exE conjE, simp add: and_then_eq_Inr split: if_split_asm, blast)
  have "s1 = fresh_block (km_top s) (s\<lparr>km_top := km_top s + 32\<rparr>)" using k kmalloc_block_boot [OF ok, of memset] by (auto split: if_splits)
  then show ?thesis using merge_frame(1) [OF m(1)] merge_frame(2) [OF m(2)] m(3) f by simp
qed

lemma nodes_left_take:
  fixes s s' :: "'a vmem_scheme"
  assumes "boot_ok s" "unat (km_top s) + 32 \<le> unat (km_bottom s) + unat (km_ssize s)"
    "km_top s' = km_top s + 32" "km_bottom s' = km_bottom s" "km_ssize s' = km_ssize s"
  shows "nodes_left s = Suc (nodes_left s')"
proof -
  have "unat (km_top s') = unat (km_top s) + 32" using simple_alloc_boot(2) [OF assms(1), of 32] assms(3) by simp
  then have "unat (km_bottom s) + unat (km_ssize s) - unat (km_top s) = 32 + (unat (km_bottom s') + unat (km_ssize s') - unat (km_top s'))"
    using assms by simp
  then show ?thesis unfolding nodes_left_def by simp
qed

lemma take_page:
  assumes "whole_pages B bs" "separated 0 bs"
  shows "take_fit 4096 bs = None \<longleftrightarrow> free_total bs div 4096 = 0"
proof
  assume n: "take_fit 4096 bs = None"
  have "bs = []"
  proof (rule ccontr)
    assume "bs \<noteq> []"
    then obtain a m bs' where b: "bs = (a, m) # bs'" by (cases bs) auto
    then have "m < 4096" "4096 dvd m" "0 < m" using n assms by (auto simp: take_fit_None whole_pages_def split: if_splits)
    then show False by (auto dest: dvd_imp_le)
  qed
  then show "free_total bs div 4096 = 0" by simp
next
  assume "free_total bs div 4096 = 0"
  moreover have "snd b \<le> free_total bs" if "b \<in> set bs" for b using that by (induction bs) auto
  ultimately show "take_fit 4096 bs = None" by (fastforce simp: take_fit_None div_eq_0_iff intro: le_less_trans)
qed

lemma boot_pgalloc_spec:
  assumes ok: "boot_ok s" and rep: "blocks_rep s bs" and w: "whole_pages (2 ^ 31) bs"
  shows "if pages_free s = 0 then boot_pgalloc p0 s = Inr (- 1, s)
    else \<exists>r bs' s'. boot_pgalloc p0 s = Inr (of_nat r, s') \<and> r + 4096 \<le> 2 ^ 31 \<and> 4096 dvd r \<and> boot_ok s' \<and>
      blocks_rep s' bs' \<and> whole_pages (2 ^ 31) bs' \<and> {r..<r + 4096} \<subseteq> free_mem bs \<and>
      free_mem bs' = free_mem bs - {r..<r + 4096} \<and> kmem.more s' = kmem.more s \<and>
      pages_free s = Suc (pages_free s') \<and> nodes_left s' = nodes_left s"
proof -
  let ?p = "\<lparr>pg_paddr = p0, pg_size = PAGE_SIZE, pg_flags = 0\<rparr>"
  have sz: "unat (pg_size ?p) = 4096" "4096 dvd unat (pg_size ?p)" by (simp_all add: unat_PAGE_SIZE)
  have run: "boot_pgalloc p0 s = and_then (palloc_alloc (kfree simple1) ?p s)
    (\<lambda>(result, p, s). if result \<noteq> 0 then Inr (- 1, s) else Inr (ucast (premap_addr (pg_paddr p)), s))"
    if "\<forall>r p s'. palloc_alloc (kfree simple1) ?p s = Inr (r, p, s') \<longrightarrow> pg_flags p = 0"
    using that by (cases "palloc_alloc (kfree simple1) ?p s") (auto simp: pgalloc_def alloc_pages_def palloc_table_def)
  note spec = boot.palloc_alloc_spec [OF conjI [OF ok refl] rep sz(2), unfolded sz(1)]
  have tot: "unat (pa_free_size s) = free_total bs" using rep by (simp add: blocks_rep_def)
  note none = take_page [OF w blocks_rep_separated [OF rep]]
  show ?thesis
  proof (cases "take_fit 4096 bs")
    case None
    with spec run none tot show ?thesis by (simp add: pages_free_def)
  next
    case (Some x)
    then obtain r bs' where t: "take_fit 4096 bs = Some (r, bs')" by (cases x) simp
    note f = take_fit_Some [OF blocks_rep_separated [OF rep] t]
    from spec t obtain s' where s': "palloc_alloc (kfree simple1) ?p s = Inr (0, ?p\<lparr>pg_paddr := of_nat r\<rparr>, s')"
      "boot_ok s'" "kmem.more s' = kmem.more s" "blocks_rep s' bs'" by auto
    have "r + 4095 \<in> free_mem bs" using f by auto
    then obtain a n where "(a, n) \<in> set bs" "r + 4095 < a + n" by (auto simp: free_mem_def)
    then have r: "r + 4096 \<le> 2 ^ 31" using w by (fastforce simp: whole_pages_def)
    have "ucast (premap_addr (of_nat r)) = (of_nat r :: u64)"
      using premap_low [of r] r by (simp add: word_unat_eq_iff unsigned_ucast_eq unat_of_nat take_bit_nat_eq_self)
    then have "boot_pgalloc p0 s = Inr (of_nat r, s')" using run s'(1) by simp
    moreover have "unat (pa_free_size s') = free_total bs'" using s'(4) by (simp add: blocks_rep_def)
    then have "pages_free s = Suc (pages_free s')" using f tot by (simp add: pages_free_def)
    moreover have "nodes_left s' = nodes_left s" using palloc_alloc_frame [OF s'(1)] by (simp add: nodes_left_def)
    ultimately show ?thesis using r s'(2-4) f take_fit_pages [OF w _ t] by auto
  qed
qed

lemma boot_pgfree_spec:
  assumes ok: "boot_ok s" and rep: "blocks_rep s bs" and w: "whole_pages (2 ^ 31) bs"
    and r: "r + 4096 \<le> 2 ^ 31" "4096 dvd r" "{r..<r + 4096} \<inter> free_mem bs = {}"
  shows "if nodes_left s = 0 then boot_pgfree (of_nat r) s = Inl Panic
    else \<exists>s' bs'. boot_pgfree (of_nat r) s = Inr s' \<and> boot_ok s' \<and> blocks_rep s' bs' \<and> whole_pages (2 ^ 31) bs' \<and>
      free_mem bs' = {r..<r + 4096} \<union> free_mem bs \<and> kmem.more s' = kmem.more s \<and> nodes_left s = Suc (nodes_left s')"
proof -
  let ?p = "\<lparr>pg_paddr = ucast (premap_addr (of_nat r)), pg_size = PAGE_SIZE, pg_flags = 0\<rparr>"
  have u: "unat (pg_paddr ?p) = r" using premap_low [of r] r(1) by (simp add: unsigned_ucast_eq take_bit_nat_eq_self)
  have sz: "unat (pg_size ?p) = 4096" "4096 dvd unat (pg_size ?p)" "0 < unat (pg_size ?p)" by (simp_all add: unat_PAGE_SIZE)
  have pm: "pmemset plain_memset a b PAGE_SIZE s = Some (Inr s)" for a b
    by (simp add: pmemset.simps [of _ _ _ PAGE_SIZE] pmemset.simps [of _ _ _ 0] plain_memset_def)
  have run: "boot_pgfree (of_nat r) s = palloc_free (kmalloc_block simple1 plain_memset) (kfree simple1) ?p s"
    by (simp add: pgfree_def free_pages_def palloc_table_def pm)
  have z: "pg_size ?p mod PAGE_SIZE = 0" by simp
  let ?full = "unat (km_top s) + 32 > unat (km_bottom s) + unat (km_ssize s)"
  have full: "nodes_left s = 0 \<longleftrightarrow> ?full"
    using ok unfolding nodes_left_def boot_ok_def by (simp only: div_eq_0_iff word_le_nat_alt) linarith
  note km = kmalloc_block_boot [OF ok, of plain_memset]
  show ?thesis
  proof (cases ?full)
    case True
    then have "boot_pgfree (of_nat r) s = Inl Panic" unfolding run by (simp add: palloc_free_def km)
    with True full show ?thesis by simp
  next
    case False
    have "km_top s \<noteq> NULL" using ok by (auto simp: boot_ok_def word_le_nat_alt)
    then have "\<not> (\<exists>s0. kmalloc_block simple1 plain_memset s = Inr (NULL, s0))" using km False by simp
    then obtain s' where s': "boot_pgfree (of_nat r) s = Inr s'" "boot_ok s'" "kmem.more s' = kmem.more s" "blocks_rep s' (give_back (r, 4096) bs)"
      using boot.palloc_free_spec [OF conjI [OF ok refl] rep sz(2,3), of plain_memset] r(1,3) u sz(1) unfolding run by auto
    have "whole_pages (2 ^ 31) (give_back (r, 4096) bs)" by (rule give_back_pages) (use w r in \<open>auto simp: whole_pages_def\<close>)
    moreover have "free_mem (give_back (r, 4096) bs) = {r..<r + 4096} \<union> free_mem bs"
      using give_back_spec [OF blocks_rep_separated [OF rep] _ _ r(3)] by simp
    moreover have "nodes_left s = Suc (nodes_left s')"
      using nodes_left_take [OF ok] palloc_free_frame [OF s'(1) [unfolded run] ok z] False by simp
    ultimately show ?thesis using s' by auto
  qed
qed

lemma apart_mono: "table_apart bs t \<Longrightarrow> free_mem bs' \<subseteq> free_mem bs \<Longrightarrow> table_apart bs' t"
  by (auto simp: table_apart_def)

lemma kmem_more_tables: "kmem.more s' = kmem.more s \<Longrightarrow> vm_tables s' = vm_tables s" for s :: "'a vmem_scheme"
  by (cases s; cases s') simp

interpretation boot_pages: page_source "boot_pgalloc p0" boot_pgfree vm_ok pages_free nodes_left
  for p0
proof
  fix s :: "'a vmem_scheme" assume "vm_ok s"
  then obtain bs where ok: "boot_ok s" "blocks_rep s bs" "whole_pages (2 ^ 31) bs" "\<forall>t\<in>dom (vm_tables s). table_apart bs t"
    by (auto simp: vm_ok_def)
  show "if pages_free s = 0 then boot_pgalloc p0 s = Inr (- 1, s)
      else \<exists>p s'. boot_pgalloc p0 s = Inr (p, s') \<and> p \<noteq> - 1 \<and> vm_tables s' = vm_tables s \<and> pa2kva p \<noteq> 0 \<and>
        vm_tables s (pa2kva p) = None \<and> vm_ok (clear_table (pa2kva p) s') \<and> pages_free s = Suc (pages_free s') \<and> nodes_left s' = nodes_left s"
  proof (cases "pages_free s = 0")
    case True
    with boot_pgalloc_spec [OF ok(1-3), of p0] show ?thesis by simp
  next
    case False
    then obtain r bs' s' where r: "boot_pgalloc p0 s = Inr (of_nat r, s')" "r + 4096 \<le> 2 ^ 31" "4096 dvd r" "boot_ok s'"
      "blocks_rep s' bs'" "whole_pages (2 ^ 31) bs'" "{r..<r + 4096} \<subseteq> free_mem bs" "free_mem bs' = free_mem bs - {r..<r + 4096}"
      "kmem.more s' = kmem.more s" and c: "pages_free s = Suc (pages_free s')" "nodes_left s' = nodes_left s"
      using boot_pgalloc_spec [OF ok(1-3), of p0] by auto
    let ?t = "pa2kva (of_nat r)"
    have lt: "r < 2 ^ 31" using r(2) by simp
    have t: "unat ?t = r + 2 ^ 31" by (rule pa2kva_low [OF lt])
    then have nz: "?t \<noteq> 0" by auto
    have "unat (of_nat r :: u64) = r" using r(2) by (simp add: unat_of_nat take_bit_nat_eq_self)
    then have m: "(of_nat r :: u64) \<noteq> - 1"
      using r(2) by (auto simp: unsigned_minus_1_eq_mask mask_eq_exp_minus_1)
    have "r \<in> free_mem bs" using r(7) by auto
    then have "\<not> table_apart bs ?t" using t by (auto simp: table_apart_def disjoint_iff intro!: bexI [of _ r])
    then have none: "vm_tables s ?t = None" using ok(4) by blast
    have "{unat ?t - 2 ^ 31..<unat ?t - 2 ^ 31 + 4096} = {r..<r + 4096}" unfolding t by simp
    then have "table_apart bs' ?t" using r(3,8) t unfolding table_apart_def by auto
    moreover have tb: "vm_tables s' = vm_tables s" by (rule kmem_more_tables [OF r(9)])
    moreover have "table_apart bs' x" if "x \<in> dom (vm_tables s)" for x using ok(4) that apart_mono r(8) by blast
    ultimately have "vm_ok (clear_table ?t s')"
      using r(4-6) unfolding vm_ok_def by (intro conjI exI [of _ bs']) (auto simp: clear_table_def boot_ok_def blocks_rep_def)
    with r(1) m nz none tb False c show ?thesis by auto
  qed
next
  show "if nodes_left s = 0 then boot_pgfree (ucast (kva2pa t)) s = Inl Panic
      else \<exists>s'. boot_pgfree (ucast (kva2pa t)) s = Inr s' \<and> vm_tables s' = vm_tables s \<and> vm_ok (drop_table t s') \<and> nodes_left s = Suc (nodes_left s')"
    if ok0: "vm_ok s" and dt: "t \<in> dom (vm_tables s)" for s :: "'a vmem_scheme" and t
  proof -
    obtain bs where ok: "boot_ok s" "blocks_rep s bs" "whole_pages (2 ^ 31) bs" "\<forall>t\<in>dom (vm_tables s). table_apart bs t"
      using ok0 by (auto simp: vm_ok_def)
    have t: "2 ^ 31 \<le> unat t" "4096 dvd unat t" "{unat t - 2 ^ 31..<unat t - 2 ^ 31 + 4096} \<inter> free_mem bs = {}"
      using bspec [OF ok(4) dt] unfolding table_apart_def by blast+
    define r where "r = unat t - 2 ^ 31"
    have r: "4096 dvd r" "r + 4096 \<le> 2 ^ 31"
    proof -
      have "4096 dvd (2 ^ 31 :: nat)" by (simp add: dvd_eq_mod_eq_0)
      then show d: "4096 dvd r" using t(2) unfolding r_def by (rule dvd_diff_nat [rotated])
      then obtain q where "r = 4096 * q" by (auto simp: dvd_def)
      moreover have "r < 2 ^ 31" using unat_u32 [of t] by (simp add: r_def)
      ultimately show "r + 4096 \<le> 2 ^ 31" by simp
    qed
    have "unat (kva2pa t) = r" using t(1) by (simp add: kva2pa_def KERN_BASE_def unat_sub word_le_nat_alt r_def)
    then have a: "ucast (kva2pa t) = (of_nat r :: u64)"
      using r(2) by (simp add: word_unat_eq_iff unsigned_ucast_eq unat_of_nat take_bit_nat_eq_self)
    have d: "{r..<r + 4096} \<inter> free_mem bs = {}" using t(3) by (simp add: r_def)
    show ?thesis
    proof (cases "nodes_left s = 0")
      case True
      with boot_pgfree_spec [OF ok(1-3) r(2,1) d, folded a] show ?thesis by simp
    next
      case False
      then obtain s' bs' where s': "boot_pgfree (ucast (kva2pa t)) s = Inr s'" "boot_ok s'" "blocks_rep s' bs'" "whole_pages (2 ^ 31) bs'"
        "free_mem bs' = {r..<r + 4096} \<union> free_mem bs" "kmem.more s' = kmem.more s" "nodes_left s = Suc (nodes_left s')"
        using boot_pgfree_spec [OF ok(1-3) r(2,1) d, folded a] by auto
      have tb: "vm_tables s' = vm_tables s" by (rule kmem_more_tables [OF s'(6)])
      have "table_apart bs' x" if x: "x \<in> dom (vm_tables s)" "x \<noteq> t" for x
      proof -
        have ax: "2 ^ 31 \<le> unat x" "4096 dvd unat x" "{unat x - 2 ^ 31..<unat x - 2 ^ 31 + 4096} \<inter> free_mem bs = {}"
          using bspec [OF ok(4) x(1)] unfolding table_apart_def by blast+
        have "unat x \<noteq> unat t" using x(2) by (simp add: word_unat_eq_iff)
        then have "{unat x - 2 ^ 31..<unat x - 2 ^ 31 + 4096} \<inter> {r..<r + 4096} = {}"
          using multiples_disjoint [OF ax(2) t(2), of 0] ax(1) t(1) unfolding r_def by (auto simp: disjoint_iff)
        with ax s'(5) show ?thesis unfolding table_apart_def by blast
      qed
      then have "vm_ok (drop_table t s')" using s'(2-4) tb unfolding vm_ok_def
        by (intro conjI exI [of _ bs']) (auto simp: drop_table_def boot_ok_def blocks_rep_def)
      with s'(1,7) tb False show ?thesis by auto
    qed
  qed
qed (auto simp: vm_ok_def boot_ok_def blocks_rep_def pages_free_def nodes_left_def)

end
