(* ===== verification/UserMap.thy ===== *)
theory UserMap
  imports PgtableMap
begin

unbundle bit_operations_syntax

text \<open>
  What mapping, unmapping and translating do to an address space that takes its tables from the
  page allocator: the entries afterwards, the error paths, and the composition of the calls.
\<close>

section \<open>Unmapping and translating\<close>

lemma aligned_low_bits:
  fixes w :: "'a::len word"
  assumes "4096 dvd unat w" "k < 12"
  shows "\<not> bit w k"
proof -
  obtain q where "unat w = 2 ^ 12 * q" using assms(1) by (auto simp: dvd_def)
  then have "take_bit 12 (unat w) = 0" by (simp add: take_bit_eq_mod)
  then have "\<not> bit (unat w) k" using assms(2) by (metis bit_take_bit_iff bit_0_eq bot_apply bot_bool_def)
  then show ?thesis by (auto simp: bit_unsigned_iff dest: bit_imp_le_length)
qed

lemma perm_cases: "pgtable_perm flags = 0x6c0 \<or> pgtable_perm flags = 0x7c0"
  by (simp add: pgtable_perm_def PTE_VALID_def PTE_GLOBAL_def PTE_CACHEABLE_def PTE_DIRTY_def)

lemma perm_bits: "bit (pgtable_perm flags) k \<Longrightarrow> k < 12" "bit (pgtable_perm flags) 6"
proof -
  have "(0x6c0 :: u32) = take_bit 12 0x6c0" "(0x7c0 :: u32) = take_bit 12 0x7c0" by simp_all
  then show "bit (pgtable_perm flags) k \<Longrightarrow> k < 12" using perm_cases [of flags] by (metis bit_take_bit_iff)
  show "bit (pgtable_perm flags) 6" using perm_cases [of flags] by (auto simp: bit_numeral_rec)
qed

lemma PTE_PADDR_perm:
  fixes p :: u64
  assumes "4096 dvd unat p"
  shows "PTE_PADDR (ucast p OR pgtable_perm flags) = ucast p"
proof -
  have m: "PTE_LOWMASK = mask 12" by (simp add: PTE_LOWMASK_def mask_eq_exp_minus_1)
  show ?thesis unfolding PTE_PADDR_def m
    by (rule bit_word_eqI) (use aligned_low_bits [OF assms] perm_bits(1) in \<open>auto simp: bit_and_iff bit_or_iff bit_not_iff bit_mask_iff bit_ucast_iff\<close>)
qed

lemma perm_low: "pgtable_perm flags AND PTE_LOWMASK = pgtable_perm flags" "pgtable_perm flags \<noteq> 0"
  by (auto simp: pgtable_perm_def PTE_VALID_def PTE_GLOBAL_def PTE_CACHEABLE_def PTE_DIRTY_def PTE_LOWMASK_def)

lemma or_offset:
  fixes a b :: u32
  assumes "4096 dvd unat a" "unat b < 4096"
  shows "a OR b = a + b"
proof -
  have "bit b n \<Longrightarrow> n < 12" for n
  proof -
    have "take_bit 12 b = b" using assms(2) by (simp add: word_unat_eq_iff unsigned_take_bit_eq take_bit_nat_eq_self)
    then show "bit b n \<Longrightarrow> n < 12" by (metis bit_take_bit_iff)
  qed
  then show ?thesis using aligned_low_bits [OF assms(1)] by (intro disjunctive_add [symmetric]) blast
qed

lemma ucast_up_down: "ucast (ucast x :: u64) = x" for x :: u32
  by (rule bit_word_eqI) (simp add: bit_ucast_iff)

lemma or_perm_nonzero [simp]: "w OR pgtable_perm flags \<noteq> 0"
  using perm_low(2) [of flags] by (simp add: or_eq_0_iff)

text \<open>An address in a page with a leaf table is translated by its entry.\<close>

lemma uva2kva_entry:
  assumes "pgt_wf s pg" "has_leaf s pg (vpn va div 1024)"
  shows "uva2kva pga pd pg va s = Inr (pa2kva (ucast (PTE_PADDR (page_entry s pg (vpn va)) OR PAGE_OFFSET va)))"
proof -
  obtain dir where d: "vm_tables s pg = Some dir" "dir ! (vpn va div 1024) \<noteq> 0"
    using assms(2) by (auto simp: has_leaf_def split: option.splits)
  from getpagedesc_found [OF assms(1) d] rd_leaf [OF assms(1) d vpn_less(1) unat_PTX] show ?thesis
    by (simp add: uva2kva_def desc_of_def)
qed

context page_source
begin

lemma unmap_first:
  assumes ok: "ok s" and wf: "pgt_wf s pg" and leaf: "has_leaf s pg (vpn vaddr div 1024)" and sz: "vaddr < vaddr + sz"
    and va: "4096 dvd unat vaddr"
    and stop: "\<not> vaddr + PAGE_SIZE < vaddr + sz \<or>
      has_leaf s pg (vpn (vaddr + PAGE_SIZE) div 1024) \<and>
      (ucast (page_entry s pg (vpn (vaddr + PAGE_SIZE))) :: u64) \<noteq> ucast (PTE_PADDR (page_entry s pg (vpn vaddr))) + PAGE_SIZE"
    and room: "0 < room s"
  shows "\<exists>s'. unmap_pages pga pgf pd pg vaddr sz s = Inr (4096, Some (ucast (PTE_PADDR (page_entry s pg (vpn vaddr)))), s') \<and> ok s' \<and>
      pgt_wf s' pg \<and> (\<forall>m. m div 1024 < 1024 \<longrightarrow> page_entry s' pg m = (if m = vpn vaddr then 0 else page_entry s pg m))"
proof -
  let ?e = "page_entry s pg (vpn vaddr)"
  obtain dir where d: "vm_tables s pg = Some dir" "dir ! (vpn vaddr div 1024) \<noteq> 0"
    using leaf by (auto simp: has_leaf_def split: option.splits)
  obtain s1 where w: "wr_entry (dir ! (vpn vaddr div 1024)) (PTX vaddr) 0 s = Inr s1"
    "pgt_wf s1 pg" "vm_tables s1 pg = Some dir" "dom (vm_tables s1) = dom (vm_tables s)" "s1 = s\<lparr>vm_tables := vm_tables s1\<rparr>"
    "\<forall>m. m div 1024 < 1024 \<longrightarrow> page_entry s1 pg m = (if m = vpn vaddr then 0 else page_entry s pg m)"
    using wr_leaf [OF wf d vpn_less(1) unat_PTX, of 0] by blast
  have ok1: "ok s1" "room s1 = room s" using ok_tables [OF ok w(4)] counts_tables(2) [of _ s] w(5) by metis+
  define body where "body = (\<lambda>(vcur, unmapped :: u32, pcur :: u64, out, pd, s).
        if vcur < vaddr + sz
        then and_then (getpagedesc pga pg vcur False pd s) (\<lambda>(r, pd, s).
          if r < 0 then Inl Panic
          else and_then (rd_entry (pd_ptev pd) (pd_ptx pd) s) (\<lambda>e.
            if unmapped \<noteq> 0 \<and> ucast e \<noteq> pcur then Inr (Break (unmapped, out, s))
            else let pcur = (if unmapped = 0 then ucast (PTE_PADDR e) else pcur);
                     out = (if unmapped = 0 then Some pcur else out) in
              and_then (wr_entry (pd_ptev pd) (pd_ptx pd) 0 s) (\<lambda>s.
              Inr (Cont (vcur + PAGE_SIZE, unmapped + PAGE_SIZE, pcur + PAGE_SIZE, out, pd, s)))))
        else Inr (Break (unmapped, out, s)))"
  have one: "body (vaddr, 0, 0, None, pd, s) =
    Inr (Cont (vaddr + PAGE_SIZE, PAGE_SIZE, ucast (PTE_PADDR ?e) + PAGE_SIZE, Some (ucast (PTE_PADDR ?e)), desc_of dir pg vaddr, s1))"
    using sz getpagedesc_found [OF wf d, of pga False pd] rd_leaf [OF wf d vpn_less(1) unat_PTX] w(1)
    by (simp add: body_def desc_of_def Let_def)
  have two: "body (vaddr + PAGE_SIZE, PAGE_SIZE, ucast (PTE_PADDR ?e) + PAGE_SIZE, Some (ucast (PTE_PADDR ?e)), desc_of dir pg vaddr, s1) =
    Inr (Break (PAGE_SIZE, Some (ucast (PTE_PADDR ?e)), s1))"
  proof (cases "vaddr + PAGE_SIZE < vaddr + sz")
    case False
    then show ?thesis by (simp add: body_def)
  next
    case True
    let ?v = "vaddr + PAGE_SIZE"
    have st: "has_leaf s pg (vpn ?v div 1024)" "(ucast (page_entry s pg (vpn ?v)) :: u64) \<noteq> ucast (PTE_PADDR ?e) + PAGE_SIZE"
      using stop True by auto
    have ne: "vpn ?v \<noteq> vpn vaddr"
    proof -
      have "unat ?v = unat vaddr + 4096 \<or> unat ?v + 2 ^ 32 = unat vaddr + 4096"
        using unat_word_ariths(1) [of vaddr PAGE_SIZE] unat_u32 [of vaddr]
        by (auto simp: unat_PAGE_SIZE mod_if)
      then show ?thesis using unat_u32 [of vaddr] by auto
    qed
    have d2: "dir ! (vpn ?v div 1024) \<noteq> 0" using st(1) d(1) by (simp add: has_leaf_def)
    have "page_entry s1 pg (vpn ?v) = page_entry s pg (vpn ?v)" using w(6) vpn_less(1) [of ?v] ne by simp
    with True st(2) getpagedesc_found [OF w(2,3) d2, of pga False "desc_of dir pg vaddr"] rd_leaf [OF w(2,3) d2 vpn_less(1) unat_PTX]
    show ?thesis by (simp add: body_def desc_of_def) (simp add: PAGE_SIZE_def)
  qed
  have top: "unmap_pages pga pgf pd pg vaddr sz s = and_then (returns (loop body (vaddr, 0, 0, None, pd, s))) (\<lambda>(unmapped, out, s).
      and_then (free_intermediate_pgtable pgf pg vaddr unmapped s) (\<lambda>s. Inr (sint unmapped, out, s)))"
    unfolding unmap_pages_def Let_def body_def by (rule refl)
  have run: "unmap_pages pga pgf pd pg vaddr sz s = and_then (free_intermediate_pgtable pgf pg vaddr PAGE_SIZE s1)
      (\<lambda>s'. Inr (4096, Some (ucast (PTE_PADDR ?e)), s'))"
    unfolding top loop_Cont [of body, OF one] loop_Break [of body, OF two]
    by (simp add: PAGE_SIZE_def)
  have "has_leaf s1 pg (vpn vaddr div 1024)" using w(3) d(2) by (simp add: has_leaf_def)
  then have leaf1: "\<forall>k. vpn vaddr div 1024 \<le> k \<and> k \<le> vpn vaddr div 1024 \<longrightarrow> has_leaf s1 pg k" by (auto dest: le_antisym)
  have "unat (PDX (vaddr + PAGE_SIZE - PAGE_SIZE)) = vpn vaddr div 1024" by (simp add: unat_PDX)
  from free_intermediate_spec [OF ok1(1) w(2) leaf1 vpn_less(1) unat_PDX this] room ok1(2)
  show ?thesis unfolding run using w(6) by auto
qed
end

section \<open>Properties of the page tables\<close>

text \<open>A directory with one empty leaf table for the pages from 1024 on, for the witnesses.\<close>

definition vmem_example :: vmem where
  "vmem_example = kmem.extend boot_example
     \<lparr>vm_tables = [0x80010000 \<mapsto> (replicate 1024 0)[1 := 0x80011000], 0x80011000 \<mapsto> replicate 1024 0], vm_current_pgdir = 0\<rparr>"

lemma vmem_example_sel [simp]:
  "vm_tables vmem_example = [0x80010000 \<mapsto> (replicate 1024 0)[1 := 0x80011000], 0x80011000 \<mapsto> replicate 1024 0]"
  by (simp add: vmem_example_def kmem.defs)

lemma vmem_example_ok: "vm_ok vmem_example" "pgt_wf vmem_example 0x80010000" "has_leaf vmem_example 0x80010000 1"
  "n div 1024 < 1024 \<Longrightarrow> page_entry vmem_example 0x80010000 n = 0"
proof -
  have b: "boot_ok vmem_example" "blocks_rep vmem_example [(0x5000, 0x2000)]"
    using boot_example_ok by (auto simp: vmem_example_def kmem.defs boot_example_def boot_ok_def blocks_rep_def)
  show "vm_ok vmem_example" unfolding vm_ok_def
    by (intro conjI exI [of _ "[(0x5000, 0x2000)]"] b) (auto simp: whole_pages_def table_apart_def dvd_eq_mod_eq_0)
  have d: "(replicate 1024 0)[Suc 0 := 0x80011000] ! i = (if i = 1 then 0x80011000 else (0 :: u32))" if "i < 1024" for i
    using that by (simp add: nth_list_update)
  show "pgt_wf vmem_example 0x80010000" unfolding pgt_wf_def
    by (intro exI [of _ "(replicate 1024 0)[1 := 0x80011000]"]) (auto simp: d split: if_splits)
  show "has_leaf vmem_example 0x80010000 1" by (simp add: has_leaf_def)
  show "page_entry vmem_example 0x80010000 n = 0" if "n div 1024 < 1024"
    using that by (cases "n div 1024 = 1") (auto simp: page_entry_def d)
qed

lemma vmem_example_counts: "pages_free vmem_example = 2" "nodes_left vmem_example = 1023"
  by (simp_all add: pages_free_def nodes_left_def vmem_example_def kmem.defs boot_example_def)

abbreviation page0 :: pagedesc where
  "page0 \<equiv> \<lparr>pd_pdev = 0, pd_ptev = 0, pd_pdx = 0, pd_ptx = 0\<rparr>"

lemma example_range: "4096 dvd unat (0x400000 :: u32)" "unat (0x400000 :: u32) + 4096 * 2 \<le> 2 ^ 32"
  "4096 dvd unat (0x7000 :: u64)" "unat (0x7000 :: u64) + 4096 * 2 < 2 ^ 64" "unat (0x2000 :: u32) = 4096 * 2"
  "\<forall>j<2. page_entry vmem_example 0x80010000 (vpn 0x400000 + j) = 0" "\<And>i :: nat. i < 2 \<Longrightarrow> (1024 + i) div 1024 = 1"
proof -
  show "\<forall>j<2. page_entry vmem_example 0x80010000 (vpn 0x400000 + j) = 0"
    by (intro allI impI vmem_example_ok(4)) (simp add: div_less_iff_less_mult)
  show "(1024 + i) div 1024 = 1" if "i < 2" for i :: nat by (rule div_nat_eqI) (use that in auto)
qed (simp_all add: dvd_eq_mod_eq_0)

abbreviation map_example where
  "map_example s \<equiv> map_pages (boot_pgalloc 0) boot_pgfree page0 0x80010000 0x400000 0x7000 0x2000 VMA_WRITE s"

lemma map_example_runs:
  "\<exists>s'. map_example vmem_example = Inr (0, s') \<and> vm_ok s' \<and> pgt_wf s' 0x80010000 \<and> nodes_left s' = 1023 \<and> page_entry s' 0x80010000 (1024 + 0) \<noteq> 0"
proof -
  have "missing vmem_example 0x80010000 1024 2 = {}" using vmem_example_ok(3) example_range(7) by (auto simp: missing_def leaf_range_def)
  then obtain s' where s': "map_example vmem_example = Inr (0, s')"
    using boot_pages.map_pages_succeeds [OF vmem_example_ok(1,2) example_range(1-6), of 0 page0 VMA_WRITE] by auto
  note d = boot_pages.map_pages_done [OF vmem_example_ok(1,2) example_range(1-5) s']
  have "page_entry s' 0x80010000 1024 \<noteq> 0" using d(5) [rule_format, of 1024] by simp
  with s' d(1-3) vmem_example_counts show ?thesis by auto
qed

lemma page_number_limit: "m < 2 ^ 20 \<Longrightarrow> m div 1024 < 1024" for m :: nat
  by simp

text \<open>
  C7. \<open>map_pages\<close> maps exactly the pages asked for. On well-formed tables that take their pages from the
  page allocator over the bootstrap allocator, for page-aligned arguments inside the address space:
  when none of the pages is mapped yet and there is a free page for every leaf table that is
  missing in the range, the call returns 0, every page of the range has the entry of its frame with
  the permissions, and no other entry has changed.
\<close>

theorem map_pages_maps:
  assumes "vm_ok s" "pgt_wf s pg" "4096 dvd unat vaddr" "unat vaddr + 4096 * n \<le> 2 ^ 32"
    and "4096 dvd unat paddr" "unat paddr + 4096 * n < 2 ^ 64" "unat sz = 4096 * n"
    and "\<forall>j<n. page_entry s pg (vpn vaddr + j) = 0" "card (missing s pg (vpn vaddr) n) \<le> pages_free s"
  shows "\<exists>s'. map_pages (boot_pgalloc p0) boot_pgfree pd pg vaddr paddr sz flags s = Inr (0, s') \<and> vm_ok s' \<and> pgt_wf s' pg \<and>
      (\<forall>m<2 ^ 20. page_entry s' pg m =
        (if vpn vaddr \<le> m \<and> m < vpn vaddr + n then ucast (paddr + of_nat (4096 * (m - vpn vaddr))) OR pgtable_perm flags
         else page_entry s pg m))"
proof -
  obtain s' where s': "map_pages (boot_pgalloc p0) boot_pgfree pd pg vaddr paddr sz flags s = Inr (0, s')"
    using boot_pages.map_pages_succeeds [OF assms] by blast
  note d = boot_pages.map_pages_done [OF assms(1-7) s']
  show ?thesis using s' d(1,2,5) page_number_limit by blast
qed

theorem map_pages_maps_witness:
  "\<exists>s'. map_example vmem_example = Inr (0, s') \<and>
     page_entry s' 0x80010000 1024 = 0x77c0 \<and> page_entry s' 0x80010000 1025 = 0x87c0 \<and> page_entry s' 0x80010000 1026 = 0"
proof -
  have "missing vmem_example 0x80010000 1024 2 = {}" using vmem_example_ok(3) example_range(7) by (auto simp: missing_def leaf_range_def)
  then obtain s' where s': "map_example vmem_example = Inr (0, s')"
    "\<forall>m<2 ^ 20. page_entry s' 0x80010000 m =
      (if 1024 \<le> m \<and> m < 1024 + 2 then ucast ((0x7000 :: u64) + of_nat (4096 * (m - 1024))) OR pgtable_perm VMA_WRITE
       else page_entry vmem_example 0x80010000 m)"
    using map_pages_maps [OF vmem_example_ok(1,2) example_range(1-6), of 0 page0 VMA_WRITE] by auto
  show ?thesis using s'(1) spec [OF s'(2), of 1024] spec [OF s'(2), of 1025] spec [OF s'(2), of 1026] vmem_example_ok(4) [of 1026]
    by (simp add: pgtable_perm_def PTE_VALID_def PTE_GLOBAL_def PTE_CACHEABLE_def PTE_DIRTY_def VMA_WRITE_def)
qed

text \<open>
  C17. \<open>map_pages\<close> that cannot go on undoes what it did. Let page \<open>i\<close> of the range be the first that is
  mapped already, or for whose missing leaf table no page is left. Then the call returns \<^verbatim>\<open>-EEXIST\<close> or
  \<^verbatim>\<open>-ENOMEM\<close> accordingly, and all entries of the address space are what they were. This needs room in
  the bootstrap allocator for a node per leaf table of the range; and when the very first page is
  the one that fails, the range must not begin at address 0, and must begin at a boundary of leaf
  tables if its first leaf table could not be had, because the code then looks at the table
  before the range.
\<close>

theorem map_pages_error:
  assumes "vm_ok s" "pgt_wf s pg" "4096 dvd unat vaddr" "unat vaddr + 4096 * n \<le> 2 ^ 32"
    and "4096 dvd unat paddr" "unat paddr + 4096 * n < 2 ^ 64" "unat sz = 4096 * n"
    and "i < n" "\<forall>j<i. page_entry s pg (vpn vaddr + j) = 0" "card (missing s pg (vpn vaddr) i) \<le> pages_free s"
    and "page_entry s pg (vpn vaddr + i) \<noteq> 0 \<or> pages_free s < card (missing s pg (vpn vaddr) (Suc i))"
    and "card (leaf_range (vpn vaddr) n) \<le> nodes_left s"
    and "0 < i \<or> 0 < vaddr \<and> (vpn vaddr mod 1024 = 0 \<or> page_entry s pg (vpn vaddr) \<noteq> 0)"
  shows "\<exists>s'. map_pages (boot_pgalloc p0) boot_pgfree pd pg vaddr paddr sz flags s =
      Inr (if page_entry s pg (vpn vaddr + i) \<noteq> 0 then - EEXIST else - ENOMEM, s') \<and> vm_ok s' \<and> pgt_wf s' pg \<and>
    (\<forall>m<2 ^ 20. page_entry s' pg m = page_entry s pg m)"
proof -
  have "i = 0 \<Longrightarrow> 0 < unat vaddr \<and> (vpn vaddr mod 1024 = 0 \<or> page_entry s pg (vpn vaddr) \<noteq> 0)"
    using assms(13) by (simp add: word_less_nat_alt)
  from boot_pages.map_pages_fails [OF assms(1-12) this, of p0 pd flags] show ?thesis using page_number_limit by blast
qed

text \<open>A range of 2049 pages over three missing leaf tables, with two free pages; and a range that is mapped twice.\<close>

lemma example_missing:
  assumes "0 < n" "2048 + n - 1 < 5 * 1024"
  shows "missing vmem_example 0x80010000 2048 n = {2..(2048 + n - 1) div 1024}"
proof -
  have "\<not> has_leaf vmem_example 0x80010000 k" if "2 \<le> k" "k < 1024" for k using that by (simp add: has_leaf_def)
  moreover have "(2048 + n - 1) div 1024 < 5" using assms(2) by (simp add: div_less_iff_less_mult)
  ultimately show ?thesis using leaf_range_interval [OF assms(1), of 2048] by (auto simp: missing_def)
qed

theorem map_pages_error_witness:
  "(\<exists>s. map_pages (boot_pgalloc 0) boot_pgfree page0 0x80010000 0x800000 0x7000 0x801000 VMA_WRITE vmem_example = Inr (- ENOMEM, s) \<and>
     page_entry s 0x80010000 2048 = 0) \<and>
   (\<exists>s s'. map_example vmem_example = Inr (0, s) \<and> map_example s = Inr (- EEXIST, s') \<and>
     page_entry s' 0x80010000 1024 = page_entry s 0x80010000 1024)"
proof
  have z: "page_entry vmem_example 0x80010000 (2048 + j) = 0" if "j < 2049" for j
    by (rule vmem_example_ok(4)) (use that in \<open>simp add: div_less_iff_less_mult\<close>)
  have r: "leaf_range 2048 2049 = {2..4}" using leaf_range_interval [of 2049 2048] by simp
  have "\<exists>s'. map_pages (boot_pgalloc 0) boot_pgfree page0 0x80010000 0x800000 0x7000 0x801000 VMA_WRITE vmem_example =
      Inr (if page_entry vmem_example 0x80010000 (vpn 0x800000 + 2048) \<noteq> 0 then - EEXIST else - ENOMEM, s') \<and> vm_ok s' \<and> pgt_wf s' 0x80010000 \<and>
    (\<forall>m<2 ^ 20. page_entry s' 0x80010000 m = page_entry vmem_example 0x80010000 m)"
    by (rule map_pages_error [where n = 2049]) (use z r example_missing [of 2048] example_missing [of 2049] vmem_example_ok vmem_example_counts
      in \<open>simp_all add: dvd_eq_mod_eq_0\<close>)
  then show "\<exists>s. map_pages (boot_pgalloc 0) boot_pgfree page0 0x80010000 0x800000 0x7000 0x801000 VMA_WRITE vmem_example = Inr (- ENOMEM, s) \<and>
     page_entry s 0x80010000 2048 = 0" using z [of 2048] z [of 0] by auto
next
  obtain s where s: "map_example vmem_example = Inr (0, s)" "vm_ok s" "pgt_wf s 0x80010000" "nodes_left s = 1023" "page_entry s 0x80010000 (1024 + 0) \<noteq> 0"
    using map_example_runs by blast
  have "leaf_range 1024 2 = {1}" using leaf_range_interval [of 2 1024] by simp
  then show "\<exists>s s'. map_example vmem_example = Inr (0, s) \<and> map_example s = Inr (- EEXIST, s') \<and>
     page_entry s' 0x80010000 1024 = page_entry s 0x80010000 1024"
    using map_pages_error [OF s(2,3) example_range(1-5), of 0 0 page0 VMA_WRITE] s(1,4,5) by (auto simp: missing_def)
qed

text \<open>
  C20. After \<open>map_pages\<close> has mapped a range, \<open>uva2kva\<close> translates every address of the range to the
  kernel address of the same byte of its frame.
\<close>

theorem uva2kva_map_pages:
  assumes "vm_ok s" "pgt_wf s pg" "4096 dvd unat vaddr" "unat vaddr + 4096 * n \<le> 2 ^ 32"
    and "4096 dvd unat paddr" "unat paddr + 4096 * n \<le> 2 ^ 31" "unat sz = 4096 * n"
    and run: "map_pages (boot_pgalloc p0) boot_pgfree pd pg vaddr paddr sz flags s = Inr (0, s')"
    and k: "k < 4096 * n"
  shows "uva2kva (boot_pgalloc p0) pd' pg (vaddr + of_nat k) s' = Inr (pa2kva (paddr + of_nat k))"
proof -
  obtain i where i: "i = k div 4096" "i < n" using k by (auto simp: div_less_iff_less_mult)
  have dec: "k = 4096 * i + k mod 4096" by (simp add: i(1))
  have va: "unat vaddr + k < 2 ^ 32" using assms(4) k by simp
  let ?va = "vaddr + of_nat k"
  have uk: "unat (of_nat k :: u32) = k" by (rule unat_of_nat_u32) (use va in simp)
  have ua: "unat ?va = unat vaddr + k"
    using unat_add_lem [THEN iffD1, of vaddr "of_nat k"] va by (simp add: uk)
  obtain q where q: "unat vaddr = 4096 * q" using assms(3) by (auto simp: dvd_def)
  have vp: "vpn ?va = vpn vaddr + i" using q i(1) unfolding ua by simp
  have off: "PAGE_OFFSET ?va = of_nat (k mod 4096)"
  proof -
    have "PAGE_OFFSET ?va = ?va AND mask 12" by (simp add: PAGE_OFFSET_def PAGE_MASK_def PAGE_SIZE_def mask_eq_exp_minus_1)
    then have "unat (PAGE_OFFSET ?va) = (4096 * q + k) mod 4096" using q ua by (simp only: unat_and_mask) simp
    then show ?thesis by (simp add: word_unat_eq_iff unat_of_nat_u32)
  qed
  have paddr64: "unat paddr + 4096 * n < 2 ^ 64" using assms(6) by simp
  have "page_entry s' pg (vpn ?va) = ucast (paddr + of_nat (4096 * i)) OR pgtable_perm flags" "pgt_wf s' pg"
    using boot_pages.map_pages_done(2,5) [OF assms(1-5) paddr64 assms(7) run] i(2) vpn_less(1) [of ?va]
    unfolding vp by auto
  moreover have "has_leaf s' pg (vpn ?va div 1024)"
    by (rule entry_leaf) (use calculation(1) in simp)
  moreover have pi: "unat (paddr + of_nat (4096 * i)) = unat paddr + 4096 * i" by (rule paddr_step) (use assms(6) i(2) in simp)
  then have al: "4096 dvd unat (paddr + of_nat (4096 * i))" using assms(5) by simp
  ultimately have run': "uva2kva (boot_pgalloc p0) pd' pg ?va s' =
      Inr (pa2kva (ucast (ucast (paddr + of_nat (4096 * i)) OR (of_nat (k mod 4096) :: u32))))"
    using uva2kva_entry [of s' pg ?va "boot_pgalloc p0" pd'] by (simp add: off PTE_PADDR_perm)
  have lt: "unat paddr + 4096 * i + k mod 4096 < 2 ^ 31" using assms(6) k dec by linarith
  have u: "unat (ucast (paddr + of_nat (4096 * i)) :: u32) = unat paddr + 4096 * i"
    using lt pi by (simp add: unsigned_ucast_eq take_bit_nat_eq_self del: of_nat_mult)
  have "ucast (paddr + of_nat (4096 * i)) OR (of_nat (k mod 4096) :: u32) = ucast (paddr + of_nat (4096 * i)) + of_nat (k mod 4096)"
    by (rule or_offset) (use u assms(5) in \<open>auto simp: unat_of_nat_u32\<close>)
  also have "\<dots> = ucast (paddr + of_nat k)"
  proof -
    have p2: "paddr + of_nat k = (paddr + of_nat (4096 * i)) + of_nat (k mod 4096)" by (subst dec) simp
    have r: "unat (of_nat (k mod 4096) :: u64) = k mod 4096" by (simp add: unat_of_nat take_bit_nat_eq_self)
    have "unat (paddr + of_nat k) = unat paddr + 4096 * i + k mod 4096"
      unfolding p2 using unat_add_lem [THEN iffD1, of "paddr + of_nat (4096 * i)" "of_nat (k mod 4096)"] lt by (simp only: pi r) simp
    moreover have "unat (ucast (paddr + of_nat (4096 * i)) + (of_nat (k mod 4096) :: u32)) = unat paddr + 4096 * i + k mod 4096"
      using unat_add_lem [THEN iffD1, of "ucast (paddr + of_nat (4096 * i)) :: u32" "of_nat (k mod 4096)"] lt
      by (simp only: u unat_of_nat_u32) (simp add: unat_of_nat_u32)
    ultimately show ?thesis using lt by (simp only: word_unat_eq_iff unsigned_ucast_eq) (simp add: take_bit_nat_eq_self)
  qed
  finally show ?thesis unfolding run' by (simp add: pa2kva_def ucast_up_down)
qed

theorem uva2kva_map_pages_witness:
  "\<exists>s. map_example vmem_example = Inr (0, s) \<and> uva2kva (boot_pgalloc 0) page0 0x80010000 0x401004 s = Inr 0x80008004"
proof -
  obtain s where s: "map_example vmem_example = Inr (0, s)" using map_example_runs by blast
  then show ?thesis
    using uva2kva_map_pages [OF vmem_example_ok(1,2) example_range(1-3) _ example_range(5) s, of 4100 page0]
    by (auto simp: pa2kva_def KERN_BASE_def)
qed

text \<open>
  C25. \<open>unmap_pages\<close> after \<open>map_pages\<close>. The whole range that was mapped is to be unmapped, but only its
  first page is: the call stores the frame of the first page, returns 4096 and leaves the
  entries of the other pages, because the loop compares an entry with its flags to a plain
  address. A range of one page is unmapped completely. The bootstrap allocator has room for one
  more node, in case a leaf table is given back.
\<close>

theorem unmap_map_pages:
  assumes "vm_ok s" "pgt_wf s pg" "4096 dvd unat vaddr" "unat vaddr + 4096 * n < 2 ^ 32"
    and "4096 dvd unat paddr" "unat paddr + 4096 * n < 2 ^ 32" "unat sz = 4096 * n" "0 < n" "0 < nodes_left s"
    and run: "map_pages (boot_pgalloc p0) boot_pgfree pd pg vaddr paddr sz flags s = Inr (0, s')"
  shows "\<exists>s''. unmap_pages (boot_pgalloc p0) boot_pgfree pd pg vaddr sz s' = Inr (4096, Some paddr, s'') \<and> vm_ok s'' \<and> pgt_wf s'' pg \<and>
      (\<forall>m<2 ^ 20. page_entry s'' pg m =
        (if vpn vaddr < m \<and> m < vpn vaddr + n then ucast (paddr + of_nat (4096 * (m - vpn vaddr))) OR pgtable_perm flags
         else page_entry s pg m))"
proof -
  note lim = page_number_limit
  have le: "unat vaddr + 4096 * n \<le> 2 ^ 32" "unat paddr + 4096 * n < 2 ^ 64" using assms(4,6) by simp_all
  note s' = boot_pages.map_pages_done(1,2,4,5) [OF assms(1-3) le(1) assms(5) le(2) assms(7) run]
  have room: "0 < nodes_left s'" using boot_pages.map_pages_done(3) [OF assms(1-3) le(1) assms(5) le(2) assms(7) run] assms(9) by simp
  have e: "page_entry s' pg (vpn vaddr) = ucast paddr OR pgtable_perm flags" using s'(4) vpn_less(1) [of vaddr] assms(8) by simp
  then have pad: "PTE_PADDR (page_entry s' pg (vpn vaddr)) = ucast paddr" by (simp add: PTE_PADDR_perm [OF assms(5)])
  have up: "(ucast (ucast paddr :: u32) :: u64) = paddr"
    using assms(6) by (simp add: word_unat_eq_iff unsigned_ucast_eq unsigned_take_bit_eq take_bit_nat_eq_self)
  have leaf: "has_leaf s' pg (vpn vaddr div 1024)" by (rule entry_leaf) (use e in simp)
  have usz: "unat (vaddr + sz) = unat vaddr + 4096 * n"
    using unat_add_lem [THEN iffD1, of vaddr sz] assms(4,7) by simp
  then have lt: "vaddr < vaddr + sz" using assms(8) by (simp add: word_less_nat_alt)
  have stop: "has_leaf s' pg (vpn (vaddr + PAGE_SIZE) div 1024) \<and>
      (ucast (page_entry s' pg (vpn (vaddr + PAGE_SIZE))) :: u64) \<noteq> ucast (PTE_PADDR (page_entry s' pg (vpn vaddr))) + PAGE_SIZE"
    if more: "vaddr + PAGE_SIZE < vaddr + sz"
  proof -
    have ps: "PAGE_SIZE = (of_nat (4096 * 1) :: u32)" "PAGE_SIZE = (of_nat (4096 * 1) :: u64)" by (simp_all add: PAGE_SIZE_def)
    have "unat vaddr + 4096 * 1 < 2 ^ 32" using assms(4,8) by simp
    from vpn_step [OF assms(3) this] have v: "vpn (vaddr + PAGE_SIZE) = vpn vaddr + 1" unfolding ps(1) .
    have "unat (vaddr + PAGE_SIZE) = unat vaddr + 4096"
      using unat_add_lem [THEN iffD1, of vaddr PAGE_SIZE] assms(4,8) by (simp add: unat_PAGE_SIZE)
    with more usz have n: "1 < n" by (simp add: word_less_nat_alt)
    have ent: "page_entry s' pg (vpn vaddr + 1) = ucast (paddr + PAGE_SIZE) OR pgtable_perm flags"
      using s'(4) vpn_less(1) [of "vaddr + PAGE_SIZE"] n unfolding v by (simp add: PAGE_SIZE_def)
    have "unat (paddr + PAGE_SIZE) = unat paddr + 4096"
      using paddr_step [of paddr 1] assms(6) n unfolding ps(2) by simp
    then have "4096 dvd unat (paddr + PAGE_SIZE)" using assms(5) by simp
    from aligned_low_bits [OF this, of 6] have "\<not> bit (paddr + PAGE_SIZE) 6" by simp
    moreover have "bit (ucast (page_entry s' pg (vpn vaddr + 1)) :: u64) 6"
      unfolding ent using perm_bits(2) [of flags] by (simp add: bit_ucast_iff bit_or_iff)
    moreover have "has_leaf s' pg ((vpn vaddr + 1) div 1024)"
      by (rule entry_leaf) (use ent in simp)
    ultimately show ?thesis unfolding v pad up by metis
  qed
  have final: "(if m = vpn vaddr then 0 else page_entry s' pg m) =
      (if vpn vaddr < m \<and> m < vpn vaddr + n then ucast (paddr + of_nat (4096 * (m - vpn vaddr))) OR pgtable_perm flags
       else page_entry s pg m)" if "m < 2 ^ 20" for m
    using s'(3) [rule_format, of 0] s'(4) lim [OF that] assms(8) by (auto simp del: of_nat_mult)
  have "\<not> vaddr + PAGE_SIZE < vaddr + sz \<or> has_leaf s' pg (vpn (vaddr + PAGE_SIZE) div 1024) \<and>
      (ucast (page_entry s' pg (vpn (vaddr + PAGE_SIZE))) :: u64) \<noteq> ucast (PTE_PADDR (page_entry s' pg (vpn vaddr))) + PAGE_SIZE"
    using stop by blast
  from boot_pages.unmap_first [OF s'(1,2) leaf lt assms(3) this room, of p0 pd, unfolded pad up] obtain s'' where
    u: "unmap_pages (boot_pgalloc p0) boot_pgfree pd pg vaddr sz s' = Inr (4096, Some paddr, s'')" "vm_ok s''" "pgt_wf s'' pg"
      "\<forall>m. m div 1024 < 1024 \<longrightarrow> page_entry s'' pg m = (if m = vpn vaddr then 0 else page_entry s' pg m)" by blast
  have "\<forall>m<2 ^ 20. page_entry s'' pg m =
      (if vpn vaddr < m \<and> m < vpn vaddr + n then ucast (paddr + of_nat (4096 * (m - vpn vaddr))) OR pgtable_perm flags
       else page_entry s pg m)" using u(4) lim final by presburger
  with u(1-3) show ?thesis by blast
qed

theorem unmap_map_pages_witness:
  "\<exists>s s'. map_example vmem_example = Inr (0, s) \<and>
    unmap_pages (boot_pgalloc 0) boot_pgfree page0 0x80010000 0x400000 0x2000 s = Inr (4096, Some 0x7000, s') \<and>
    page_entry s' 0x80010000 1024 = 0 \<and> page_entry s' 0x80010000 1025 \<noteq> 0"
proof -
  obtain s where s: "map_example vmem_example = Inr (0, s)" using map_example_runs by blast
  have z: "page_entry vmem_example 0x80010000 1024 = 0" by (rule vmem_example_ok(4)) simp
  obtain s' where s': "unmap_pages (boot_pgalloc 0) boot_pgfree page0 0x80010000 0x400000 0x2000 s = Inr (4096, Some 0x7000, s')"
    "\<forall>m<2 ^ 20. page_entry s' 0x80010000 m = (if 1024 < m \<and> m < 1024 + 2
        then ucast ((0x7000 :: u64) + of_nat (4096 * (m - 1024))) OR pgtable_perm VMA_WRITE else page_entry vmem_example 0x80010000 m)"
    using unmap_map_pages [OF vmem_example_ok(1,2) example_range(1) _ example_range(3) _ example_range(5) _ _ s] vmem_example_counts by auto
  show ?thesis using s s'(1) spec [OF s'(2), of 1024] spec [OF s'(2), of 1025] z by (intro exI [of _ s] exI [of _ s']) simp
qed

end
