(* ===== verification/Uvm.thy ===== *)
theory Uvm
  imports UserMap Libc ListHead
begin

unbundle bit_operations_syntax

text \<open>
  User address spaces, \<^verbatim>\<open>kern/mm/uvm.c\<close>. The objects \<^verbatim>\<open>struct mm\<close>, \<^verbatim>\<open>struct vma\<close> and \<^verbatim>\<open>struct upages\<close>
  are maps from their addresses, and their list nodes are at the offsets the structures give
  them. An object begins to exist where \<^verbatim>\<open>kmalloc\<close> returns and ends with \<^verbatim>\<open>kfree\<close>. The calls of the
  allocators are in a record; \<^verbatim>\<open>uv_mem\<close> is the contents of the memory that the copies read and
  write, and \<^verbatim>\<open>uv_current_mm\<close> the address space of \<^verbatim>\<open>current_proc\<close>, if there is one.
\<close>

section \<open>State\<close>

record mm =
  mm_vma_count :: u32
  mm_ref_count :: u32
  mm_pgindex :: ptr

record upages = pages +
  up_refs :: u32

record vma =
  vma_start :: ptr
  vma_size :: u32
  vma_flags :: u32
  vma_mm :: ptr
  vma_pages :: ptr

record uvm = vmem +
  uv_nodes :: list_mem
  uv_mms :: "ptr \<rightharpoonup> mm"
  uv_vmas :: "ptr \<rightharpoonup> vma"
  uv_upages :: "ptr \<rightharpoonup> upages"
  uv_kernel_mm :: ptr
  uv_current_mm :: "ptr option"
  uv_mem :: bytes

definition mm_vma_head :: "ptr \<Rightarrow> ptr" where "mm_vma_head mm = mm"
definition vma_node :: "ptr \<Rightarrow> ptr" where "vma_node v = v + 20"
definition vma_share_node :: "ptr \<Rightarrow> ptr" where "vma_share_node v = v + 28"
definition upages_vma_head :: "ptr \<Rightarrow> ptr" where "upages_vma_head p = p + 28"
definition node_vma :: "ptr \<Rightarrow> ptr" where "node_vma n = n - 20"

definition sizeof_mm :: u32 where "sizeof_mm = 24"
definition sizeof_vma :: u32 where "sizeof_vma = 36"
definition sizeof_upages :: u32 where "sizeof_upages = 40"

record 's mm_calls =
  mc_kmalloc :: "u32 \<Rightarrow> 's \<Rightarrow> (ptr \<times> 's) res"
  mc_kfree :: "ptr \<Rightarrow> 's \<Rightarrow> 's res"
  mc_alloc_pages :: "pages \<Rightarrow> 's \<Rightarrow> (int \<times> pages \<times> 's) res"
  mc_free_pages :: "pages \<Rightarrow> 's \<Rightarrow> 's res"
  mc_pgalloc :: "'s \<Rightarrow> (u64 \<times> 's) res"
  mc_pgfree :: "u64 \<Rightarrow> 's \<Rightarrow> 's res"
  mc_pagedesc :: pagedesc

type_synonym 'a calls = "'a uvm_scheme mm_calls"

definition on_nodes :: "(list_mem \<Rightarrow> list_mem res) \<Rightarrow> 'a uvm_scheme \<Rightarrow> 'a uvm_scheme res" where
  "on_nodes f s = and_then (f (uv_nodes s)) (\<lambda>H. Inr (s\<lparr>uv_nodes := H\<rparr>))"

definition fresh_node :: "ptr \<Rightarrow> 'a uvm_scheme \<Rightarrow> 'a uvm_scheme" where
  "fresh_node n s = s\<lparr>uv_nodes := (uv_nodes s)(n \<mapsto> \<lparr>lh_next = 0, lh_prev = 0\<rparr>)\<rparr>"

definition drop_node :: "ptr \<Rightarrow> 'a uvm_scheme \<Rightarrow> 'a uvm_scheme" where
  "drop_node n s = s\<lparr>uv_nodes := (uv_nodes s)(n := None)\<rparr>"

section \<open>Objects\<close>

definition kfree_mm :: "'a calls \<Rightarrow> ptr \<Rightarrow> 'a uvm_scheme \<Rightarrow> 'a uvm_scheme res" where
  "kfree_mm c mm s =
     and_then (mc_kfree c mm s) (\<lambda>s. Inr (drop_node (mm_vma_head mm) (s\<lparr>uv_mms := (uv_mms s)(mm := None)\<rparr>)))"

definition kfree_vma :: "'a calls \<Rightarrow> ptr \<Rightarrow> 'a uvm_scheme \<Rightarrow> 'a uvm_scheme res" where
  "kfree_vma c v s =
     and_then (mc_kfree c v s) (\<lambda>s.
     Inr (drop_node (vma_node v) (drop_node (vma_share_node v) (s\<lparr>uv_vmas := (uv_vmas s)(v := None)\<rparr>))))"

definition kfree_upages :: "'a calls \<Rightarrow> ptr \<Rightarrow> 'a uvm_scheme \<Rightarrow> 'a uvm_scheme res" where
  "kfree_upages c p s =
     and_then (mc_kfree c p s) (\<lambda>s. Inr (drop_node (upages_vma_head p) (s\<lparr>uv_upages := (uv_upages s)(p := None)\<rparr>)))"

definition mm_new :: "'a calls \<Rightarrow> 'a uvm_scheme \<Rightarrow> (ptr \<times> 'a uvm_scheme) res" where
  "mm_new c s =
     and_then (mc_kmalloc c sizeof_mm s) (\<lambda>(mm, s).
     if mm \<noteq> NULL
     then and_then (on_nodes (INIT_LIST_HEAD (mm_vma_head mm)) (fresh_node (mm_vma_head mm) s)) (\<lambda>s.
       and_then (init_pgindex (mc_pgalloc c) s) (\<lambda>(pg, s).
       let s = s\<lparr>uv_mms := (uv_mms s)(mm \<mapsto> \<lparr>mm_vma_count = 0, mm_ref_count = 0, mm_pgindex = pg\<rparr>)\<rparr> in
       if pg = NULL then and_then (kfree_mm c mm s) (\<lambda>s. Inr (NULL, s)) else Inr (mm, s)))
     else Inr (mm, s))"

definition clean_vma :: "'a calls \<Rightarrow> ptr \<Rightarrow> ptr \<Rightarrow> 'a uvm_scheme \<Rightarrow> 'a uvm_scheme res" where
  "clean_vma c mm v s =
     and_then (ld (uv_vmas s) v) (\<lambda>vma. and_then (ld (uv_upages s) (vma_pages vma)) (\<lambda>p. and_then (ld (uv_mms s) mm) (\<lambda>m.
     if ucast (vma_size vma) \<noteq> pg_size p then Inl Panic
     else and_then (unmap_pages (mc_pgalloc c) (mc_pgfree c) (mc_pagedesc c) (mm_pgindex m) (vma_start vma) (vma_size vma) s)
       (\<lambda>(unmapped, pa, s).
       case pa of None \<Rightarrow> Inl Fault
       | Some pa \<Rightarrow> if pa \<noteq> pg_paddr p then Inl Panic
           else if unmapped \<noteq> sint (vma_size vma) then Inl Panic else Inr s))))"

definition ref_upages :: "ptr \<Rightarrow> 'a uvm_scheme \<Rightarrow> 'a uvm_scheme res" where
  "ref_upages p s = and_then (upd (uv_upages s) p (up_refs_update (\<lambda>n. n + 1))) (\<lambda>U. Inr (s\<lparr>uv_upages := U\<rparr>))"

definition unref_and_free_upages :: "'a calls \<Rightarrow> ptr \<Rightarrow> 'a uvm_scheme \<Rightarrow> (bool \<times> 'a uvm_scheme) res" where
  "unref_and_free_upages c p s =
     and_then (upd (uv_upages s) p (up_refs_update (\<lambda>n. n - 1))) (\<lambda>U.
     let s = s\<lparr>uv_upages := U\<rparr> in
     and_then (ld (uv_upages s) p) (\<lambda>u.
     if up_refs u = 0 then and_then (mc_free_pages c (pages.truncate u) s) (\<lambda>s. Inr (True, s)) else Inr (False, s)))"

text \<open>The end of \<open>mm_destroy\<close>, of \<open>unmap_and_free_vma\<close>: drop the pages of an area, and the area.\<close>

definition release_vma :: "'a calls \<Rightarrow> ptr \<Rightarrow> 'a uvm_scheme \<Rightarrow> 'a uvm_scheme res" where
  "release_vma c v s =
     and_then (ld (uv_vmas s) v) (\<lambda>vma.
     and_then (unref_and_free_upages c (vma_pages vma) s) (\<lambda>(freed, s).
     and_then (if freed then kfree_upages c (vma_pages vma) s else Inr s) (kfree_vma c v)))"

definition next_vma :: "ptr \<Rightarrow> 'a uvm_scheme \<Rightarrow> ptr res" where
  "next_vma v s = and_then (ld (uv_nodes s) (vma_node v)) (\<lambda>n. Inr (node_vma (lh_next n)))"

definition prev_vma :: "ptr \<Rightarrow> 'a uvm_scheme \<Rightarrow> ptr res" where
  "prev_vma v s = and_then (ld (uv_nodes s) (vma_node v)) (\<lambda>n. Inr (node_vma (lh_prev n)))"

definition first_vma :: "ptr \<Rightarrow> 'a uvm_scheme \<Rightarrow> ptr res" where
  "first_vma mm s = and_then (ld (uv_nodes s) (mm_vma_head mm)) (\<lambda>n. Inr (node_vma (lh_next n)))"

definition mm_destroy :: "'a calls \<Rightarrow> ptr \<Rightarrow> 'a uvm_scheme \<Rightarrow> 'a uvm_scheme res" where
  "mm_destroy c mm s =
     (if mm = NULL \<or> mm = uv_kernel_mm s then Inr s
      else and_then (first_vma mm s) (\<lambda>v. and_then (next_vma v s) (\<lambda>n.
        and_then (returns (loop (\<lambda>(v, n, s).
          if vma_node v \<noteq> mm_vma_head mm
          then and_then (clean_vma c mm v s) (\<lambda>s. and_then (release_vma c v s) (\<lambda>s.
               and_then (next_vma n s) (\<lambda>n'. Inr (Cont (n, n', s)))))
          else Inr (Break s)) (v, n, s))) (\<lambda>s.
        and_then (ld (uv_mms s) mm) (\<lambda>m.
        and_then (destroy_pgindex (mc_pgfree c) (mm_pgindex m) s) (kfree_mm c mm))))))"

section \<open>Searching the areas\<close>

text \<open>\<open>for_each_entry\<close> with a body that may break: the area, or the sentry's entry, where it ends.\<close>

definition each_vma :: "ptr \<Rightarrow> (vma \<Rightarrow> bool) \<Rightarrow> 'a uvm_scheme \<Rightarrow> ptr res" where
  "each_vma mm P s =
     and_then (first_vma mm s) (\<lambda>v.
     returns (loop (\<lambda>v.
       if vma_node v \<noteq> mm_vma_head mm
       then and_then (ld (uv_vmas s) v) (\<lambda>vma. if P vma then Inr (Break v) else and_then (next_vma v s) (\<lambda>v. Inr (Cont v)))
       else Inr (Break v)) v))"

definition find_vma_before :: "ptr \<Rightarrow> ptr \<Rightarrow> u32 \<Rightarrow> 'a uvm_scheme \<Rightarrow> ptr res" where
  "find_vma_before mm addr sz s =
     and_then (list_empty (mm_vma_head mm) (uv_nodes s)) (\<lambda>empty.
     if empty then Inr (node_vma (mm_vma_head mm))
     else and_then (each_vma mm (\<lambda>vma. vma_start vma \<ge> addr + sz) s) (\<lambda>v.
       and_then (prev_vma v s) (\<lambda>vp. and_then (ld (uv_vmas s) vp) (\<lambda>vma.
       Inr (if addr < vma_start vma + vma_size vma then NULL else vp)))))"

definition find_continuous_vma :: "ptr \<Rightarrow> ptr \<Rightarrow> u32 \<Rightarrow> 'a uvm_scheme \<Rightarrow> ptr res" where
  "find_continuous_vma mm addr len s =
     (if \<not> IS_ALIGNED addr PAGE_SIZE \<or> \<not> IS_ALIGNED len PAGE_SIZE then Inl Panic
      else and_then (each_vma mm (\<lambda>vma. vma_start vma = addr) s) (\<lambda>v.
        if vma_node v = mm_vma_head mm then Inr NULL
        else returns (loop (\<lambda>(i, w).
          if i < len
          then and_then (next_vma w s) (\<lambda>w. and_then (ld (uv_vmas s) w) (\<lambda>vma.
               if vma_start vma \<noteq> addr + i then Inr (Break NULL) else Inr (Cont (i + PAGE_SIZE, w))))
          else Inr (Break v)) (PAGE_SIZE, v))))"

section \<open>Creating and destroying areas\<close>

definition unmap_and_free_vma :: "'a calls \<Rightarrow> ptr \<Rightarrow> ptr \<Rightarrow> u32 \<Rightarrow> 'a uvm_scheme \<Rightarrow> 'a uvm_scheme res" where
  "unmap_and_free_vma c mm v sz s =
     returns (loop (\<lambda>(i, v, s).
       if i < sz
       then and_then (next_vma v s) (\<lambda>n. and_then (ld (uv_vmas s) v) (\<lambda>vma.
            and_then (on_nodes (list_del (vma_node v)) s) (\<lambda>s.
            and_then (on_nodes (list_del (vma_share_node v)) s) (\<lambda>s.
            and_then (ld (uv_mms s) mm) (\<lambda>m.
            and_then (unmap_pages (mc_pgalloc c) (mc_pgfree c) (mc_pagedesc c) (mm_pgindex m) (vma_start vma) (vma_size vma) s)
              (\<lambda>(unmapped, _, s).
            if unmapped \<noteq> sint (vma_size vma) then Inl Panic
            else and_then (release_vma c v s) (\<lambda>s. Inr (Cont (i + vma_size vma, n, s)))))))))
       else Inr (Break s)) (0, v, s))"

definition vma_new :: "'a calls \<Rightarrow> ptr \<Rightarrow> ptr \<Rightarrow> u32 \<Rightarrow> u32 \<Rightarrow> 'a uvm_scheme \<Rightarrow> (ptr \<times> 'a uvm_scheme) res" where
  "vma_new c mm addr sz flags s =
     and_then (mc_kmalloc c sizeof_vma s) (\<lambda>(v, s).
     if v \<noteq> NULL
     then let s = s\<lparr>uv_vmas := (uv_vmas s)(v \<mapsto>
                \<lparr>vma_start = addr, vma_size = sz, vma_flags = flags, vma_mm = mm, vma_pages = NULL\<rparr>)\<rparr> in
       and_then (on_nodes (INIT_LIST_HEAD (vma_node v)) (fresh_node (vma_node v) s)) (\<lambda>s.
       and_then (on_nodes (INIT_LIST_HEAD (vma_share_node v)) (fresh_node (vma_share_node v) s)) (\<lambda>s. Inr (v, s)))
     else Inr (v, s))"

definition upages_new :: "'a calls \<Rightarrow> u32 \<Rightarrow> u32 \<Rightarrow> 'a uvm_scheme \<Rightarrow> (ptr \<times> 'a uvm_scheme) res" where
  "upages_new c sz flags s =
     and_then (mc_kmalloc c sizeof_upages s) (\<lambda>(p, s).
     if p \<noteq> NULL
     then let s = s\<lparr>uv_upages := (uv_upages s)(p \<mapsto> \<lparr>pg_paddr = 0, pg_size = ucast sz, pg_flags = flags, up_refs = 0\<rparr>)\<rparr> in
       and_then (on_nodes (INIT_LIST_HEAD (upages_vma_head p)) (fresh_node (upages_vma_head p) s)) (\<lambda>s. Inr (p, s))
     else Inr (p, s))"

text \<open>\<^verbatim>\<open>alloc_pages(p)\<close> and \<^verbatim>\<open>free_pages(p)\<close> on the \<^verbatim>\<open>struct pages\<close> inside \<^verbatim>\<open>*p\<close>.\<close>

definition alloc_upages :: "'a calls \<Rightarrow> ptr \<Rightarrow> 'a uvm_scheme \<Rightarrow> (int \<times> 'a uvm_scheme) res" where
  "alloc_upages c p s =
     and_then (ld (uv_upages s) p) (\<lambda>u.
     and_then (mc_alloc_pages c (pages.truncate u) s) (\<lambda>(r, pg, s).
     Inr (r, s\<lparr>uv_upages := (uv_upages s)(p \<mapsto> u\<lparr>pg_paddr := pg_paddr pg, pg_size := pg_size pg, pg_flags := pg_flags pg\<rparr>)\<rparr>)))"

definition free_upages :: "'a calls \<Rightarrow> ptr \<Rightarrow> 'a uvm_scheme \<Rightarrow> 'a uvm_scheme res" where
  "free_upages c p s = and_then (ld (uv_upages s) p) (\<lambda>u. mc_free_pages c (pages.truncate u) s)"

text \<open>
  One round of the loops of \<open>create_uvm\<close> and \<open>mm_clone\<close>: an area of the given size with pages of
  its own is mapped and put after \<open>cur\<close>. \<open>spec\<close> reads the size and the flags of the pages, and
  \<open>fill\<close> is what the round does with the new pages. The result is the new area, or the error
  after the round's own rollback.
\<close>

definition add_vma ::
  "'a calls \<Rightarrow> ptr \<Rightarrow> ptr \<Rightarrow> u32 \<Rightarrow> u32 \<Rightarrow> ('a uvm_scheme \<Rightarrow> (u32 \<times> u32) res) \<Rightarrow>
   (ptr \<Rightarrow> 'a uvm_scheme \<Rightarrow> 'a uvm_scheme res) \<Rightarrow> ptr \<Rightarrow> 'a uvm_scheme \<Rightarrow>
   ((int + ptr) \<times> 'a uvm_scheme) res" where
  "add_vma c mm addr sz flags spec fill cur s =
     and_then (vma_new c mm addr sz flags s) (\<lambda>(v, s).
     if v = NULL then Inr (Inl (- ENOMEM), s)
     else and_then (spec s) (\<lambda>(psize, pflags). and_then (upages_new c psize pflags s) (\<lambda>(p, s).
       if p = NULL then and_then (kfree_vma c v s) (\<lambda>s. Inr (Inl (- ENOMEM), s))
       else and_then (alloc_upages c p s) (\<lambda>(r, s).
         if r < 0 then and_then (kfree_upages c p s) (\<lambda>s. and_then (kfree_vma c v s) (\<lambda>s. Inr (Inl (- ENOMEM), s)))
         else and_then (ld (uv_upages s) p) (\<lambda>u. and_then (ld (uv_mms s) mm) (\<lambda>m.
           and_then (map_pages (mc_pgalloc c) (mc_pgfree c) (mc_pagedesc c) (mm_pgindex m) addr (pg_paddr u) sz flags s)
             (\<lambda>(r, s).
           if r < 0
           then and_then (free_upages c p s) (\<lambda>s. and_then (kfree_upages c p s) (\<lambda>s.
                and_then (kfree_vma c v s) (\<lambda>s. Inr (Inl r, s))))
           else and_then (fill p s) (\<lambda>s.
             and_then (upd (uv_vmas s) v (vma_pages_update (\<lambda>_. p))) (\<lambda>V.
             and_then (ref_upages p (s\<lparr>uv_vmas := V\<rparr>)) (\<lambda>s.
             and_then (on_nodes (list_add (vma_node v) (vma_node cur)) s) (\<lambda>s.
             and_then (on_nodes (list_add (vma_share_node v) (upages_vma_head p)) s) (\<lambda>s.
             Inr (Inr v, s)))))))))))))"

definition create_uvm :: "'a calls \<Rightarrow> ptr \<Rightarrow> ptr \<Rightarrow> u32 \<Rightarrow> u32 \<Rightarrow> 'a uvm_scheme \<Rightarrow> (int \<times> 'a uvm_scheme) res" where
  "create_uvm c mm addr len flags s =
     (if \<not> IS_ALIGNED len PAGE_SIZE \<or> mm = NULL \<or> \<not> IS_ALIGNED addr PAGE_SIZE then Inr (- EINVAL, s)
      else if len = 0 then Inr (0, s)
      else and_then (find_vma_before mm addr len s) (\<lambda>start.
        if start = NULL then Inr (- EFAULT, s)
        else and_then (returns (loop (\<lambda>(mapped, vcur, cur, s).
            if mapped < len
            then and_then (add_vma c mm vcur PAGE_SIZE flags (\<lambda>s. Inr (PAGE_SIZE, 0)) (\<lambda>p. Inr) cur s) (\<lambda>(r, s).
                 case r of Inl e \<Rightarrow> Inr (Break (e, mapped, s))
                 | Inr v \<Rightarrow> Inr (Cont (mapped + PAGE_SIZE, vcur + PAGE_SIZE, v, s)))
            else Inr (Break (0, mapped, s))) (0, addr, start, s))) (\<lambda>(r, mapped, s).
          if r = 0 then Inr (0, s)
          else and_then (next_vma start s) (\<lambda>v. and_then (unmap_and_free_vma c mm v mapped s) (\<lambda>s. Inr (r, s))))))"

definition destroy_uvm :: "'a calls \<Rightarrow> ptr \<Rightarrow> ptr \<Rightarrow> u32 \<Rightarrow> 'a uvm_scheme \<Rightarrow> (int \<times> 'a uvm_scheme) res" where
  "destroy_uvm c mm addr len s =
     (if \<not> IS_ALIGNED len PAGE_SIZE \<or> mm = NULL \<or> \<not> IS_ALIGNED addr PAGE_SIZE then Inr (- EINVAL, s)
      else and_then (find_continuous_vma mm addr len s) (\<lambda>v.
        if v = NULL then Inr (- EFAULT, s)
        else and_then (unmap_and_free_vma c mm v len s) (\<lambda>s. Inr (0, s))))"

definition set_uvm_perm :: "'a calls \<Rightarrow> ptr \<Rightarrow> ptr \<Rightarrow> u32 \<Rightarrow> u32 \<Rightarrow> 'a uvm_scheme \<Rightarrow> (int \<times> 'a uvm_scheme) res" where
  "set_uvm_perm c mm addr len flags s =
     (if \<not> IS_ALIGNED len PAGE_SIZE \<or> mm = NULL \<or> \<not> IS_ALIGNED addr PAGE_SIZE then Inr (- EINVAL, s)
      else and_then (find_continuous_vma mm addr len s) (\<lambda>v.
        if v = NULL then Inr (- EFAULT, s)
        else returns (loop (\<lambda>(i, addr, s).
          if i < len
          then and_then (upd (uv_vmas s) v (vma_flags_update (\<lambda>_. flags))) (\<lambda>V.
               let s = s\<lparr>uv_vmas := V\<rparr> in
               and_then (ld (uv_mms s) mm) (\<lambda>m.
               and_then (set_pages_perm (mc_pgalloc c) (mc_pagedesc c) (mm_pgindex m) addr PAGE_SIZE flags s) (\<lambda>(r, s).
               if r \<noteq> 0 then Inr (Break (- ENOENT, s)) else Inr (Cont (i + PAGE_SIZE, addr + PAGE_SIZE, s)))))
          else Inr (Break (0, s))) (0, addr, s))))"

definition mm_clone :: "'a calls \<Rightarrow> ptr \<Rightarrow> ptr \<Rightarrow> 'a uvm_scheme \<Rightarrow> (int \<times> 'a uvm_scheme) res" where
  "mm_clone c dst src s =
     (let start = node_vma (mm_vma_head dst) in
      and_then (first_vma src s) (\<lambda>v.
      and_then (returns (loop (\<lambda>(v, cur, cloned, s).
          if vma_node v \<noteq> mm_vma_head src
          then and_then (ld (uv_vmas s) v) (\<lambda>vma.
               and_then (add_vma c dst (vma_start vma) (vma_size vma) (vma_flags vma)
                 (\<lambda>s. and_then (ld (uv_upages s) (vma_pages vma)) (\<lambda>u. Inr (ucast (pg_size u), pg_flags u)))
                 (\<lambda>p s. and_then (ld (uv_upages s) p) (\<lambda>new. and_then (ld (uv_upages s) (vma_pages vma)) (\<lambda>old.
                    and_then (memmove (pa2kva (pg_paddr new)) (pa2kva (pg_paddr old)) (vma_size vma) (uv_mem s)) (\<lambda>(_, m).
                    Inr (s\<lparr>uv_mem := m\<rparr>))))) cur s) (\<lambda>(r, s).
               case r of Inl e \<Rightarrow> Inr (Break (e, cloned, s))
               | Inr w \<Rightarrow> and_then (next_vma v s) (\<lambda>v. Inr (Cont (v, w, cloned + vma_size vma, s)))))
          else Inr (Break (0, cloned, s))) (v, start, 0, s))) (\<lambda>(r, cloned, s).
      if r = 0 then Inr (0, s)
      else and_then (next_vma start s) (\<lambda>v. and_then (unmap_and_free_vma c dst v cloned s) (\<lambda>s. Inr (r, s))))))"

section \<open>Copying\<close>

definition copy_fill_uvm :: "'a calls \<Rightarrow> ptr \<Rightarrow> ptr \<Rightarrow> ptr \<Rightarrow> u8 \<Rightarrow> u32 \<Rightarrow> bool \<Rightarrow> bool \<Rightarrow> 'a uvm_scheme \<Rightarrow> (int \<times> 'a uvm_scheme) res" where
  "copy_fill_uvm c mm uvaddr vaddr ch len fill touser s =
     (let uend = uvaddr + len;
          start_page = ALIGN_BELOW uvaddr PAGE_SIZE;
          end_page = ALIGN_ABOVE (uvaddr + len) PAGE_SIZE;
          copy = (\<lambda>uaddr vaddr l s. and_then
            (if fill then memset uaddr (ucast ch) l (uv_mem s)
             else if \<not> touser then memmove vaddr uaddr l (uv_mem s) else memmove uaddr vaddr l (uv_mem s))
            (\<lambda>(_, m). Inr (s\<lparr>uv_mem := m\<rparr>))) in
      and_then (find_continuous_vma mm start_page (end_page - start_page) s) (\<lambda>v.
      if v = NULL then Inr (- EFAULT, s)
      else and_then (ld (uv_mms s) mm) (\<lambda>m.
        if uv_current_mm s = Some mm
        then if mm_pgindex m \<noteq> get_pgindex s then Inl Panic
             else and_then (copy uvaddr vaddr len s) (\<lambda>s. Inr (0, s))
        else returns (loop (\<lambda>(start, vaddr, s).
          if start < uend
          then and_then (uva2kva (mc_pgalloc c) (mc_pagedesc c) (mm_pgindex m) start s) (\<lambda>k.
               let nxt = ALIGN_NEXT start PAGE_SIZE; l = min2 nxt uend - start in
               if k = NULL then Inr (Break (- EACCES, s))
               else and_then (copy k vaddr l s) (\<lambda>s. Inr (Cont (nxt, vaddr + l, s))))
          else Inr (Break (0, s))) (uvaddr, vaddr, s)))))"

definition copy_to_uvm :: "'a calls \<Rightarrow> ptr \<Rightarrow> ptr \<Rightarrow> ptr \<Rightarrow> u32 \<Rightarrow> 'a uvm_scheme \<Rightarrow> (int \<times> 'a uvm_scheme) res" where
  "copy_to_uvm c mm uvaddr vaddr len s = copy_fill_uvm c mm uvaddr vaddr 0 len False True s"

definition copy_from_uvm :: "'a calls \<Rightarrow> ptr \<Rightarrow> ptr \<Rightarrow> ptr \<Rightarrow> u32 \<Rightarrow> 'a uvm_scheme \<Rightarrow> (int \<times> 'a uvm_scheme) res" where
  "copy_from_uvm c mm uvaddr vaddr len s = copy_fill_uvm c mm uvaddr vaddr 0 len False False s"

definition fill_uvm :: "'a calls \<Rightarrow> ptr \<Rightarrow> ptr \<Rightarrow> u8 \<Rightarrow> u32 \<Rightarrow> 'a uvm_scheme \<Rightarrow> (int \<times> 'a uvm_scheme) res" where
  "fill_uvm c mm uvaddr ch len s = copy_fill_uvm c mm uvaddr NULL ch len True True s"

definition mm_init :: "'a calls \<Rightarrow> 'a uvm_scheme \<Rightarrow> 'a uvm_scheme res" where
  "mm_init c s =
     and_then (mm_new c s) (\<lambda>(mm, s).
     and_then (ld (uv_mms (s\<lparr>uv_kernel_mm := mm\<rparr>)) mm) (\<lambda>m.
     Inr (snd (switch_pgindex (mm_pgindex m) (s\<lparr>uv_kernel_mm := mm\<rparr>)))))"

section \<open>The areas of an address space\<close>

lemma node_vma_inverse [simp]: "node_vma (vma_node v) = v" "vma_node (node_vma n) = n"
  by (simp_all add: node_vma_def vma_node_def)

lemma vma_node_eq [simp]: "vma_node v = vma_node w \<longleftrightarrow> v = w"
  by (simp add: vma_node_def)

text \<open>\<open>areas s mm vs\<close>: the list of \<open>mm\<close> holds the areas at \<open>vs\<close>; the sentry is no area.\<close>

definition areas :: "'a uvm_scheme \<Rightarrow> ptr \<Rightarrow> ptr list \<Rightarrow> bool" where
  "areas s mm vs \<longleftrightarrow> is_list (uv_nodes s) (mm_vma_head mm) (map vma_node vs) \<and> set vs \<subseteq> dom (uv_vmas s) \<and>
     uv_vmas s (node_vma (mm_vma_head mm)) = None"

abbreviation area_start :: "'a uvm_scheme \<Rightarrow> ptr \<Rightarrow> nat" where
  "area_start s v \<equiv> unat (vma_start (the (uv_vmas s v)))"

abbreviation area_end :: "'a uvm_scheme \<Rightarrow> ptr \<Rightarrow> nat" where
  "area_end s v \<equiv> unat (vma_start (the (uv_vmas s v))) + unat (vma_size (the (uv_vmas s v)))"

text \<open>The areas are in ascending order, do not overlap and do not wrap around.\<close>

definition ascending :: "'a uvm_scheme \<Rightarrow> ptr list \<Rightarrow> bool" where
  "ascending s vs \<longleftrightarrow> sorted_wrt (\<lambda>v w. area_end s v \<le> area_start s w) vs \<and>
     (\<forall>v\<in>set vs. area_start s v < area_end s v \<and> area_end s v < 2 ^ 32)"

lemma areas_neighbours:
  assumes "areas s mm (as @ v # bs)"
  shows "next_vma v s = Inr (case bs of [] \<Rightarrow> node_vma (mm_vma_head mm) | w # _ \<Rightarrow> w)"
    "prev_vma v s = Inr (if as = [] then node_vma (mm_vma_head mm) else last as)"
proof -
  let ?h = "mm_vma_head mm" and ?H = "uv_nodes s"
  have l: "links (field ?H lh_next) (field ?H lh_prev) (?h # map vma_node as @ vma_node v # map vma_node bs @ [?h])"
    using assms by (simp add: areas_def is_list_def chain_def)
  show "next_vma v s = Inr (case bs of [] \<Rightarrow> node_vma ?h | w # _ \<Rightarrow> w)"
  proof (cases bs)
    case Nil
    with l have "links (field ?H lh_next) (field ?H lh_prev) ((?h # map vma_node as) @ vma_node v # ?h # [])" by simp
    from links_member [OF this] obtain b where "?H (vma_node v) = Some b" "lh_next b = ?h" by metis
    with Nil show ?thesis by (simp add: next_vma_def)
  next
    case (Cons w bs')
    with l have "links (field ?H lh_next) (field ?H lh_prev) ((?h # map vma_node as) @ vma_node v # vma_node w # map vma_node bs' @ [?h])" by simp
    from links_member [OF this] obtain b where "?H (vma_node v) = Some b" "lh_next b = vma_node w" by metis
    with Cons show ?thesis by (simp add: next_vma_def)
  qed
  show "prev_vma v s = Inr (if as = [] then node_vma ?h else last as)"
  proof (cases as rule: rev_cases)
    case Nil
    with l have "links (field ?H lh_next) (field ?H lh_prev) ([] @ ?h # vma_node v # map vma_node bs @ [?h])" by simp
    from links_member [OF this] obtain b where "?H (vma_node v) = Some b" "lh_prev b = ?h" by metis
    with Nil show ?thesis by (simp add: prev_vma_def)
  next
    case (snoc as' u)
    with l have "links (field ?H lh_next) (field ?H lh_prev) ((?h # map vma_node as') @ vma_node u # vma_node v # map vma_node bs @ [?h])" by simp
    from links_member [OF this] obtain b where "?H (vma_node v) = Some b" "lh_prev b = vma_node u" by metis
    with snoc show ?thesis by (simp add: prev_vma_def)
  qed
qed

lemma areas_first: "areas s mm vs \<Longrightarrow> first_vma mm s = Inr (case vs of [] \<Rightarrow> node_vma (mm_vma_head mm) | v # _ \<Rightarrow> v)"
  by (cases vs) (auto simp: areas_def is_list_def chain_def first_vma_def)

lemma areas_last:
  assumes "areas s mm vs" "vs \<noteq> []"
  shows "prev_vma (node_vma (mm_vma_head mm)) s = Inr (last vs)"
proof -
  let ?h = "mm_vma_head mm" and ?H = "uv_nodes s"
  obtain as u where u: "vs = as @ [u]" using assms(2) by (cases vs rule: rev_cases) auto
  have "links (field ?H lh_next) (field ?H lh_prev) ((?h # map vma_node as) @ vma_node u # ?h # [])"
    using assms(1) by (simp add: areas_def is_list_def chain_def u)
  from links_member [OF this] obtain b where "?H ?h = Some b" "lh_prev b = vma_node u" by metis
  with u show ?thesis by (simp add: prev_vma_def)
qed

lemma areas_not_head: "areas s mm vs \<Longrightarrow> v \<in> set vs \<Longrightarrow> vma_node v \<noteq> mm_vma_head mm"
  using is_list_distinct [of "uv_nodes s" "mm_vma_head mm" "map vma_node vs"] by (auto simp: areas_def) (metis imageI)

text \<open>The loop over the areas ends at the first one with the property, or at the sentry.\<close>

lemma each_vma_spec:
  assumes a: "areas s mm vs"
  shows "each_vma mm P s = Inr (case dropWhile (\<lambda>v. \<not> P (the (uv_vmas s v))) vs of [] \<Rightarrow> node_vma (mm_vma_head mm) | v # _ \<Rightarrow> v)"
proof -
  define body where "body = (\<lambda>v.
       if vma_node v \<noteq> mm_vma_head mm
       then and_then (ld (uv_vmas s) v) (\<lambda>vma. if P vma then Inr (Break v) else and_then (next_vma v s) (\<lambda>v. Inr (Cont v)))
       else Inr (Break v))"
  let ?Q = "\<lambda>v. \<not> P (the (uv_vmas s v))"
  have "loop body (case bs of [] \<Rightarrow> node_vma (mm_vma_head mm) | v # _ \<Rightarrow> v) =
      Some (Inr (case dropWhile ?Q bs of [] \<Rightarrow> node_vma (mm_vma_head mm) | v # _ \<Rightarrow> v))" if "vs = as @ bs" for as bs
    using that
  proof (induction bs arbitrary: as)
    case Nil
    then show ?case by (simp add: loop_Break body_def)
  next
    case (Cons v bs)
    obtain vma where v: "uv_vmas s v = Some vma" "vma_node v \<noteq> mm_vma_head mm"
      using a areas_not_head [OF a, of v] Cons.prems by (auto simp: areas_def)
    show ?case
    proof (cases "P vma")
      case True
      with v show ?thesis by (simp add: loop_Break body_def)
    next
      case False
      have "body v = Inr (Cont (case bs of [] \<Rightarrow> node_vma (mm_vma_head mm) | w # _ \<Rightarrow> w))"
        using v False areas_neighbours(1) [of s mm as v bs] a Cons.prems by (simp add: body_def)
      with Cons.IH [of "as @ [v]"] Cons.prems v False show ?thesis by (simp add: loop_Cont)
    qed
  qed
  from this [of "[]" vs] show ?thesis using areas_first [OF a] by (simp add: each_vma_def body_def)
qed

text \<open>An ascending list splits at an address into the areas that start below it and the others.\<close>

lemma ascending_split:
  assumes "ascending s vs"
  obtains as bs where "vs = as @ bs" "\<And>v. v \<in> set as \<Longrightarrow> area_start s v < x" "\<And>w. w \<in> set bs \<Longrightarrow> x \<le> area_start s w"
proof
  let ?P = "\<lambda>v. area_start s v < x"
  show "vs = takeWhile ?P vs @ dropWhile ?P vs" by simp
  show "area_start s v < x" if "v \<in> set (takeWhile ?P vs)" for v using set_takeWhileD [OF that] by simp
  show "x \<le> area_start s w" if w: "w \<in> set (dropWhile ?P vs)" for w
  proof -
    obtain b bs where b: "dropWhile ?P vs = b # bs" using w by (cases "dropWhile ?P vs") auto
    then have b0: "x \<le> area_start s b" using hd_dropWhile [of ?P vs] by auto
    obtain as where vs: "vs = as @ b # bs" by (metis b takeWhile_dropWhile_id)
    have "w \<in> set (b # bs)" using w b by simp
    then have "w = b \<or> area_end s b \<le> area_start s w" "area_start s b < area_end s b"
      using assms unfolding ascending_def vs by (auto simp: sorted_wrt_append)
    with b0 show ?thesis by auto
  qed
qed

lemma find_vma_before_run:
  assumes a: "areas s mm vs" "vs \<noteq> []" and r: "unat addr + unat sz < 2 ^ 32" and vs: "vs = as @ bs"
    and lo: "\<And>v. v \<in> set as \<Longrightarrow> area_start s v < unat addr + unat sz" and hi: "\<And>w. w \<in> set bs \<Longrightarrow> unat addr + unat sz \<le> area_start s w"
  shows "find_vma_before mm addr sz s = (if as = [] then Inl Fault
    else Inr (let vma = the (uv_vmas s (last as)) in if addr < vma_start vma + vma_size vma then NULL else last as))"
proof -
  have u: "unat (addr + sz) = unat addr + unat sz" by (rule unat_add_lem [THEN iffD1]) (use r in simp)
  have "dropWhile (\<lambda>v. \<not> addr + sz \<le> vma_start (the (uv_vmas s v))) vs = bs"
    unfolding vs using lo hi by (cases bs) (fastforce simp: dropWhile_append word_le_nat_alt u)+
  then have each: "each_vma mm (\<lambda>vma. addr + sz \<le> vma_start vma) s = Inr (case bs of [] \<Rightarrow> node_vma (mm_vma_head mm) | v # _ \<Rightarrow> v)"
    using each_vma_spec [OF a(1)] by simp
  have prv: "prev_vma (case bs of [] \<Rightarrow> node_vma (mm_vma_head mm) | v # _ \<Rightarrow> v) s = Inr (if as = [] then node_vma (mm_vma_head mm) else last as)"
    using areas_last [OF a] areas_neighbours(2) [of s mm as] a vs by (cases bs) auto
  have ne: "list_empty (mm_vma_head mm) (uv_nodes s) = Inr False"
    using list_empty_spec [of "uv_nodes s" "mm_vma_head mm" "map vma_node vs"] a by (auto simp: areas_def)
  show ?thesis
  proof (cases "as = []")
    case True
    with ne each prv a(1) show ?thesis by (simp add: find_vma_before_def areas_def ld_def)
  next
    case False
    then have "last as \<in> set vs" using vs by simp
    then obtain vma where "uv_vmas s (last as) = Some vma" using a(1) by (auto simp: areas_def)
    with ne each prv False show ?thesis by (simp add: find_vma_before_def)
  qed
qed

text \<open>
  C21. \<open>find_vma_before\<close> decides whether a new area fits. In an address space whose areas are ascending
  and disjoint, the call returns \<^verbatim>\<open>NULL\<close> exactly when the range overlaps an area, and otherwise the last
  area before the range; for an empty address space it returns the sentry's entry. When the
  address space is not empty but all areas lie above the range, the code takes the sentry for
  an area and reads memory in front of the \<^verbatim>\<open>struct mm\<close>.
\<close>

theorem find_vma_before_correct:
  assumes a: "areas s mm vs" "ascending s vs" and r: "unat addr + unat sz < 2 ^ 32" "0 < sz"
  shows "find_vma_before mm addr sz s =
    (if vs = [] then Inr (node_vma (mm_vma_head mm))
     else if \<forall>v\<in>set vs. unat addr + unat sz \<le> area_start s v then Inl Fault
     else if \<exists>v\<in>set vs. area_start s v < unat addr + unat sz \<and> unat addr < area_end s v then Inr NULL
     else Inr (last (filter (\<lambda>v. area_end s v \<le> unat addr) vs)))"
proof (cases "vs = []")
  case True
  with a(1) show ?thesis using list_empty_spec [of "uv_nodes s" "mm_vma_head mm" "map vma_node vs"]
    by (auto simp: find_vma_before_def areas_def)
next
  case ne: False
  obtain as bs where vs: "vs = as @ bs" and lo: "\<And>v. v \<in> set as \<Longrightarrow> area_start s v < unat addr + unat sz"
    and hi: "\<And>w. w \<in> set bs \<Longrightarrow> unat addr + unat sz \<le> area_start s w" using ascending_split [OF a(2)] by metis
  have pos: "area_start s v < area_end s v" "area_end s v < 2 ^ 32" if "v \<in> set vs" for v using a(2) that by (auto simp: ascending_def)
  note run = find_vma_before_run [OF a(1) ne r(1) vs lo hi]
  show ?thesis
  proof (cases "as = []")
    case True
    then show ?thesis using run hi vs ne by simp
  next
    case as: False
    define l where "l = last as"
    have l: "l \<in> set as" "l \<in> set vs" using as vs by (simp_all add: l_def)
    have e: "addr < vma_start (the (uv_vmas s l)) + vma_size (the (uv_vmas s l)) \<longleftrightarrow> unat addr < area_end s l"
      using pos(2) [OF l(2)] unat_add_lem [THEN iffD1, of "vma_start (the (uv_vmas s l))" "vma_size (the (uv_vmas s l))"]
      by (simp add: word_less_nat_alt)
    have some: "\<not> (\<forall>v\<in>set vs. unat addr + unat sz \<le> area_start s v)" using lo [OF l(1)] l(2) by (metis not_le)
    show ?thesis
    proof (cases "unat addr < area_end s l")
      case True
      then have "\<exists>v\<in>set vs. area_start s v < unat addr + unat sz \<and> unat addr < area_end s v" using l lo by blast
      with run e True some as ne show ?thesis by (simp add: l_def [symmetric])
    next
      case no: False
      have below: "area_end s v \<le> unat addr" if "v \<in> set as" for v
      proof -
        obtain as' where as': "as = as' @ [l]" using as by (metis append_butlast_last_id l_def)
        have "v = l \<or> area_end s v \<le> area_start s l" using a(2) that unfolding ascending_def vs as' by (auto simp: sorted_wrt_append)
        then show ?thesis using no pos(1) [OF l(2)] by auto
      qed
      have above: "unat addr < area_end s w" if "w \<in> set bs" for w using hi [OF that] pos(1) [of w] that vs by auto
      have "\<not> (\<exists>v\<in>set vs. area_start s v < unat addr + unat sz \<and> unat addr < area_end s v)"
        using below hi vs by (metis Un_iff not_le set_append)
      moreover have "filter (\<lambda>v. area_end s v \<le> unat addr) vs = as"
        unfolding vs using below above by (auto simp: filter_id_conv filter_empty_conv not_le)
      ultimately show ?thesis using run e no some as ne unfolding l_def [symmetric] by (auto simp: l_def)
    qed
  qed
qed

text \<open>An address space with the areas 0x400000 and 0x402000, one page each.\<close>

definition uvm_example :: uvm where
  "uvm_example = vmem.extend vmem_example (uvm.fields
     [0x100 \<mapsto> \<lparr>lh_next = 0x214, lh_prev = 0x314\<rparr>, 0x214 \<mapsto> \<lparr>lh_next = 0x314, lh_prev = 0x100\<rparr>,
      0x314 \<mapsto> \<lparr>lh_next = 0x100, lh_prev = 0x214\<rparr>]
     [0x100 \<mapsto> \<lparr>mm_vma_count = 0, mm_ref_count = 0, mm_pgindex = 0x80010000\<rparr>]
     [0x200 \<mapsto> \<lparr>vma_start = 0x400000, vma_size = 0x1000, vma_flags = 0, vma_mm = 0x100, vma_pages = 0\<rparr>,
      0x300 \<mapsto> \<lparr>vma_start = 0x402000, vma_size = 0x1000, vma_flags = 0, vma_mm = 0x100, vma_pages = 0\<rparr>]
     Map.empty 0 None Map.empty)"

lemma uvm_example_areas: "areas uvm_example 0x100 [0x200, 0x300]" "ascending uvm_example [0x200, 0x300]"
  by (simp_all add: areas_def ascending_def is_list_def chain_def uvm_example_def vmem.defs uvm.defs mm_vma_head_def vma_node_def node_vma_def)

theorem find_vma_before_correct_witness:
  "find_vma_before 0x100 0x401000 0x1000 uvm_example = Inr 0x200 \<and> find_vma_before 0x100 0x401000 0x2000 uvm_example = Inr NULL"
  using find_vma_before_correct [OF uvm_example_areas, of "0x401000" "0x1000"] find_vma_before_correct [OF uvm_example_areas, of "0x401000" "0x2000"]
  by (simp add: uvm_example_def vmem.defs uvm.defs)

end
