(* ===== verification/Decode.thy ===== *)
theory Decode
  imports Util
begin

unbundle bit_operations_syntax

text \<open>
  Instruction words, \<^verbatim>\<open>src/include/arch/mips/decode.h\<close>: the macros that take out the fields, and the
  tables of operation codes. A table is a datatype with the names of the header and a function
  that gives their values.
\<close>

section \<open>Fields\<close>

named_theorems field_defs

definition OPCODE :: "u32 \<Rightarrow> u32" where [field_defs]: "OPCODE insn = drop_bit 26 insn AND 0x3f"

definition R_RS :: "u32 \<Rightarrow> u32" where [field_defs]: "R_RS insn = drop_bit 21 insn AND 0x1f"
definition R_RT :: "u32 \<Rightarrow> u32" where [field_defs]: "R_RT insn = drop_bit 16 insn AND 0x1f"
definition R_RD :: "u32 \<Rightarrow> u32" where [field_defs]: "R_RD insn = drop_bit 11 insn AND 0x1f"
definition R_SHIFT :: "u32 \<Rightarrow> u32" where [field_defs]: "R_SHIFT insn = drop_bit 6 insn AND 0x1f"
definition R_FUNC :: "u32 \<Rightarrow> u32" where [field_defs]: "R_FUNC insn = insn AND 0x3f"
definition R_CODE :: "u32 \<Rightarrow> u32" where [field_defs]: "R_CODE insn = drop_bit 6 insn AND 0xfffff"
definition R_SUBOP :: "u32 \<Rightarrow> u32" where [field_defs]: "R_SUBOP insn = R_RS insn"
definition R_OPERAND :: "u32 \<Rightarrow> u32" where [field_defs]: "R_OPERAND insn = R_FUNC insn"
definition SF_ROT :: "u32 \<Rightarrow> u32" where [field_defs]: "SF_ROT insn = R_RS insn"
definition SV_ROT :: "u32 \<Rightarrow> u32" where [field_defs]: "SV_ROT insn = R_SHIFT insn"

definition I_RS :: "u32 \<Rightarrow> u32" where [field_defs]: "I_RS insn = drop_bit 21 insn AND 0x1f"
definition I_RT :: "u32 \<Rightarrow> u32" where [field_defs]: "I_RT insn = drop_bit 16 insn AND 0x1f"
definition I_IMMEDIATE :: "u32 \<Rightarrow> u32" where [field_defs]: "I_IMMEDIATE insn = insn AND 0xffff"
definition I_OFFSET :: "u32 \<Rightarrow> u16" where [field_defs]: "I_OFFSET insn = ucast (I_IMMEDIATE insn)"
definition I_IOFFSET :: "u32 \<Rightarrow> u32" where [field_defs]: "I_IOFFSET insn = push_bit 2 (scast (I_OFFSET insn))"
definition I_FUNC :: "u32 \<Rightarrow> u32" where [field_defs]: "I_FUNC insn = I_RT insn"

definition J_INDEX_BITS :: nat where [field_defs]: "J_INDEX_BITS = 26"
definition J_INDEX_MASK :: u32 where [field_defs]: "J_INDEX_MASK = push_bit J_INDEX_BITS 1 - 1"
definition J_ACTUAL_INDEX_BITS :: nat where [field_defs]: "J_ACTUAL_INDEX_BITS = J_INDEX_BITS + 2"
definition J_ACTUAL_INDEX_MASK :: u32 where [field_defs]: "J_ACTUAL_INDEX_MASK = push_bit J_ACTUAL_INDEX_BITS 1 - 1"
definition J_INDEX_PARAM :: "u32 \<Rightarrow> u32" where [field_defs]: "J_INDEX_PARAM insn = insn AND J_INDEX_MASK"
definition J_INDEX :: "u32 \<Rightarrow> u32" where [field_defs]: "J_INDEX insn = push_bit 2 (insn AND J_INDEX_MASK)"

section \<open>Tables\<close>

text \<open>
  The values of the opcode field and, for the opcodes that have one, of the function field. The
  constants that the kernel itself uses come after the tables.
\<close>

definition opcodes :: "(string \<times> u32) list" where
  "opcodes = [
     (''OP_SPECIAL'', 0x00), (''OP_REGIMM'', 0x01), (''OP_J'', 0x02), (''OP_JAL'', 0x03), (''OP_BEQ'', 0x04),
     (''OP_BNE'', 0x05), (''OP_BLEZ'', 0x06), (''OP_BGTZ'', 0x07), (''OP_ADDI'', 0x08), (''OP_ADDIU'', 0x09),
     (''OP_SLTI'', 0x0a), (''OP_SLTIU'', 0x0b), (''OP_ANDI'', 0x0c), (''OP_ORI'', 0x0d), (''OP_XORI'', 0x0e),
     (''OP_LUI'', 0x0f), (''OP_COP0'', 0x10), (''OP_BEQL'', 0x14), (''OP_BNEL'', 0x15), (''OP_BLEZL'', 0x16),
     (''OP_BGTZL'', 0x17), (''OP_DADDI'', 0x18), (''OP_DADDIU'', 0x19), (''OP_LDL'', 0x1a), (''OP_LDR'', 0x1b),
     (''OP_SPECIAL2'', 0x1c), (''OP_SPECIAL3'', 0x1f), (''OP_LB'', 0x20), (''OP_LH'', 0x21), (''OP_LWL'', 0x22),
     (''OP_LW'', 0x23), (''OP_LBU'', 0x24), (''OP_LHU'', 0x25), (''OP_LWR'', 0x26), (''OP_LWU'', 0x27),
     (''OP_SB'', 0x28), (''OP_SH'', 0x29), (''OP_SWL'', 0x2a), (''OP_SW'', 0x2b), (''OP_SDL'', 0x2c),
     (''OP_SDR'', 0x2d), (''OP_SWR'', 0x2e), (''OP_CACHE'', 0x2f), (''OP_LL'', 0x30), (''OP_LLD'', 0x34),
     (''OP_LD'', 0x37), (''OP_SC'', 0x38), (''OP_SCD'', 0x3c), (''OP_SD'', 0x3f)]"

definition special_functions :: "(string \<times> u32) list" where
  "special_functions = [
     (''FN_SLL'', 0x00), (''FN_SRL'', 0x02), (''FN_SRA'', 0x03), (''FN_SLLV'', 0x04), (''FN_SRLV'', 0x06),
     (''FN_SRAV'', 0x07), (''FN_JR'', 0x08), (''FN_JALR'', 0x09), (''FN_MOVZ'', 0x0a), (''FN_MOVN'', 0x0b),
     (''FN_SYSCALL'', 0x0c), (''FN_BREAK'', 0x0d), (''FN_SYNC'', 0x0f), (''FN_MFHI'', 0x10), (''FN_MTHI'', 0x11),
     (''FN_MFLO'', 0x12), (''FN_MTLO'', 0x13), (''FN_DSLLV'', 0x14), (''FN_DSRLV'', 0x16), (''FN_DSRAV'', 0x17),
     (''FN_MULT'', 0x18), (''FN_MULTU'', 0x19), (''FN_DIV'', 0x1a), (''FN_DIVU'', 0x1b), (''FN_DMULT'', 0x1c),
     (''FN_DMULTU'', 0x1d), (''FN_DDIV'', 0x1e), (''FN_DDIVU'', 0x1f), (''FN_ADD'', 0x20), (''FN_ADDU'', 0x21),
     (''FN_SUB'', 0x22), (''FN_SUBU'', 0x23), (''FN_AND'', 0x24), (''FN_OR'', 0x25), (''FN_XOR'', 0x26),
     (''FN_NOR'', 0x27), (''FN_SLT'', 0x2a), (''FN_SLTU'', 0x2b), (''FN_DADD'', 0x2c), (''FN_DADDU'', 0x2d),
     (''FN_DSUB'', 0x2e), (''FN_DSUBU'', 0x2f), (''FN_TGE'', 0x30), (''FN_TGEU'', 0x31), (''FN_TLT'', 0x32),
     (''FN_TLTU'', 0x33), (''FN_TEQ'', 0x34), (''FN_TNE'', 0x36), (''FN_DSLL'', 0x38), (''FN_DSRL'', 0x3a),
     (''FN_DSRA'', 0x3b), (''FN_DSLL32'', 0x3c), (''FN_DSRL32'', 0x3e), (''FN_DSRA32'', 0x3f)]"

definition regimm_functions :: "(string \<times> u32) list" where
  "regimm_functions = [
     (''FN_BLTZ'', 0x00), (''FN_BGEZ'', 0x01), (''FN_BLTZL'', 0x02), (''FN_BGEZL'', 0x03), (''FN_TGEI'', 0x08),
     (''FN_TGEIU'', 0x09), (''FN_TLTI'', 0x0a), (''FN_TLTIU'', 0x0b), (''FN_TEQI'', 0x0c), (''FN_TNEI'', 0x0e),
     (''FN_BLTZAL'', 0x10), (''FN_BGEZAL'', 0x11), (''FN_BLTZALL'', 0x12), (''FN_BGEZALL'', 0x13),
     (''FN_SYNCI'', 0x1f)]"

definition cop0_operations :: "(string \<times> u32) list" where
  "cop0_operations = [
     (''SO_MF'', 0x00), (''SO_DMF'', 0x01), (''SO_MT'', 0x04), (''SO_DMT'', 0x05), (''SO_MFMC0'', 0x0b),
     (''SO_CO'', 0x10)]"

definition cop0_functions :: "(string \<times> u32) list" where
  "cop0_functions = [
     (''FN_TLBR'', 0x01), (''FN_TLBWI'', 0x02), (''FN_TLBWR'', 0x06), (''FN_TLBP'', 0x08), (''FN_ERET'', 0x18),
     (''FN_WAIT'', 0x20)]"

definition special2_functions :: "(string \<times> u32) list" where
  "special2_functions = [
     (''FN_MADD'', 0x00), (''FN_MADDU'', 0x01), (''FN_MUL'', 0x02), (''FN_MSUB'', 0x04), (''FN_MSUBU'', 0x05),
     (''FN_CLZ'', 0x20), (''FN_CLO'', 0x21), (''FN_DCLZ'', 0x24), (''FN_DCLO'', 0x25)]"

definition special3_functions :: "(string \<times> u32) list" where
  "special3_functions = [
     (''FN_EXT'', 0x00), (''FN_DEXTM'', 0x01), (''FN_DEXTU'', 0x02), (''FN_DEXT'', 0x03), (''FN_INS'', 0x04),
     (''FN_DINSM'', 0x05), (''FN_DINSU'', 0x06), (''FN_DINS'', 0x07), (''FN_BSHFL'', 0x20), (''FN_DBSHFL'', 0x24),
     (''FN_RDHWR'', 0x3b)]"

definition bshfl_operations :: "(string \<times> u32) list" where
  "bshfl_operations = [
     (''SO_WSBH'', 0x02), (''SO_SEB'', 0x10), (''SO_SEH'', 0x18)]"

definition dbshfl_operations :: "(string \<times> u32) list" where
  "dbshfl_operations = [
     (''SO_DSBH'', 0x02), (''SO_DSHD'', 0x05)]"

named_theorems op_defs

definition OP_SPECIAL :: u32 where [op_defs]: "OP_SPECIAL = 0x00"
definition OP_REGIMM :: u32 where [op_defs]: "OP_REGIMM = 0x01"
definition OP_J :: u32 where [op_defs]: "OP_J = 0x02"
definition OP_JAL :: u32 where [op_defs]: "OP_JAL = 0x03"
definition OP_BEQ :: u32 where [op_defs]: "OP_BEQ = 0x04"
definition OP_BNE :: u32 where [op_defs]: "OP_BNE = 0x05"
definition OP_BLEZ :: u32 where [op_defs]: "OP_BLEZ = 0x06"
definition OP_BGTZ :: u32 where [op_defs]: "OP_BGTZ = 0x07"
definition OP_BEQL :: u32 where [op_defs]: "OP_BEQL = 0x14"
definition OP_BNEL :: u32 where [op_defs]: "OP_BNEL = 0x15"
definition OP_BLEZL :: u32 where [op_defs]: "OP_BLEZL = 0x16"
definition OP_BGTZL :: u32 where [op_defs]: "OP_BGTZL = 0x17"
definition FN_JR :: u32 where [op_defs]: "FN_JR = 0x08"
definition FN_JALR :: u32 where [op_defs]: "FN_JALR = 0x09"
definition FN_BLTZ :: u32 where [op_defs]: "FN_BLTZ = 0x00"
definition FN_BGEZ :: u32 where [op_defs]: "FN_BGEZ = 0x01"
definition FN_BLTZL :: u32 where [op_defs]: "FN_BLTZL = 0x02"
definition FN_BGEZL :: u32 where [op_defs]: "FN_BGEZL = 0x03"
definition FN_BLTZAL :: u32 where [op_defs]: "FN_BLTZAL = 0x10"
definition FN_BGEZAL :: u32 where [op_defs]: "FN_BGEZAL = 0x11"
definition FN_BLTZALL :: u32 where [op_defs]: "FN_BLTZALL = 0x12"
definition FN_BGEZALL :: u32 where [op_defs]: "FN_BGEZALL = 0x13"

text \<open>
  A table can be used in a \<^verbatim>\<open>switch\<close>: no two of its names have the same value, and every value fits
  into its field.
\<close>

definition table_ok :: "nat \<Rightarrow> (string \<times> u32) list \<Rightarrow> bool" where
  "table_ok width t \<longleftrightarrow> distinct (map snd t) \<and> list_all (\<lambda>e. unat (snd e) < 2 ^ width) t"

lemma tables_ok:
  "table_ok 6 opcodes" "table_ok 6 special_functions" "table_ok 5 regimm_functions" "table_ok 5 cop0_operations"
  "table_ok 6 cop0_functions" "table_ok 6 special2_functions" "table_ok 6 special3_functions"
  "table_ok 5 bshfl_operations" "table_ok 5 dbshfl_operations"
  by (simp_all add: table_ok_def opcodes_def special_functions_def regimm_functions_def cop0_operations_def cop0_functions_def
      special2_functions_def special3_functions_def bshfl_operations_def dbshfl_operations_def)

section \<open>Ranges\<close>

lemma field_masks: "0x1f = (mask 5 :: u32)" "0x3f = (mask 6 :: u32)"
  by (simp_all add: mask_eq_exp_minus_1)

lemma field_ranges:
  "unat (OPCODE insn) < 64" "unat (R_RS insn) < 32" "unat (R_RT insn) < 32" "unat (R_RD insn) < 32" "unat (R_SHIFT insn) < 32"
  "unat (R_FUNC insn) < 64" "unat (I_RS insn) < 32" "unat (I_RT insn) < 32"
  unfolding field_defs field_masks by (simp_all only: unat_and_mask) simp_all

end
