(* ===== verification/Sync.thy ===== *)
theory Sync
  imports Prelude
begin

text \<open>
  The locks of \<^verbatim>\<open>src/include/aim/sync.h\<close> and \<^verbatim>\<open>src/include/arch/mips/arch-sync.h\<close>: the ticket spin lock on
  its 32-bit word, the recursive lock and the semaphore. The spin lock and the semaphore are also
  step relations in which several processors run at once; the properties are mutual exclusion and
  bounded waiting of the ticket lock, the nesting of the recursive lock and the bounds of the
  semaphore.
\<close>

unbundle bit_operations_syntax

section \<open>Ticket locks\<close>

type_synonym lock_t = u32

definition lock_head :: "lock_t \<Rightarrow> u16" where "lock_head lk = ucast lk"
definition lock_tail :: "lock_t \<Rightarrow> u16" where "lock_tail lk = ucast (drop_bit 16 lk)"

definition set_head :: "u16 \<Rightarrow> lock_t \<Rightarrow> lock_t" where
  "set_head h lk = (lk AND 0xffff0000) OR ucast h"

definition spinlock_init :: lock_t where "spinlock_init = 0"

definition take_ticket :: "lock_t \<Rightarrow> lock_t" where
  "take_ticket lk = lk + 0x10000"

definition spin_is_locked :: "lock_t \<Rightarrow> bool" where
  "spin_is_locked lk \<longleftrightarrow> lk \<noteq> 0"

text \<open>
  \<open>spin_lock\<close> and \<open>spin_unlock\<close> as a processor that runs alone sees them: taking a lock that is held
  never returns.
\<close>

definition spin_lock :: "lock_t \<Rightarrow> lock_t res" where
  "spin_lock lk = (if lock_head lk = lock_tail lk then Inr (take_ticket lk) else Inl NoReturn)"

definition spin_unlock :: "lock_t \<Rightarrow> lock_t" where
  "spin_unlock lk = set_head (lock_head lk + 1) lk"

text \<open>
  The interleaved execution of processors that lock and unlock. A processor is outside (\<open>Out\<close>),
  spins on its ticket (\<open>Spin\<close>), holds the lock (\<open>In\<close>), or is about to store the new head
  (\<open>Leave\<close>). The \<^verbatim>\<open>ll\<close>/\<^verbatim>\<open>sc\<close> pair is one step, since a failed \<^verbatim>\<open>sc\<close> is tried again.
\<close>

datatype cpu_pc = Out | Spin u16 | In | Leave u16

record ticket_state =
  tl_lock :: lock_t
  tl_pc :: "nat \<Rightarrow> cpu_pc"

inductive ticket_step :: "nat \<Rightarrow> ticket_state \<Rightarrow> bool \<Rightarrow> ticket_state \<Rightarrow> bool" for n where
  take: "i < n \<Longrightarrow> tl_pc s i = Out \<Longrightarrow>
    ticket_step n s False (s\<lparr>tl_lock := take_ticket (tl_lock s), tl_pc := (tl_pc s)(i :=
      if lock_head (tl_lock s) = lock_tail (tl_lock s) then In else Spin (lock_tail (tl_lock s)))\<rparr>)"
| poll: "tl_pc s i = Spin t \<Longrightarrow> lock_head (tl_lock s) = t \<Longrightarrow> ticket_step n s False (s\<lparr>tl_pc := (tl_pc s)(i := In)\<rparr>)"
| read_head: "tl_pc s i = In \<Longrightarrow> ticket_step n s False (s\<lparr>tl_pc := (tl_pc s)(i := Leave (lock_head (tl_lock s) + 1))\<rparr>)"
| write_head: "tl_pc s i = Leave h \<Longrightarrow>
    ticket_step n s True (s\<lparr>tl_lock := set_head h (tl_lock s), tl_pc := (tl_pc s)(i := Out)\<rparr>)"

definition ticket_init :: ticket_state where
  "ticket_init = \<lparr>tl_lock = spinlock_init, tl_pc = (\<lambda>_. Out)\<rparr>"

inductive ticket_reach :: "nat \<Rightarrow> ticket_state \<Rightarrow> bool" for n where
  init: "ticket_reach n ticket_init"
| step: "ticket_reach n s \<Longrightarrow> ticket_step n s b s' \<Longrightarrow> ticket_reach n s'"

section \<open>Recursive locks\<close>

record rlock_t =
  rl_lock :: lock_t
  rl_holder :: int
  rl_depth :: int

definition INT_MAX :: int where "INT_MAX = 0x7fffffff"

definition EMPTY_RLOCK :: rlock_t where
  "EMPTY_RLOCK = \<lparr>rl_lock = 0, rl_holder = - 1, rl_depth = 0\<rparr>"

definition recursive_lock :: "int \<Rightarrow> rlock_t \<Rightarrow> rlock_t res" where
  "recursive_lock cpuid lk =
     and_then (if rl_holder lk \<noteq> cpuid
               then and_then (spin_lock (rl_lock lk)) (\<lambda>l. Inr (lk\<lparr>rl_lock := l, rl_holder := cpuid\<rparr>))
               else Inr lk) (\<lambda>lk. if rl_depth lk = INT_MAX then Inl Fault else Inr (lk\<lparr>rl_depth := rl_depth lk + 1\<rparr>))"

definition recursive_unlock :: "int \<Rightarrow> rlock_t \<Rightarrow> rlock_t res" where
  "recursive_unlock cpuid lk =
     (if cpuid \<noteq> rl_holder lk then Inl Panic
      else if \<not> rl_depth lk > 0 then Inl Panic
      else let lk = lk\<lparr>rl_depth := rl_depth lk - 1\<rparr> in
        if rl_depth lk = 0 then Inr (lk\<lparr>rl_holder := - 1, rl_lock := spin_unlock (rl_lock lk)\<rparr>) else Inr lk)"

section \<open>Semaphores\<close>

text \<open>
  Interleaved calls of \<open>semaphore_dec\<close> and \<open>semaphore_inc\<close> on one semaphore, with its ticket lock. A
  processor polls the value in the inner loop (\<open>Wait\<close>), is in \<open>spin_lock\<close> (\<open>Lock\<close>), tests the value again
  (\<open>Test\<close>), loads it into a register (\<open>Load\<close>), stores the changed register (\<open>Store\<close>), and is in \<open>spin_unlock\<close>
  (\<open>Unlock\<close>), to return or to go round again. Each access to the value is a step of its own, and what
  keeps two processors from mixing theirs is only the lock.
\<close>

datatype sem_op = Dec | Inc
datatype sem_pc = Idle | Wait sem_op | Lock sem_op | Test sem_op | Load sem_op | Store sem_op int | Unlock sem_op bool

record semaphore =
  sm_lock :: ticket_state
  sm_val :: int
  sm_limit :: int
  sm_pc :: "nat \<Rightarrow> sem_pc"

definition semaphore_init :: "int \<Rightarrow> semaphore" where
  "semaphore_init val = \<lparr>sm_lock = ticket_init, sm_val = val, sm_limit = val, sm_pc = (\<lambda>_. Idle)\<rparr>"

definition sem_ready :: "sem_op \<Rightarrow> semaphore \<Rightarrow> bool" where
  "sem_ready op s \<longleftrightarrow> (case op of Dec \<Rightarrow> sm_val s > 0 | Inc \<Rightarrow> sm_val s < sm_limit s)"

definition sem_change :: "sem_op \<Rightarrow> int" where
  "sem_change op = (case op of Dec \<Rightarrow> - 1 | Inc \<Rightarrow> 1)"

text \<open>
  A step of the lock by one processor is one that moves this processor. The number of a step of
  the semaphore is what the step adds to the value.
\<close>

definition lock_step :: "nat \<Rightarrow> nat \<Rightarrow> ticket_state \<Rightarrow> ticket_state \<Rightarrow> bool" where
  "lock_step n i l l' \<longleftrightarrow> (\<exists>b. ticket_step n l b l') \<and> tl_pc l' i \<noteq> tl_pc l i"

inductive sem_step :: "nat \<Rightarrow> semaphore \<Rightarrow> int \<Rightarrow> semaphore \<Rightarrow> bool" for n where
  call: "sm_pc s i = Idle \<Longrightarrow> sem_step n s 0 (s\<lparr>sm_pc := (sm_pc s)(i := Wait op)\<rparr>)"
| seen: "sm_pc s i = Wait op \<Longrightarrow> sem_ready op s \<Longrightarrow> sem_step n s 0 (s\<lparr>sm_pc := (sm_pc s)(i := Lock op)\<rparr>)"
| lock: "sm_pc s i = Lock op \<Longrightarrow> lock_step n i (sm_lock s) l \<Longrightarrow>
    sem_step n s 0 (s\<lparr>sm_lock := l, sm_pc := (sm_pc s)(i := if tl_pc l i = In then Test op else Lock op)\<rparr>)"
| test: "sm_pc s i = Test op \<Longrightarrow>
    sem_step n s 0 (s\<lparr>sm_pc := (sm_pc s)(i := if sem_ready op s then Load op else Unlock op False)\<rparr>)"
| load: "sm_pc s i = Load op \<Longrightarrow> sem_step n s 0 (s\<lparr>sm_pc := (sm_pc s)(i := Store op (sm_val s))\<rparr>)"
| store: "sm_pc s i = Store op w \<Longrightarrow>
    sem_step n s (sem_change op) (s\<lparr>sm_val := w + sem_change op, sm_pc := (sm_pc s)(i := Unlock op True)\<rparr>)"
| unlock: "sm_pc s i = Unlock op fin \<Longrightarrow> lock_step n i (sm_lock s) l \<Longrightarrow>
    sem_step n s 0 (s\<lparr>sm_lock := l, sm_pc := (sm_pc s)(i := if tl_pc l i \<noteq> Out then Unlock op fin else if fin then Idle else Wait op)\<rparr>)"

inductive sem_reach :: "nat \<Rightarrow> int \<Rightarrow> int \<Rightarrow> semaphore \<Rightarrow> bool" for n v where
  init: "sem_reach n v 0 (semaphore_init v)"
| step: "sem_reach n v t s \<Longrightarrow> sem_step n s d s' \<Longrightarrow> sem_reach n v (t + d) s'"

section \<open>The halves of the lock word\<close>

lemma lock_tail_take: "lock_tail (take_ticket lk) = lock_tail lk + 1" "lock_head (take_ticket lk) = lock_head lk"
proof -
  have u: "unat (lk + 0x10000) = (unat lk + 0x10000) mod 2 ^ 32" by (simp add: unat_word_ariths)
  show "lock_head (take_ticket lk) = lock_head lk"
    by (simp add: lock_head_def take_ticket_def word_unat_eq_iff unsigned_ucast_eq u take_bit_eq_mod unat_mod mod_mod_cancel)
  have "(m + 65536) mod (65536 * 65536) div 65536 = (m div 65536 + 1) mod 65536" for m :: nat
    unfolding mod_mult2_eq using div_add_self2 [of 65536 m] by simp
  then have d: "(m + 65536) mod 4294967296 div 65536 = Suc (m div 65536 mod 65536) mod 65536" for m :: nat by (simp add: mod_Suc_eq)
  show "lock_tail (take_ticket lk) = lock_tail lk + 1"
    by (simp add: d lock_tail_def take_ticket_def word_unat_eq_iff unsigned_ucast_eq u take_bit_eq_mod drop_bit_eq_div unat_div unat_mod unat_word_ariths) 
qed

lemma lock_set_head: "lock_head (set_head h lk) = h" "lock_tail (set_head h lk) = lock_tail lk"
proof -
  have m: "(0xffff0000 :: u32) = push_bit 16 (mask 16)" by (simp add: mask_eq_exp_minus_1)
  show "lock_head (set_head h lk) = h" unfolding lock_head_def set_head_def m
    by (rule bit_word_eqI) (auto simp: bit_or_iff bit_and_iff bit_ucast_iff bit_push_bit_iff bit_mask_iff)
  show "lock_tail (set_head h lk) = lock_tail lk" unfolding lock_tail_def set_head_def m
    by (rule bit_word_eqI) (auto simp: bit_or_iff bit_and_iff bit_ucast_iff bit_push_bit_iff bit_mask_iff bit_drop_bit_eq dest: bit_imp_le_length)
qed

section \<open>The queue behind the tickets\<close>

text \<open>
  The processors in the order of their tickets. The first may hold the lock, the others spin on
  the tickets that follow the head.
\<close>

definition ticket_queue :: "nat \<Rightarrow> ticket_state \<Rightarrow> nat list \<Rightarrow> bool" where
  "ticket_queue n s q \<longleftrightarrow> distinct q \<and> set q \<subseteq> {..<n} \<and>
     lock_tail (tl_lock s) = lock_head (tl_lock s) + of_nat (length q) \<and>
     (\<forall>i. i \<notin> set q \<longrightarrow> tl_pc s i = Out) \<and>
     (\<forall>k<length q. tl_pc s (q ! k) = Spin (lock_head (tl_lock s) + of_nat k) \<or>
        k = 0 \<and> (tl_pc s (q ! 0) = In \<or> tl_pc s (q ! 0) = Leave (lock_head (tl_lock s) + 1)))"

lemma ticket_queue_length: "ticket_queue n s q \<Longrightarrow> length q \<le> n"
  by (metis ticket_queue_def card_lessThan card_mono distinct_card finite_lessThan)

lemma of_nat_u16: "k < 65536 \<Longrightarrow> l < 65536 \<Longrightarrow> (of_nat k :: u16) = of_nat l \<longleftrightarrow> k = l"
  by (simp add: word_unat_eq_iff unat_of_nat take_bit_nat_eq_self)

text \<open>Only the first of the queue is inside, and only it spins on the head.\<close>

lemma ticket_queue_first:
  assumes q: "ticket_queue n s q" and n: "n < 65536"
    and i: "tl_pc s i = In \<or> tl_pc s i = Leave h \<or> tl_pc s i = Spin (lock_head (tl_lock s))"
  obtains q' where "q = i # q'"
proof -
  have "i \<in> set q" using q i by (auto simp: ticket_queue_def)
  then obtain k where k: "k < length q" "q ! k = i" by (auto simp: in_set_conv_nth)
  have "k = 0"
  proof (rule ccontr)
    assume "k \<noteq> 0"
    then have "tl_pc s i = Spin (lock_head (tl_lock s) + of_nat k)" using q k by (auto simp: ticket_queue_def)
    then have "(of_nat k :: u16) = of_nat 0" using i by auto
    then show False using \<open>k \<noteq> 0\<close> k(1) ticket_queue_length [OF q] n of_nat_u16 [of k 0] by simp
  qed
  with k that show ?thesis by (cases q) auto
qed

lemma ticket_queue_step:
  assumes "ticket_step n s b s'" and q: "ticket_queue n s q" and n: "n < 65536"
  shows "\<exists>q'. ticket_queue n s' q' \<and> (if b then q' = tl q else \<exists>r. q' = q @ r)"
  using assms(1)
proof cases
  case (take i)
  have len: "length q < 65536" using ticket_queue_length [OF q] n by simp
  have new: "i \<notin> set q" using q take(4) by (auto simp: ticket_queue_def in_set_conv_nth)
  have eq: "lock_head (tl_lock s) = lock_tail (tl_lock s) \<longleftrightarrow> q = []"
    using q of_nat_u16 [of "length q" 0] len by (auto simp: ticket_queue_def)
  have "ticket_queue n s' (q @ [i])"
    using q new take(3) eq unfolding take(2) ticket_queue_def
    by (auto simp: lock_tail_take nth_append less_Suc_eq add.assoc dest: nth_mem)
  then show ?thesis using take(1) by auto
next
  case (poll i t)
  then obtain q' where q': "q = i # q'" using ticket_queue_first [OF q n, of i] by auto
  then have "ticket_queue n s' q" using q poll by (auto simp: ticket_queue_def nth_Cons split: nat.splits)
  then show ?thesis using poll by auto
next
  case (read_head i)
  then obtain q' where q': "q = i # q'" using ticket_queue_first [OF q n, of i] by auto
  then have "ticket_queue n s' q" using q read_head by (auto simp: ticket_queue_def nth_Cons split: nat.splits)
  then show ?thesis using read_head by auto
next
  case (write_head i h)
  then obtain q' where q': "q = i # q'" using ticket_queue_first [OF q n, of i] by auto
  have k: "tl_pc s (q' ! k) = Spin (lock_head (tl_lock s) + 1 + of_nat k)" if "k < length q'" for k
    using q that unfolding ticket_queue_def q' by (auto simp: add.assoc dest!: spec [of _ "Suc k"])
  have h: "h = lock_head (tl_lock s) + 1" using q write_head(3) unfolding ticket_queue_def q' by (auto dest!: spec [of _ 0])
  have "ticket_queue n s' q'" using q k h unfolding write_head(2) ticket_queue_def q'
    by (auto simp: lock_set_head ac_simps dest: nth_mem)
  then show ?thesis using write_head(1) q' by auto
qed

lemma ticket_reach_queue: "ticket_reach n s \<Longrightarrow> n < 65536 \<Longrightarrow> \<exists>q. ticket_queue n s q"
proof (induction rule: ticket_reach.induct)
  case init
  have "ticket_queue n ticket_init []"
    by (simp add: ticket_queue_def ticket_init_def spinlock_init_def lock_tail_def lock_head_def)
  then show ?case by blast
next
  case (step s b s')
  then show ?case using ticket_queue_step by blast
qed

text \<open>The processors ahead of one that waits.\<close>

definition ticket_place :: "ticket_state \<Rightarrow> nat \<Rightarrow> nat" where
  "ticket_place s i = (case tl_pc s i of Spin t \<Rightarrow> unat (t - lock_head (tl_lock s)) | _ \<Rightarrow> 0)"

lemma ticket_place_queue:
  assumes q: "ticket_queue n s q" and n: "n < 65536" and i: "tl_pc s i = Spin t"
  shows "ticket_place s i < length q \<and> q ! ticket_place s i = i"
proof -
  have "i \<in> set q" using q i by (auto simp: ticket_queue_def)
  then obtain k where k: "k < length q" "q ! k = i" by (auto simp: in_set_conv_nth)
  then have "tl_pc s i = Spin (lock_head (tl_lock s) + of_nat k)" using q i by (auto simp: ticket_queue_def)
  moreover have "unat (of_nat k :: u16) = k" using k(1) ticket_queue_length [OF q] n by (simp add: unat_of_nat take_bit_nat_eq_self)
  ultimately show ?thesis using k i by (simp add: ticket_place_def)
qed

text \<open>A run during which a processor keeps spinning; the number is that of the unlocks in it.\<close>

inductive waiting_run :: "nat \<Rightarrow> nat \<Rightarrow> ticket_state \<Rightarrow> nat \<Rightarrow> ticket_state \<Rightarrow> bool" for n i where
  start: "tl_pc s i = Spin t \<Longrightarrow> waiting_run n i s 0 s"
| step: "waiting_run n i s k s' \<Longrightarrow> ticket_step n s' b s'' \<Longrightarrow> tl_pc s'' i = Spin t \<Longrightarrow>
    waiting_run n i s (if b then Suc k else k) s''"

lemma ticket_place_step:
  assumes st: "ticket_step n s b s'" and q: "ticket_queue n s q" and n: "n < 65536"
    and i: "tl_pc s i = Spin t" "tl_pc s' i = Spin t'"
  shows "ticket_place s i = (if b then Suc (ticket_place s' i) else ticket_place s' i)"
proof -
  obtain q' where q': "ticket_queue n s' q'" "if b then q' = tl q else \<exists>r. q' = q @ r" using ticket_queue_step [OF st q n] by blast
  note p = ticket_place_queue [OF q n i(1)] and p' = ticket_place_queue [OF q'(1) n i(2)]
  have d: "distinct q" "distinct q'" using q q'(1) by (auto simp: ticket_queue_def)
  show ?thesis
  proof (cases b)
    case True
    then have "q ! Suc (ticket_place s' i) = i" "Suc (ticket_place s' i) < length q" using p' q'(2) by (auto simp: nth_tl)
    then show ?thesis using p d(1) True by (metis nth_eq_iff_index_eq)
  next
    case False
    then obtain r where r: "q' = q @ r" using q'(2) by auto
    then have "q' ! ticket_place s i = i" "ticket_place s i < length q'" using p by (auto simp: nth_append)
    then show ?thesis using p' d(2) False by (metis nth_eq_iff_index_eq)
  qed
qed

lemma waiting_run_place:
  assumes "waiting_run n i s k s'" "ticket_reach n s" "n < 65536"
  shows "ticket_reach n s' \<and> (\<exists>t. tl_pc s' i = Spin t) \<and> k + ticket_place s' i = ticket_place s i"
  using assms
proof (induction rule: waiting_run.induct)
  case (step s k s' b s'' t)
  then obtain t' where IH: "ticket_reach n s'" "tl_pc s' i = Spin t'" "k + ticket_place s' i = ticket_place s i" by blast
  obtain q where "ticket_queue n s' q" using ticket_reach_queue IH(1) step.prems(2) by blast
  from ticket_place_step [OF step.hyps(2) this step.prems(2) IH(2) step.hyps(3)] IH(3)
  show ?case using step.hyps(2,3) IH(1) ticket_reach.step by (cases b) auto
qed auto

section \<open>Properties of the ticket lock\<close>

text \<open>
  C9. Mutual exclusion. However the processors interleave, with fewer than 65536 of them, at most
  one is between the end of \<open>spin_lock\<close> and the last store of \<open>spin_unlock\<close>.
\<close>

theorem ticket_mutex:
  assumes "ticket_reach n s" "n < 65536" "tl_pc s i = In \<or> tl_pc s i = Leave h" "tl_pc s j = In \<or> tl_pc s j = Leave h'"
  shows "i = j"
proof -
  obtain q where q: "ticket_queue n s q" using ticket_reach_queue assms(1,2) by blast
  obtain q1 where "q = i # q1" using ticket_queue_first [OF q assms(2), of i] assms(3) by blast
  moreover obtain q2 where "q = j # q2" using ticket_queue_first [OF q assms(2), of j] assms(4) by blast
  ultimately show ?thesis by simp
qed

text \<open>
  C11. Fairness. The lock is handed on in the order of the tickets: while a processor spins, the
  others unlock at most as often as there were processors ahead of it, which is less than their
  number; and as long as it spins there is a processor that holds the lock or whose next look at
  the head lets it in. So no processor waits for ever while the others unlock.
\<close>

theorem ticket_fair:
  assumes "ticket_reach n s" "n < 65536" "waiting_run n i s k s'"
  shows "k + ticket_place s' i = ticket_place s i \<and> ticket_place s i < n \<and>
    (\<exists>j. tl_pc s' j = In \<or> (\<exists>h. tl_pc s' j = Leave h) \<or> tl_pc s' j = Spin (lock_head (tl_lock s')))"
proof -
  obtain t where r: "ticket_reach n s'" "tl_pc s' i = Spin t" "k + ticket_place s' i = ticket_place s i"
    using waiting_run_place [OF assms(3,1,2)] by blast
  obtain q where q: "ticket_queue n s' q" using ticket_reach_queue r(1) assms(2) by blast
  have "q \<noteq> []" using ticket_place_queue [OF q assms(2) r(2)] by auto
  then have "tl_pc s' (q ! 0) = In \<or> (\<exists>h. tl_pc s' (q ! 0) = Leave h) \<or> tl_pc s' (q ! 0) = Spin (lock_head (tl_lock s'))"
    using q by (auto simp: ticket_queue_def dest!: spec [of _ 0])
  moreover obtain t0 where "tl_pc s i = Spin t0" using assms(3) by (induction rule: waiting_run.induct) auto
  then have "ticket_place s i < n"
    using ticket_reach_queue [OF assms(1,2)] ticket_place_queue ticket_queue_length assms(2) by (metis less_le_trans)
  ultimately show ?thesis using r(3) by blast
qed

text \<open>Two processors: the first takes the lock, the second waits, the first unlocks.\<close>

definition ticket_held :: ticket_state where
  "ticket_held = \<lparr>tl_lock = 0x20000, tl_pc = (\<lambda>_. Out)(0 := In, 1 := Spin 1)\<rparr>"

definition ticket_passed :: ticket_state where
  "ticket_passed = \<lparr>tl_lock = 0x20001, tl_pc = (\<lambda>_. Out)(1 := Spin 1)\<rparr>"

lemma ticket_held_reach: "ticket_reach 2 ticket_held"
proof -
  let ?s1 = "\<lparr>tl_lock = 0x10000, tl_pc = (\<lambda>_. Out)(0 := In)\<rparr>"
  have "ticket_step 2 ticket_init False ?s1"
    using ticket_step.take [of 0 2 ticket_init] by (simp add: ticket_init_def spinlock_init_def lock_head_def lock_tail_def take_ticket_def)
  then have "ticket_reach 2 ?s1" by (rule ticket_reach.step [OF ticket_reach.init])
  moreover have "ticket_step 2 ?s1 False ticket_held"
    using ticket_step.take [of 1 2 ?s1] by (simp add: ticket_held_def lock_head_def lock_tail_def take_ticket_def fun_upd_twist)
  ultimately show ?thesis by (rule ticket_reach.step)
qed

theorem ticket_mutex_witness: "{j. tl_pc ticket_held j = In} = {0}"
proof -
  have "tl_pc ticket_held 0 = In" by (simp add: ticket_held_def)
  then have "tl_pc ticket_held j = In \<Longrightarrow> 0 = j" for j
    by (intro ticket_mutex [OF ticket_held_reach, of 0 _ j] disjI1) simp_all
  with \<open>tl_pc ticket_held 0 = In\<close> show ?thesis by blast
qed

theorem ticket_fair_witness: "\<exists>k. waiting_run 2 1 ticket_held k ticket_passed \<and> k + ticket_place ticket_passed 1 = 1"
proof -
  let ?s1 = "\<lparr>tl_lock = 0x20000, tl_pc = (\<lambda>_. Out)(0 := Leave 1, 1 := Spin 1)\<rparr>"
  have o: "(\<lambda>_. Out)(0 := Out) = (\<lambda>_. Out)" by auto
  have v: "(131073 :: u16) = 1" by (simp add: word_unat_eq_iff)
  have "waiting_run 2 1 ticket_held 0 ticket_held" by (rule waiting_run.start [of _ _ 1]) (simp add: ticket_held_def)
  moreover have "ticket_step 2 ticket_held False ?s1"
    using ticket_step.read_head [of ticket_held 0 2] by (simp add: ticket_held_def lock_head_def fun_upd_twist v)
  ultimately have "waiting_run 2 1 ticket_held 0 ?s1" using waiting_run.step [of 2 1 ticket_held 0 ticket_held False ?s1 1] by simp
  moreover have "ticket_step 2 ?s1 True ticket_passed"
    using ticket_step.write_head [of ?s1 0 1 2] by (simp add: ticket_passed_def set_head_def fun_upd_twist o)
  ultimately have run: "waiting_run 2 1 ticket_held 1 ticket_passed"
    using waiting_run.step [of 2 1 ticket_held 0 ?s1 True ticket_passed 1] by (simp add: ticket_passed_def)
  have "ticket_place ticket_held 1 = 1" by (simp add: ticket_place_def ticket_held_def lock_head_def)
  with ticket_fair [OF ticket_held_reach _ run] run show ?thesis by auto
qed

section \<open>Properties of the other locks\<close>

lemma recursive_lock_again:
  "rl_holder lk = c \<Longrightarrow> rl_depth lk + int m \<le> INT_MAX \<Longrightarrow>
   for_n m k (\<lambda>_. recursive_lock c) lk = Inr (lk\<lparr>rl_depth := rl_depth lk + int m\<rparr>)"
  by (induction m arbitrary: k lk) (simp_all add: recursive_lock_def)

lemma recursive_unlock_all:
  "rl_holder lk = c \<Longrightarrow> rl_depth lk = int (Suc m) \<Longrightarrow>
   for_n (Suc m) k (\<lambda>_. recursive_unlock c) lk = Inr (lk\<lparr>rl_holder := - 1, rl_depth := 0, rl_lock := spin_unlock (rl_lock lk)\<rparr>)"
proof (induction m arbitrary: k lk)
  case 0
  then show ?case by (simp add: recursive_unlock_def Let_def)
next
  case (Suc m)
  have "recursive_unlock c lk = Inr (lk\<lparr>rl_depth := int (Suc m)\<rparr>)"
    using Suc.prems by (simp add: recursive_unlock_def Let_def)
  then show ?case
    using Suc.IH [of "lk\<lparr>rl_depth := int (Suc m)\<rparr>" "Suc k"] Suc.prems by (subst for_n.simps) simp
qed

lemma head_of_next_ticket: "lock_head (take_ticket lk) = lock_head lk"
  using lock_tail_take [of lk] by simp

text \<open>
  C33. A recursive lock that is free can be locked any number of times by one processor and is free
  again after as many unlocks; in between, another processor cannot take it and an unlock by
  another processor panics.
\<close>

theorem rlock_nested:
  assumes free: "lock_head (rl_lock lk) = lock_tail (rl_lock lk)" "rl_holder lk = - 1" "rl_depth lk = 0"
    and cpu: "0 \<le> c" "0 \<le> d" "c \<noteq> d" and n: "int (Suc n) \<le> INT_MAX"
  shows "\<exists>lk' lk''. for_n (Suc n) 0 (\<lambda>_. recursive_lock c) lk = Inr lk' \<and>
    recursive_lock d lk' = Inl NoReturn \<and> recursive_unlock d lk' = Inl Panic \<and>
    for_n (Suc n) 0 (\<lambda>_. recursive_unlock c) lk' = Inr lk'' \<and>
    lock_head (rl_lock lk'') = lock_tail (rl_lock lk'') \<and> rl_holder lk'' = - 1 \<and> rl_depth lk'' = 0"
proof -
  let ?one = "lk\<lparr>rl_lock := take_ticket (rl_lock lk), rl_holder := c, rl_depth := 1\<rparr>"
  let ?all = "?one\<lparr>rl_depth := int (Suc n)\<rparr>"
  have one: "recursive_lock c lk = Inr ?one"
    using free cpu by (simp add: recursive_lock_def spin_lock_def INT_MAX_def)
  have all: "for_n (Suc n) 0 (\<lambda>_. recursive_lock c) lk = Inr ?all"
    using recursive_lock_again [of ?one c n 1] n by (simp add: one)
  have "recursive_lock d ?all = Inl NoReturn"
    using free cpu by (simp add: recursive_lock_def spin_lock_def lock_tail_take)
  moreover have "recursive_unlock d ?all = Inl Panic"
    using cpu by (simp add: recursive_unlock_def)
  moreover have "lock_head (spin_unlock (rl_lock ?all)) = lock_tail (spin_unlock (rl_lock ?all))"
    using free by (simp add: spin_unlock_def lock_set_head lock_tail_take)
  ultimately show ?thesis
    using all recursive_unlock_all [of ?all c n 0] by simp
qed

theorem rlock_nested_witness:
  "\<exists>lk' lk''. for_n 3 0 (\<lambda>_. recursive_lock 0) EMPTY_RLOCK = Inr lk' \<and>
    recursive_lock 1 lk' = Inl NoReturn \<and> recursive_unlock 1 lk' = Inl Panic \<and>
    for_n 3 0 (\<lambda>_. recursive_unlock 0) lk' = Inr lk'' \<and>
    lock_head (rl_lock lk'') = lock_tail (rl_lock lk'') \<and> rl_holder lk'' = - 1 \<and> rl_depth lk'' = 0"
  using rlock_nested [of EMPTY_RLOCK 0 1 2]
  by (simp add: EMPTY_RLOCK_def INT_MAX_def lock_head_def lock_tail_def numeral_3_eq_3)

section \<open>Properties of the semaphore\<close>

inductive_cases ticket_stepE: "ticket_step n s b s'"

text \<open>Where the lock is at each point of a call, and what a processor inside knows of the value.\<close>

fun lock_at_pc :: "sem_pc \<Rightarrow> cpu_pc \<Rightarrow> bool" where
  "lock_at_pc Idle p \<longleftrightarrow> p = Out"
| "lock_at_pc (Wait op) p \<longleftrightarrow> p = Out"
| "lock_at_pc (Lock op) p \<longleftrightarrow> p = Out \<or> (\<exists>t. p = Spin t)"
| "lock_at_pc (Unlock op fin) p \<longleftrightarrow> p = In \<or> (\<exists>h. p = Leave h)"
| "lock_at_pc pc p \<longleftrightarrow> p = In"

fun sem_knows :: "sem_pc \<Rightarrow> semaphore \<Rightarrow> bool" where
  "sem_knows (Load op) s \<longleftrightarrow> sem_ready op s"
| "sem_knows (Store op w) s \<longleftrightarrow> w = sm_val s \<and> sem_ready op s"
| "sem_knows pc s \<longleftrightarrow> True"

fun sem_inside :: "sem_pc \<Rightarrow> bool" where
  "sem_inside (Test op) = True"
| "sem_inside (Load op) = True"
| "sem_inside (Store op w) = True"
| "sem_inside (Unlock op fin) = True"
| "sem_inside pc = False"

definition semaphore_ok :: "nat \<Rightarrow> int \<Rightarrow> int \<Rightarrow> semaphore \<Rightarrow> bool" where
  "semaphore_ok n v t s \<longleftrightarrow> ticket_reach n (sm_lock s) \<and> 0 \<le> sm_val s \<and> sm_val s \<le> v \<and> sm_limit s = v \<and> sm_val s = v + t \<and>
     (\<forall>i. lock_at_pc (sm_pc s i) (tl_pc (sm_lock s) i) \<and> sem_knows (sm_pc s i) s)"

lemma lock_step_moves:
  assumes "lock_step n i l l'"
  shows "\<forall>j. j \<noteq> i \<longrightarrow> tl_pc l' j = tl_pc l j"
    "lock_at_pc (Lock op) (tl_pc l i) \<Longrightarrow> tl_pc l' i = In \<or> (\<exists>t. tl_pc l' i = Spin t)"
    "lock_at_pc (Unlock op fin) (tl_pc l i) \<Longrightarrow> tl_pc l' i = Out \<or> (\<exists>h. tl_pc l' i = Leave h)"
  using assms by (auto simp: lock_step_def elim!: ticket_stepE split: if_splits)

lemma lock_step_reach: "ticket_reach n l \<Longrightarrow> lock_step n i l l' \<Longrightarrow> ticket_reach n l'"
  by (auto simp: lock_step_def intro: ticket_reach.step)

lemma sem_inside_lock: "lock_at_pc pc p \<Longrightarrow> sem_inside pc \<Longrightarrow> p = In \<or> (\<exists>h. p = Leave h)"
  by (cases pc) auto

lemma sem_knows_outside: "\<not> sem_inside pc \<Longrightarrow> sem_knows pc s"
  by (cases pc) auto

lemma sem_inside_one:
  assumes ok: "semaphore_ok n v t s" and n: "n < 65536" and i: "sem_inside (sm_pc s i)" and j: "sem_inside (sm_pc s j)"
  shows "i = j"
proof -
  obtain q where q: "ticket_queue n (sm_lock s) q" using ticket_reach_queue [of n "sm_lock s"] ok n unfolding semaphore_ok_def by blast
  have "\<exists>h. tl_pc (sm_lock s) k = In \<or> tl_pc (sm_lock s) k = Leave h" if "sem_inside (sm_pc s k)" for k
    using ok that sem_inside_lock unfolding semaphore_ok_def by blast
  then have "\<exists>q'. q = k # q'" if "sem_inside (sm_pc s k)" for k using ticket_queue_first [OF q n] that by metis
  then show ?thesis using i j by (metis list.inject)
qed

lemma sem_ready_cong [simp]: "sem_ready op (s\<lparr>sm_pc := p\<rparr>) = sem_ready op s" "sem_ready op (s\<lparr>sm_lock := l\<rparr>) = sem_ready op s"
  by (cases op, simp_all add: sem_ready_def)+

lemma sem_knows_cong [simp]: "sem_knows pc (s\<lparr>sm_pc := p\<rparr>) = sem_knows pc s" "sem_knows pc (s\<lparr>sm_lock := l\<rparr>) = sem_knows pc s"
  by (cases pc, simp_all)+

lemma semaphore_okD:
  assumes "semaphore_ok n v t s"
  shows "ticket_reach n (sm_lock s)" "0 \<le> sm_val s" "sm_val s \<le> v" "sm_limit s = v" "sm_val s = v + t"
    "lock_at_pc (sm_pc s i) (tl_pc (sm_lock s) i)" "sem_knows (sm_pc s i) s"
  using assms unfolding semaphore_ok_def by blast+

text \<open>A processor moves, with or without the lock, and the value stays.\<close>

lemma semaphore_ok_move:
  assumes ok: "semaphore_ok n v t s" and "ticket_reach n l" "\<forall>j. j \<noteq> i \<longrightarrow> tl_pc l j = tl_pc (sm_lock s) j"
    "lock_at_pc p (tl_pc l i)" "sem_knows p s"
  shows "semaphore_ok n v t (s\<lparr>sm_lock := l, sm_pc := (sm_pc s)(i := p)\<rparr>)"
  using assms(2-) semaphore_okD [OF ok] by (simp add: semaphore_ok_def)

lemma semaphore_step_ok:
  assumes "sem_step n s d s'" and ok: "semaphore_ok n v t s" and n: "n < 65536"
  shows "semaphore_ok n v (t + d) s'"
proof -
  note D = semaphore_okD [OF ok]
  have move: "semaphore_ok n v t (s\<lparr>sm_pc := (sm_pc s)(i := p)\<rparr>)" if "lock_at_pc p (tl_pc (sm_lock s) i)" "sem_knows p s" for i p
    using semaphore_ok_move [OF ok D(1) _ that] by simp
  from assms(1) show ?thesis
  proof cases
    case (call i op)
    then show ?thesis using move [of "Wait op" i] D(6) [of i] by simp
  next
    case (seen i op)
    then show ?thesis using move [of "Lock op" i] D(6) [of i] by simp
  next
    case (lock i op l)
    then have "lock_at_pc (Lock op) (tl_pc (sm_lock s) i)" using D(6) [of i] by simp
    then have "lock_at_pc (if tl_pc l i = In then Test op else Lock op) (tl_pc l i)" using lock_step_moves(2) [OF lock(4)] by auto
    from semaphore_ok_move [OF ok lock_step_reach [OF D(1) lock(4)] lock_step_moves(1) [OF lock(4)] this] show ?thesis using lock by simp
  next
    case (test i op)
    then show ?thesis using move [of "if sem_ready op s then Load op else Unlock op False" i] D(6) [of i] by simp
  next
    case (load i op)
    then show ?thesis using move [of "Store op (sm_val s)" i] D(6) [of i] D(7) [of i] by simp
  next
    case (store i op w)
    have w: "w = sm_val s" "sem_ready op s" using D(7) [of i] store(3) by simp_all
    have "sem_knows (sm_pc s j) s'" if "j \<noteq> i" for j
      using sem_inside_one [OF ok n, of j i] store(3) that by (intro sem_knows_outside) auto
    moreover have "lock_at_pc (sm_pc s' j) (tl_pc (sm_lock s) j)" for j using D(6) [of j] D(6) [of i] store by auto
    ultimately show ?thesis using D(1-5) w store(1,2)
      by (auto simp: semaphore_ok_def sem_ready_def sem_change_def split: sem_op.splits)
  next
    case (unlock i op fin l)
    then have "lock_at_pc (Unlock op fin) (tl_pc (sm_lock s) i)" using D(6) [of i] by simp
    then have "lock_at_pc (if tl_pc l i \<noteq> Out then Unlock op fin else if fin then Idle else Wait op) (tl_pc l i)"
      using lock_step_moves(3) [OF unlock(4)] by auto
    from semaphore_ok_move [OF ok lock_step_reach [OF D(1) unlock(4)] lock_step_moves(1) [OF unlock(4)] this] show ?thesis using unlock by simp
  qed
qed

text \<open>
  C31. Calls of \<open>semaphore_dec\<close> and \<open>semaphore_inc\<close> on fewer than 65536 processors that run at the same time,
  access by access, lose no update: the value is always the initial value plus the increments less the
  decrements made so far. It stays between 0 and the limit, and at most one processor is between
  locking and unlocking.
\<close>

theorem semaphore_bounded:
  assumes "0 \<le> v" "n < 65536" "sem_reach n v t s"
  shows "sm_val s = v + t \<and> 0 \<le> sm_val s \<and> sm_val s \<le> v \<and> sm_limit s = v \<and>
    (\<forall>i j. sem_inside (sm_pc s i) \<and> sem_inside (sm_pc s j) \<longrightarrow> i = j)"
proof -
  from assms(3) have ok: "semaphore_ok n v t s"
  proof (induction rule: sem_reach.induct)
    case init
    then show ?case using assms(1) ticket_reach.init [of n] by (simp add: semaphore_ok_def semaphore_init_def ticket_init_def)
  next
    case (step t s d s')
    then show ?case using assms(2) by (blast intro: semaphore_step_ok)
  qed
  then show ?thesis using sem_inside_one [OF ok assms(2)] by (simp add: semaphore_ok_def)
qed

text \<open>Two processors on a semaphore of value 1: both see the value, one decrements, the other tests again.\<close>

lemma sem_run:
  "sem_reach n v t s \<Longrightarrow> sem_step n s d s' \<Longrightarrow> t' = t + d \<Longrightarrow> sem_reach n v t' s'"
  by (auto intro: sem_reach.step)

definition sem_taken :: "sem_pc \<Rightarrow> sem_pc \<Rightarrow> ticket_state \<Rightarrow> int \<Rightarrow> semaphore" where
  "sem_taken p q l v = \<lparr>sm_lock = l, sm_val = v, sm_limit = 1, sm_pc = (\<lambda>_. Idle)(0 := p, 1 := q)\<rparr>"

definition tickets :: "lock_t \<Rightarrow> cpu_pc \<Rightarrow> cpu_pc \<Rightarrow> ticket_state" where
  "tickets lk p q = \<lparr>tl_lock = lk, tl_pc = (\<lambda>_. Out)(0 := p, 1 := q)\<rparr>"

lemma two_upd: "f(0 := a, Suc 0 := b, 0 := c) = f(0 := c, Suc 0 := b)" "f(0 := a, Suc 0 := b, Suc 0 := c) = f(0 := a, Suc 0 := c)"
  by (auto simp: fun_eq_iff)

lemma tickets_steps:
  "lock_step 2 0 (tickets 0 Out Out) (tickets 0x10000 In Out)"
  "lock_step 2 1 (tickets 0x10000 In Out) (tickets 0x20000 In (Spin 1))"
  "lock_step 2 0 (tickets 0x20000 In (Spin 1)) (tickets 0x20000 (Leave 1) (Spin 1))"
  "lock_step 2 0 (tickets 0x20000 (Leave 1) (Spin 1)) (tickets 0x20001 Out (Spin 1))"
  "lock_step 2 1 (tickets 0x20001 Out (Spin 1)) (tickets 0x20001 Out In)"
proof -
  have v: "(131073 :: u16) = 1" by (simp add: word_unat_eq_iff)
  note d = tickets_def lock_step_def lock_head_def lock_tail_def take_ticket_def set_head_def two_upd v
  show "lock_step 2 0 (tickets 0 Out Out) (tickets 0x10000 In Out)"
    using ticket_step.take [of 0 2 "tickets 0 Out Out"] by (auto simp: d)
  show "lock_step 2 1 (tickets 0x10000 In Out) (tickets 0x20000 In (Spin 1))"
    using ticket_step.take [of 1 2 "tickets 0x10000 In Out"] by (auto simp: d)
  show "lock_step 2 0 (tickets 0x20000 In (Spin 1)) (tickets 0x20000 (Leave 1) (Spin 1))"
    using ticket_step.read_head [of "tickets 0x20000 In (Spin 1)" 0 2] by (auto simp: d)
  show "lock_step 2 0 (tickets 0x20000 (Leave 1) (Spin 1)) (tickets 0x20001 Out (Spin 1))"
    using ticket_step.write_head [of "tickets 0x20000 (Leave 1) (Spin 1)" 0 1 2] by (auto simp: d)
  show "lock_step 2 1 (tickets 0x20001 Out (Spin 1)) (tickets 0x20001 Out In)"
    using ticket_step.poll [of "tickets 0x20001 Out (Spin 1)" 1 1 2] by (auto simp: d)
qed

lemma sem_taken_run: "sem_reach 2 1 (- 1) (sem_taken Idle (Test Dec) (tickets 0x20001 Out In) 0)"
proof -
  let ?S = sem_taken
  note d = sem_taken_def two_upd sem_ready_def sem_change_def tickets_def
  have i: "sem_reach 2 1 0 (?S Idle Idle (tickets 0 Out Out) 1)"
    using sem_reach.init [of 2 1] by (simp add: d semaphore_init_def ticket_init_def spinlock_init_def fun_upd_idem)
  have "sem_reach 2 1 0 (?S (Wait Dec) Idle (tickets 0 Out Out) 1)"
    using sem_run [OF i sem_step.call [of _ 0 2 Dec]] by (simp add: d)
  from sem_run [OF this sem_step.call [of _ 1 2 Dec]]
  have "sem_reach 2 1 0 (?S (Wait Dec) (Wait Dec) (tickets 0 Out Out) 1)" by (simp add: d)
  from sem_run [OF this sem_step.seen [of _ 0 Dec 2]]
  have "sem_reach 2 1 0 (?S (Lock Dec) (Wait Dec) (tickets 0 Out Out) 1)" by (simp add: d)
  from sem_run [OF this sem_step.seen [of _ 1 Dec 2]]
  have "sem_reach 2 1 0 (?S (Lock Dec) (Lock Dec) (tickets 0 Out Out) 1)" by (simp add: d)
  from sem_run [OF this sem_step.lock [of _ 0 Dec 2 "tickets 0x10000 In Out"]] tickets_steps(1)
  have "sem_reach 2 1 0 (?S (Test Dec) (Lock Dec) (tickets 0x10000 In Out) 1)" by (simp add: d)
  from sem_run [OF this sem_step.lock [of _ 1 Dec 2 "tickets 0x20000 In (Spin 1)"]] tickets_steps(2)
  have "sem_reach 2 1 0 (?S (Test Dec) (Lock Dec) (tickets 0x20000 In (Spin 1)) 1)" by (simp add: d)
  from sem_run [OF this sem_step.test [of _ 0 Dec 2]]
  have "sem_reach 2 1 0 (?S (Load Dec) (Lock Dec) (tickets 0x20000 In (Spin 1)) 1)" by (simp add: d)
  from sem_run [OF this sem_step.load [of _ 0 Dec 2]]
  have "sem_reach 2 1 0 (?S (Store Dec 1) (Lock Dec) (tickets 0x20000 In (Spin 1)) 1)" by (simp add: d)
  from sem_run [OF this sem_step.store [of _ 0 Dec 1 2]]
  have "sem_reach 2 1 (- 1) (?S (Unlock Dec True) (Lock Dec) (tickets 0x20000 In (Spin 1)) 0)" by (simp add: d)
  from sem_run [OF this sem_step.unlock [of _ 0 Dec True 2 "tickets 0x20000 (Leave 1) (Spin 1)"]] tickets_steps(3)
  have "sem_reach 2 1 (- 1) (?S (Unlock Dec True) (Lock Dec) (tickets 0x20000 (Leave 1) (Spin 1)) 0)" by (simp add: d)
  from sem_run [OF this sem_step.unlock [of _ 0 Dec True 2 "tickets 0x20001 Out (Spin 1)"]] tickets_steps(4)
  have "sem_reach 2 1 (- 1) (?S Idle (Lock Dec) (tickets 0x20001 Out (Spin 1)) 0)" by (simp add: d)
  from sem_run [OF this sem_step.lock [of _ 1 Dec 2 "tickets 0x20001 Out In"]] tickets_steps(5) show ?thesis by (simp add: d)
qed

theorem semaphore_bounded_witness:
  "\<exists>s. sem_reach 2 1 (- 1) s \<and> sm_pc s 0 = Idle \<and> sm_pc s 1 = Test Dec \<and> sm_val s = 0 \<and> {i. sem_inside (sm_pc s i)} = {1}"
proof -
  let ?s = "sem_taken Idle (Test Dec) (tickets 0x20001 Out In) 0"
  have "sem_inside (sm_pc ?s 1)" "sm_pc ?s 0 = Idle" "sm_pc ?s 1 = Test Dec" by (simp_all add: sem_taken_def)
  moreover have "sm_val ?s = 1 + - 1" and "\<forall>i j. sem_inside (sm_pc ?s i) \<and> sem_inside (sm_pc ?s j) \<longrightarrow> i = j"
    using semaphore_bounded [OF _ _ sem_taken_run] by simp_all
  ultimately show ?thesis using sem_taken_run by (intro exI [of _ ?s]) auto
qed

end
