(* ===== verification/Cp0.thy ===== *)
theory Cp0
  imports Sync
begin

unbundle bit_operations_syntax

text \<open>
  The registers of the system control coprocessor (\<^verbatim>\<open>src/include/arch/mips/mipsregs.h\<close> and
  \<^verbatim>\<open>cp0regdef.h\<close>), the interrupt switches of \<^verbatim>\<open>arch-irq.h\<close>, which are sequences of instructions on
  the status register, and the lock macros of \<^verbatim>\<open>sync.h\<close> that use them. A register holds what was last
  written to it.
\<close>

section \<open>Registers\<close>

type_synonym cp0 = "nat \<times> nat \<Rightarrow> u32"

text \<open>The registers that have an accessor, and the number and the selector it uses.\<close>

datatype c0_name =
  C0_index | C0_random | C0_entrylo0 | C0_entrylo1 | C0_context | C0_pagemask | C0_pagegrain | C0_wired | C0_hwrena |
  C0_badvaddr | C0_count | C0_entryhi | C0_compare | C0_status | C0_intctl | C0_srsctl | C0_cause | C0_epc | C0_prid |
  C0_ebase | C0_config | C0_config1 | C0_config2 | C0_config3 | C0_lladdr | C0_watchlo | C0_watchhi | C0_xcontext |
  C0_framemask | C0_diag | C0_perfctrl0 | C0_perfcntr0 | C0_perfctrl1 | C0_perfcntr1 | C0_ecc | C0_cacheerr |
  C0_cerraddr | C0_taglo | C0_taghi | C0_datalo | C0_datahi | C0_errorepc | C0_desave

primrec c0_select :: "c0_name \<Rightarrow> nat \<times> nat" where
  "c0_select C0_index = (0, 0)"
| "c0_select C0_random = (1, 0)"
| "c0_select C0_entrylo0 = (2, 0)"
| "c0_select C0_entrylo1 = (3, 0)"
| "c0_select C0_context = (4, 0)"
| "c0_select C0_pagemask = (5, 0)"
| "c0_select C0_pagegrain = (5, 1)"
| "c0_select C0_wired = (6, 0)"
| "c0_select C0_hwrena = (7, 0)"
| "c0_select C0_badvaddr = (8, 0)"
| "c0_select C0_count = (9, 0)"
| "c0_select C0_entryhi = (10, 0)"
| "c0_select C0_compare = (11, 0)"
| "c0_select C0_status = (12, 0)"
| "c0_select C0_intctl = (12, 1)"
| "c0_select C0_srsctl = (12, 2)"
| "c0_select C0_cause = (13, 0)"
| "c0_select C0_epc = (14, 0)"
| "c0_select C0_prid = (15, 0)"
| "c0_select C0_ebase = (15, 1)"
| "c0_select C0_config = (16, 0)"
| "c0_select C0_config1 = (16, 1)"
| "c0_select C0_config2 = (16, 2)"
| "c0_select C0_config3 = (16, 3)"
| "c0_select C0_lladdr = (17, 0)"
| "c0_select C0_watchlo = (18, 0)"
| "c0_select C0_watchhi = (19, 0)"
| "c0_select C0_xcontext = (20, 0)"
| "c0_select C0_framemask = (21, 0)"
| "c0_select C0_diag = (22, 0)"
| "c0_select C0_perfctrl0 = (25, 0)"
| "c0_select C0_perfcntr0 = (25, 1)"
| "c0_select C0_perfctrl1 = (25, 2)"
| "c0_select C0_perfcntr1 = (25, 3)"
| "c0_select C0_ecc = (26, 0)"
| "c0_select C0_cacheerr = (27, 0)"
| "c0_select C0_cerraddr = (27, 1)"
| "c0_select C0_taglo = (28, 0)"
| "c0_select C0_taghi = (29, 0)"
| "c0_select C0_datalo = (28, 1)"
| "c0_select C0_datahi = (29, 1)"
| "c0_select C0_errorepc = (30, 0)"
| "c0_select C0_desave = (31, 0)"

definition read_32bit_c0_register :: "nat \<Rightarrow> nat \<Rightarrow> cp0 \<Rightarrow> u32" where
  "read_32bit_c0_register src sel c = c (src, sel)"

definition write_32bit_c0_register :: "nat \<Rightarrow> nat \<Rightarrow> u32 \<Rightarrow> cp0 \<Rightarrow> cp0" where
  "write_32bit_c0_register reg sel v c = c((reg, sel) := v)"

text \<open>A long has four bytes, so the accessors for longs are those for 32 bits.\<close>

definition read_ulong_c0_register :: "nat \<Rightarrow> nat \<Rightarrow> cp0 \<Rightarrow> u32" where
  "read_ulong_c0_register reg sel c = read_32bit_c0_register reg sel c"

definition write_ulong_c0_register :: "nat \<Rightarrow> nat \<Rightarrow> u32 \<Rightarrow> cp0 \<Rightarrow> cp0" where
  "write_ulong_c0_register reg sel v c = write_32bit_c0_register reg sel v c"

text \<open>The registers with a long accessor.\<close>

definition c0_ulong :: "c0_name \<Rightarrow> bool" where
  "c0_ulong r \<longleftrightarrow> r \<in> {C0_entrylo0, C0_entrylo1, C0_context, C0_badvaddr, C0_entryhi, C0_epc, C0_lladdr, C0_watchlo,
     C0_xcontext, C0_cerraddr, C0_errorepc, C0_desave}"

definition read_c0 :: "c0_name \<Rightarrow> cp0 \<Rightarrow> u32" where
  "read_c0 r c = (case c0_select r of (reg, sel) \<Rightarrow>
     if c0_ulong r then read_ulong_c0_register reg sel c else read_32bit_c0_register reg sel c)"

definition write_c0 :: "c0_name \<Rightarrow> u32 \<Rightarrow> cp0 \<Rightarrow> cp0" where
  "write_c0 r v c = (case c0_select r of (reg, sel) \<Rightarrow>
     if c0_ulong r then write_ulong_c0_register reg sel v c else write_32bit_c0_register reg sel v c)"

text \<open>\<^verbatim>\<open>__BUILD_SET_C0\<close>: the functions return the old value.\<close>

definition set_c0 :: "c0_name \<Rightarrow> u32 \<Rightarrow> cp0 \<Rightarrow> u32 \<times> cp0" where
  "set_c0 r v c = (let res = read_c0 r c in (res, write_c0 r (res OR v) c))"

definition clear_c0 :: "c0_name \<Rightarrow> u32 \<Rightarrow> cp0 \<Rightarrow> u32 \<times> cp0" where
  "clear_c0 r v c = (let res = read_c0 r c in (res, write_c0 r (res AND NOT v) c))"

definition change_c0 :: "c0_name \<Rightarrow> u32 \<Rightarrow> u32 \<Rightarrow> cp0 \<Rightarrow> u32 \<times> cp0" where
  "change_c0 r change v c = (let res = read_c0 r c in (res, write_c0 r ((res AND NOT change) OR (v AND change)) c))"

section \<open>Fields\<close>

named_theorems cp0_defs

definition ST_BEV :: u32 where [cp0_defs]: "ST_BEV = 0x00400000"
definition ST_IM :: u32 where [cp0_defs]: "ST_IM = 0x0000ff00"
definition ST_EXCM :: u32 where [cp0_defs]: "ST_EXCM = 0x0000001f"
definition ST_KSU :: u32 where [cp0_defs]: "ST_KSU = 0x00000018"
definition KSU_USER :: u32 where [cp0_defs]: "KSU_USER = 0x00000010"
definition KSU_KERNEL :: u32 where [cp0_defs]: "KSU_KERNEL = 0"
definition ST_ERL :: u32 where [cp0_defs]: "ST_ERL = 0x00000004"
definition ST_EXL :: u32 where [cp0_defs]: "ST_EXL = 0x00000002"
definition ST_IE :: u32 where [cp0_defs]: "ST_IE = 0x00000001"
definition CR_BD :: u32 where [cp0_defs]: "CR_BD = 0x80000000"
definition CR_EC :: u32 where [cp0_defs]: "CR_EC = 0x0000007c"
definition PM_4K :: u32 where [cp0_defs]: "PM_4K = 0"
definition EBASE_CPUNUM_MASK :: u32 where [cp0_defs]: "EBASE_CPUNUM_MASK = 0x3ff"

definition EXCCODE :: "u32 \<Rightarrow> u32" where
  "EXCCODE x = drop_bit 2 (x AND CR_EC)"

definition EC_int :: u32 where [cp0_defs]: "EC_int = 0"
definition EC_sys :: u32 where [cp0_defs]: "EC_sys = 8"
definition EC_bp :: u32 where [cp0_defs]: "EC_bp = 9"

definition cpuid :: "cp0 \<Rightarrow> u32" where
  "cpuid c = read_c0 C0_ebase c AND EBASE_CPUNUM_MASK"

section \<open>Interrupt switches\<close>

definition local_irq_enable :: "cp0 \<Rightarrow> cp0" where
  "local_irq_enable c = (let r1 = c (12, 0); r1 = r1 OR 1 in c((12, 0) := r1))"

definition local_irq_disable :: "cp0 \<Rightarrow> cp0" where
  "local_irq_disable c = (let r1 = c (12, 0); r1 = r1 OR 1; r1 = r1 XOR 1 in c((12, 0) := r1))"

definition local_irq_save :: "cp0 \<Rightarrow> u32 \<times> cp0" where
  "local_irq_save c = (let flags = c (12, 0); r1 = flags OR 0x1f; r1 = r1 XOR 0x1f in (flags, c((12, 0) := r1)))"

definition local_irq_restore :: "u32 \<Rightarrow> cp0 \<Rightarrow> cp0" where
  "local_irq_restore flags c =
     (let r1 = c (12, 0); flags = flags AND 1; r1 = r1 OR 0x1f; r1 = r1 XOR 0x1f; flags = flags OR r1 in c((12, 0) := flags))"

text \<open>The lock macros; the value is the flags that were saved.\<close>

definition spin_lock_irq_save :: "lock_t \<Rightarrow> cp0 \<Rightarrow> (u32 \<times> lock_t \<times> cp0) res" where
  "spin_lock_irq_save lk c = (case local_irq_save c of (flags, c) \<Rightarrow>
     and_then (spin_lock lk) (\<lambda>lk. Inr (flags, lk, c)))"

definition spin_unlock_irq_restore :: "lock_t \<Rightarrow> u32 \<Rightarrow> cp0 \<Rightarrow> lock_t \<times> cp0" where
  "spin_unlock_irq_restore lk flags c = (spin_unlock lk, local_irq_restore flags c)"

definition recursive_lock_irq_save :: "rlock_t \<Rightarrow> cp0 \<Rightarrow> (u32 \<times> rlock_t \<times> cp0) res" where
  "recursive_lock_irq_save lk c = (case local_irq_save c of (flags, c) \<Rightarrow>
     and_then (recursive_lock (uint (cpuid c)) lk) (\<lambda>lk. Inr (flags, lk, c)))"

definition recursive_unlock_irq_restore :: "rlock_t \<Rightarrow> u32 \<Rightarrow> cp0 \<Rightarrow> (rlock_t \<times> cp0) res" where
  "recursive_unlock_irq_restore lk flags c =
     and_then (recursive_unlock (uint (cpuid c)) lk) (\<lambda>lk. Inr (lk, local_irq_restore flags c))"

section \<open>Lemmas\<close>

lemma c0_select_inj: "c0_select r = c0_select r' \<longleftrightarrow> r = r'"
  by (cases r; cases r') simp_all

lemma read_c0_eq: "read_c0 r c = c (c0_select r)"
  by (simp add: read_c0_def read_ulong_c0_register_def read_32bit_c0_register_def split: prod.splits)

lemma write_c0_eq: "write_c0 r v c = c(c0_select r := v)"
  by (simp add: write_c0_def write_ulong_c0_register_def write_32bit_c0_register_def split: prod.splits)

lemma read_write_c0 [simp]: "read_c0 r (write_c0 r' v c) = (if r = r' then v else read_c0 r c)"
  by (auto simp: read_c0_eq write_c0_eq c0_select_inj)

lemma or_xor_eq: "(x OR m) XOR m = x AND NOT m" for x m :: "'a::len word"
  by (rule bit_word_eqI) (auto simp: bit_simps)

lemma local_irq_eq:
  "local_irq_enable c = write_c0 C0_status (read_c0 C0_status c OR ST_IE) c"
  "local_irq_disable c = write_c0 C0_status (read_c0 C0_status c AND NOT ST_IE) c"
  "local_irq_save c = (read_c0 C0_status c, write_c0 C0_status (read_c0 C0_status c AND NOT ST_EXCM) c)"
  "local_irq_restore flags c = write_c0 C0_status ((flags AND ST_IE) OR (read_c0 C0_status c AND NOT ST_EXCM)) c"
  by (simp_all add: local_irq_enable_def local_irq_disable_def local_irq_save_def local_irq_restore_def
      Let_def read_c0_eq write_c0_eq or_xor_eq cp0_defs)

text \<open>The bits that an exception clears are the level bits and the enable bit.\<close>

lemma status_bits: "bit ST_EXCM n \<longleftrightarrow> bit ST_IE n \<or> bit (ST_KSU OR ST_ERL OR ST_EXL) n"
proof -
  have e: "ST_EXCM = ST_IE OR (ST_KSU OR ST_ERL OR ST_EXL)" by (simp add: cp0_defs)
  show ?thesis by (subst e) (simp only: bit_or_iff)
qed

text \<open>
  C26. A section protected by \<open>spin_lock_irq_save\<close> and \<open>spin_unlock_irq_restore\<close>. The lock of a free lock
  word succeeds, it is held and interrupts are off until the unlock, and afterwards the lock is
  free again and the status register is what it was, if the code ran at kernel level outside an
  exception.
\<close>

theorem irq_section:
  assumes free: "lock_head lk = lock_tail lk" and kernel: "read_c0 C0_status c AND (ST_KSU OR ST_ERL OR ST_EXL) = 0"
  shows "\<exists>flags lk' c'. spin_lock_irq_save lk c = Inr (flags, lk', c') \<and>
    read_c0 C0_status c' AND ST_IE = 0 \<and> spin_lock lk' = Inl NoReturn \<and>
    (case spin_unlock_irq_restore lk' flags c' of (lk'', c'') \<Rightarrow> lock_head lk'' = lock_tail lk'' \<and> c'' = c)"
proof -
  define st where "st = read_c0 C0_status c"
  define d where "d = write_c0 C0_status (st AND NOT ST_EXCM) c"
  have lock: "spin_lock_irq_save lk c = Inr (st, take_ticket lk, d)"
    using free by (simp add: spin_lock_irq_save_def local_irq_eq spin_lock_def st_def d_def)
  have keep: "(st AND ST_IE) OR (st AND NOT ST_EXCM AND NOT ST_EXCM) = st"
  proof (rule bit_word_eqI)
    fix n :: nat
    have "\<not> bit (st AND (ST_KSU OR ST_ERL OR ST_EXL)) n" using kernel st_def by simp
    moreover assume "n < LENGTH(32)"
    ultimately show "bit ((st AND ST_IE) OR (st AND NOT ST_EXCM AND NOT ST_EXCM)) n = bit st n"
      using status_bits [of n] by (auto simp: bit_simps)
  qed
  have "local_irq_restore st d = write_c0 C0_status st d"
    using keep by (simp add: local_irq_eq d_def)
  also have "\<dots> = c" by (simp add: d_def write_c0_eq st_def read_c0_eq fun_upd_idem)
  finally have "local_irq_restore st d = c" .
  moreover have "(st AND NOT ST_EXCM) AND ST_IE = 0"
    by (rule bit_word_eqI) (use status_bits in \<open>auto simp: bit_simps\<close>)
  ultimately show ?thesis
    using lock free by (simp add: spin_unlock_irq_restore_def spin_unlock_def d_def spin_lock_def lock_tail_take lock_set_head)
qed

theorem irq_section_witness:
  "\<exists>flags lk' c'. spin_lock_irq_save 0 ((\<lambda>_. 0)((12, 0) := 0x1000ff01)) = Inr (flags, lk', c') \<and>
    read_c0 C0_status c' AND ST_IE = 0 \<and> spin_lock lk' = Inl NoReturn \<and>
    (case spin_unlock_irq_restore lk' flags c' of (lk'', c'') \<Rightarrow>
       lock_head lk'' = lock_tail lk'' \<and> c'' = (\<lambda>_. 0)((12, 0) := 0x1000ff01))"
  by (rule irq_section) (simp_all add: lock_head_def lock_tail_def read_c0_eq cp0_defs)

end
