(* ===== verification/Trap.thy ===== *)
theory Trap
  imports Decode Cp0
begin

unbundle bit_operations_syntax

text \<open>
  The trap handler of \<^verbatim>\<open>src/kern/arch/mips/arch_trap.c\<close>: it decides by the exception code, and skips the
  instruction that trapped, for which it computes the target of a branch when that instruction is
  in a delay slot. The branch targets are compared with the MIPS manual.
\<close>

section \<open>Memory and the trap frame\<close>

text \<open>Memory as words: a load or a store at an address that is not a multiple of four is a fault.\<close>

type_synonym word_mem = "ptr \<rightharpoonup> u32"

definition lw :: "word_mem \<Rightarrow> ptr \<Rightarrow> u32 res" where
  "lw m a = (if a AND 3 \<noteq> 0 then Inl Fault else ld m a)"

definition sw :: "word_mem \<Rightarrow> ptr \<Rightarrow> u32 \<Rightarrow> word_mem res" where
  "sw m a v = (if a AND 3 \<noteq> 0 then Inl Fault else upd m a (\<lambda>_. v))"

definition read_insn :: "word_mem \<Rightarrow> ptr \<Rightarrow> u32 res" where
  "read_insn m addr = lw m addr"

record trapframe =
  tf_gpr :: "u32 list"
  tf_lo :: u32
  tf_hi :: u32
  tf_status :: u32
  tf_cause :: u32
  tf_epc :: u32
  tf_badvaddr :: u32

definition from_kernel :: "trapframe \<Rightarrow> bool" where
  "from_kernel tf \<longleftrightarrow> tf_status tf AND ST_KSU = KSU_KERNEL"

definition RA :: u32 where "RA = 31"

definition get_gpr :: "trapframe \<Rightarrow> u32 \<Rightarrow> u32 res" where
  "get_gpr tf r = rd (tf_gpr tf) (unat r)"

definition set_gpr :: "u32 \<Rightarrow> u32 \<Rightarrow> trapframe \<Rightarrow> trapframe res" where
  "set_gpr r v tf = and_then (wr (tf_gpr tf) (unat r) v) (\<lambda>g. Inr (tf\<lparr>tf_gpr := g\<rparr>))"

section \<open>Branch targets\<close>

text \<open>A branch that is decided by a condition on registers.\<close>

definition branch_if :: "bool \<Rightarrow> u32 \<Rightarrow> u32 \<Rightarrow> trapframe \<Rightarrow> (u32 \<times> trapframe) res" where
  "branch_if cond branch_pc cont_pc tf = Inr (if cond then branch_pc else cont_pc, tf)"

definition branch_target :: "word_mem \<Rightarrow> trapframe \<Rightarrow> u32 \<Rightarrow> (u32 \<times> trapframe) res" where
  "branch_target m tf pc =
     and_then (read_insn m pc) (\<lambda>insn.
     let opcode = OPCODE insn; cont_pc = pc + 8 in
     if opcode = OP_SPECIAL then
       let rs = R_RS insn; rd = R_RD insn; func = R_FUNC insn in
       if func = FN_JALR then and_then (set_gpr rd cont_pc tf) (\<lambda>tf. and_then (get_gpr tf rs) (\<lambda>v. Inr (v, tf)))
       else if func = FN_JR then and_then (get_gpr tf rs) (\<lambda>v. Inr (v, tf))
       else Inl Panic
     else if opcode = OP_JAL then
       and_then (set_gpr RA cont_pc tf) (\<lambda>tf. Inr ((pc AND NOT J_ACTUAL_INDEX_MASK) OR J_INDEX insn, tf))
     else if opcode = OP_J then Inr ((pc AND NOT J_ACTUAL_INDEX_MASK) OR J_INDEX insn, tf)
     else
       let rs = I_RS insn; offset = I_IOFFSET insn; branch_pc = pc + offset + 4 in
       if opcode = OP_REGIMM then
         let func = I_FUNC insn in
         if func = FN_BLTZAL \<or> func = FN_BLTZALL then
           and_then (get_gpr tf rs) (\<lambda>v.
           and_then (if v <s 0 then set_gpr RA cont_pc tf else Inr tf) (\<lambda>tf.
           and_then (get_gpr tf rs) (\<lambda>v. branch_if (v <s 0) branch_pc cont_pc tf)))
         else if func = FN_BLTZ \<or> func = FN_BLTZL then
           and_then (get_gpr tf rs) (\<lambda>v. branch_if (v <s 0) branch_pc cont_pc tf)
         else if func = FN_BGEZAL \<or> func = FN_BGEZALL then
           and_then (get_gpr tf rs) (\<lambda>v.
           and_then (if 0 \<le>s v then set_gpr RA cont_pc tf else Inr tf) (\<lambda>tf.
           and_then (get_gpr tf rs) (\<lambda>v. branch_if (0 \<le>s v) branch_pc cont_pc tf)))
         else if func = FN_BGEZ \<or> func = FN_BGEZL then
           and_then (get_gpr tf rs) (\<lambda>v. branch_if (0 \<le>s v) branch_pc cont_pc tf)
         else Inl Panic
       else if opcode = OP_BLEZ \<or> opcode = OP_BLEZL then
         and_then (get_gpr tf rs) (\<lambda>v. branch_if (v \<le> 0) branch_pc cont_pc tf)
       else if opcode = OP_BGTZ \<or> opcode = OP_BGTZL then
         and_then (get_gpr tf rs) (\<lambda>v. branch_if (v > 0) branch_pc cont_pc tf)
       else let rt = I_RT insn in
       if opcode = OP_BEQ \<or> opcode = OP_BEQL then
         and_then (get_gpr tf rs) (\<lambda>v. and_then (get_gpr tf rt) (\<lambda>w. branch_if (v = w) branch_pc cont_pc tf))
       else if opcode = OP_BNE \<or> opcode = OP_BNEL then
         and_then (get_gpr tf rs) (\<lambda>v. and_then (get_gpr tf rt) (\<lambda>w. branch_if (v \<noteq> w) branch_pc cont_pc tf))
       else Inl Panic)"

definition skip_victim :: "word_mem \<Rightarrow> trapframe \<Rightarrow> trapframe res" where
  "skip_victim m tf =
     (if tf_cause tf AND CR_BD \<noteq> 0
      then and_then (branch_target m tf (tf_epc tf)) (\<lambda>(pc, tf). Inr (tf\<lparr>tf_epc := pc\<rparr>))
      else Inr (tf\<lparr>tf_epc := tf_epc tf + 4\<rparr>))"

section \<open>The handler\<close>

text \<open>
  The handlers of \<^verbatim>\<open>src/kern/trap/trap.c\<close> only print; the value is what \<^verbatim>\<open>handle_syscall\<close> returns.
\<close>

definition handle_syscall :: "u32 \<Rightarrow> u32" where
  "handle_syscall number = 0"

definition trap_return :: "trapframe \<Rightarrow> cp0 \<Rightarrow> trapframe \<times> cp0" where
  "trap_return tf c =
     (let status = read_c0 C0_status c; im = status AND ST_IM; status = status AND NOT ST_EXCM;
          c = write_c0 C0_status status c
      in (tf\<lparr>tf_status := (tf_status tf AND NOT ST_IM) OR im\<rparr>, c))"

text \<open>The value is the frame and the registers that \<^verbatim>\<open>trap_exit\<close> is called with.\<close>

definition trap_handler :: "word_mem \<Rightarrow> trapframe \<Rightarrow> cp0 \<Rightarrow> (trapframe \<times> cp0) res" where
  "trap_handler m tf c =
     (let code = EXCCODE (tf_cause tf) in
      if code = EC_sys then
        and_then (skip_victim m tf) (\<lambda>tf.
        let c = local_irq_enable c; _ = handle_syscall (tf_cause tf) in Inr (trap_return tf c))
      else if code = EC_bp then and_then (skip_victim m tf) (\<lambda>tf. Inr (trap_return tf c))
      else if code = EC_int then Inr (trap_return tf c)
      else Inl Panic)"

section \<open>What the architecture says of branches\<close>

text \<open>
  The jumps and branches of the MIPS32 manual, with the codes as the manual gives them. A branch adds
  the sign-extended offset, in words, to the address of the delay slot; a jump replaces the low 28
  bits of it; a link register receives the address after the delay slot, by a branch also when it is
  not taken. The branches on a condition of coprocessor 1 or 2 (\<^verbatim>\<open>bc1f\<close>, \<^verbatim>\<open>bc1t\<close>, \<^verbatim>\<open>bc2f\<close>, \<^verbatim>\<open>bc2t\<close> and the likely
  forms) and \<^verbatim>\<open>jalx\<close> depend on state that a trap frame does not hold; they are branches without a target here.
\<close>

datatype cond = CEq | CNe | CLez | CGtz | CLtz | CGez

datatype branch = JumpReg nat "nat option" | Jump nat bool | Branch cond nat nat int bool | CopBranch | JumpExchange

definition insn_bits :: "nat \<Rightarrow> nat \<Rightarrow> u32 \<Rightarrow> nat" where
  "insn_bits lo n insn = unat insn div 2 ^ lo mod 2 ^ n"

definition isa_offset :: "u32 \<Rightarrow> int" where
  "isa_offset insn = (let imm = int (insn_bits 0 16 insn) in 4 * (if imm < 32768 then imm else imm - 65536))"

definition isa_branch :: "u32 \<Rightarrow> branch option" where
  "isa_branch insn =
     (let oc = insn_bits 26 6 insn; fn = insn_bits 0 6 insn; rs = insn_bits 21 5 insn; rt = insn_bits 16 5 insn;
          rd = insn_bits 11 5 insn; off = isa_offset insn in
      if oc = 0 then (if fn = 8 then Some (JumpReg rs None) else if fn = 9 then Some (JumpReg rs (Some rd)) else None)
      else if oc = 1 then
        (if rt = 0 \<or> rt = 2 then Some (Branch CLtz rs 0 off False)
         else if rt = 1 \<or> rt = 3 then Some (Branch CGez rs 0 off False)
         else if rt = 16 \<or> rt = 18 then Some (Branch CLtz rs 0 off True)
         else if rt = 17 \<or> rt = 19 then Some (Branch CGez rs 0 off True) else None)
      else if oc = 2 then Some (Jump (insn_bits 0 26 insn) False)
      else if oc = 3 then Some (Jump (insn_bits 0 26 insn) True)
      else if oc = 4 \<or> oc = 20 then Some (Branch CEq rs rt off False)
      else if oc = 5 \<or> oc = 21 then Some (Branch CNe rs rt off False)
      else if oc = 6 \<or> oc = 22 then Some (Branch CLez rs 0 off False)
      else if oc = 7 \<or> oc = 23 then Some (Branch CGtz rs 0 off False)
      else if (oc = 17 \<or> oc = 18) \<and> rs = 8 then Some CopBranch
      else if oc = 29 then Some JumpExchange
      else None)"

primrec isa_holds :: "cond \<Rightarrow> u32 \<Rightarrow> u32 \<Rightarrow> bool" where
  "isa_holds CEq v w \<longleftrightarrow> v = w"
| "isa_holds CNe v w \<longleftrightarrow> v \<noteq> w"
| "isa_holds CLez v w \<longleftrightarrow> sint v \<le> 0"
| "isa_holds CGtz v w \<longleftrightarrow> 0 < sint v"
| "isa_holds CLtz v w \<longleftrightarrow> sint v < 0"
| "isa_holds CGez v w \<longleftrightarrow> 0 \<le> sint v"

text \<open>A branch on integer registers has a target and a set of registers after it.\<close>

fun integer_branch :: "branch option \<Rightarrow> bool" where
  "integer_branch (Some (JumpReg rs lr)) = True"
| "integer_branch (Some (Jump idx link)) = True"
| "integer_branch (Some (Branch c rs rt off link)) = True"
| "integer_branch b = False"

fun isa_target :: "branch \<Rightarrow> u32 list \<Rightarrow> u32 \<Rightarrow> u32 option" where
  "isa_target (JumpReg rs lr) g pc = Some (g ! rs)"
| "isa_target (Jump idx link) g pc = Some (of_nat (unat (pc + 4) div 2 ^ 28 * 2 ^ 28 + 4 * idx))"
| "isa_target (Branch c rs rt off link) g pc = Some (if isa_holds c (g ! rs) (g ! rt) then pc + 4 + of_int off else pc + 8)"
| "isa_target b g pc = None"

fun isa_link :: "branch \<Rightarrow> nat option" where
  "isa_link (JumpReg rs lr) = (if lr = Some 0 then None else lr)"
| "isa_link (Jump idx link) = (if link then Some 31 else None)"
| "isa_link (Branch c rs rt off link) = (if link then Some 31 else None)"
| "isa_link b = None"

definition isa_regs :: "branch \<Rightarrow> u32 list \<Rightarrow> u32 \<Rightarrow> u32 list" where
  "isa_regs b g pc = (case isa_link b of None \<Rightarrow> g | Some r \<Rightarrow> g[r := pc + 8])"

text \<open>
  Where the code follows the manual: a jump is not the last word of its region of 256 MB, because the
  code takes the region of the jump and not of its delay slot; the link register of \<^verbatim>\<open>jalr\<close> is neither
  the source nor register 0; a register that \<^verbatim>\<open>blez\<close> or \<^verbatim>\<open>bgtz\<close> compares is not negative, because the
  code compares without sign; and a branch with link is taken and does not test the link register,
  because the code links only when the branch is taken.
\<close>

fun branch_regular :: "branch \<Rightarrow> u32 list \<Rightarrow> u32 \<Rightarrow> bool" where
  "branch_regular (JumpReg rs (Some lr)) g pc \<longleftrightarrow> lr \<noteq> rs \<and> lr \<noteq> 0"
| "branch_regular (Jump idx link) g pc \<longleftrightarrow> unat (pc + 4) div 2 ^ 28 = unat pc div 2 ^ 28"
| "branch_regular (Branch CLez rs rt off link) g pc \<longleftrightarrow> 0 \<le> sint (g ! rs)"
| "branch_regular (Branch CGtz rs rt off link) g pc \<longleftrightarrow> 0 \<le> sint (g ! rs)"
| "branch_regular (Branch c rs rt off True) g pc \<longleftrightarrow> rs \<noteq> 31 \<and> isa_holds c (g ! rs) (g ! rt)"
| "branch_regular b g pc \<longleftrightarrow> True"

lemma field_bits:
  "unat (OPCODE insn) = insn_bits 26 6 insn" "unat (R_RS insn) = insn_bits 21 5 insn" "unat (R_RD insn) = insn_bits 11 5 insn"
  "unat (R_FUNC insn) = insn_bits 0 6 insn" "unat (I_RS insn) = insn_bits 21 5 insn" "unat (I_RT insn) = insn_bits 16 5 insn"
  "unat (I_FUNC insn) = insn_bits 16 5 insn"
  unfolding field_defs field_masks insn_bits_def by (simp_all only: unat_and_mask) (simp_all add: unat_drop_bit_eq drop_bit_eq_div unat_div)

lemma reg_field_less [simp]: "insn_bits lo 5 insn < 32"
  by (simp add: insn_bits_def)

lemma mask16: "0xffff = (mask 16 :: u32)"
  by (simp add: mask_eq_exp_minus_1)

lemma signed_half:
  fixes k :: int
  assumes "0 \<le> k" "k < 65536"
  shows "(k + 32768) mod 65536 - 32768 = (if k < 32768 then k else k - 65536)"
proof (cases "k < 32768")
  case False
  have "(k + 32768) mod 65536 = (k - 32768 + 65536) mod 65536" by (simp add: add.commute)
  also have "\<dots> = k - 32768" using assms False by (simp only: mod_add_self2) simp
  finally show ?thesis using False by simp
qed (use assms in simp)

lemma offset_eq: "I_IOFFSET insn = of_int (isa_offset insn)"
proof -
  let ?w = "ucast insn :: u16"
  have w: "I_OFFSET insn = ?w" unfolding field_defs by (rule bit_word_eqI) (simp add: bit_simps mask16 bit_mask_iff)
  have u: "unat ?w = insn_bits 0 16 insn" by (simp add: insn_bits_def unsigned_ucast_eq take_bit_eq_mod)
  have "sint ?w = (int (insn_bits 0 16 insn) + 32768) mod 65536 - 32768"
    by (simp add: sint_uint signed_take_bit_eq_take_bit_shift take_bit_eq_mod u [symmetric])
  also have "\<dots> = (let imm = int (insn_bits 0 16 insn) in if imm < 32768 then imm else imm - 65536)"
    using signed_half [of "int (insn_bits 0 16 insn)"] by (simp add: Let_def insn_bits_def)
  finally have "isa_offset insn = 4 * sint ?w" by (simp add: isa_offset_def Let_def)
  then show ?thesis by (simp add: I_IOFFSET_def w push_bit_eq_mult mult.commute)
qed

lemma jump_eq:
  assumes "unat (pc + 4) div 2 ^ 28 = unat pc div 2 ^ 28"
  shows "(pc AND NOT J_ACTUAL_INDEX_MASK) OR J_INDEX insn = of_nat (unat (pc + 4) div 2 ^ 28 * 2 ^ 28 + 4 * insn_bits 0 26 insn)"
proof -
  have m: "J_ACTUAL_INDEX_MASK = mask 28" "J_INDEX_MASK = mask 26"
    by (simp_all add: field_defs push_bit_eq_mult mask_eq_exp_minus_1)
  have "(pc AND NOT (mask 28)) OR push_bit 2 (insn AND mask 26) = (pc AND NOT (mask 28)) + push_bit 2 (insn AND mask 26)"
    by (rule disjunctive_add [symmetric]) (auto simp: bit_simps bit_mask_iff)
  moreover have "unat (push_bit 2 (insn AND mask 26)) = 4 * insn_bits 0 26 insn"
  proof -
    have "unat (insn AND mask 26) = insn_bits 0 26 insn" by (simp only: unat_and_mask) (simp add: insn_bits_def)
    moreover have "4 * insn_bits 0 26 insn < 2 ^ 32" by (simp add: insn_bits_def less_mult_imp_div_less)
    ultimately show ?thesis by (simp add: push_bit_eq_mult unat_mult_lem [THEN iffD1] mult.commute)
  qed
  moreover have "unat (pc AND NOT (mask 28)) = unat (pc + 4) div 2 ^ 28 * 2 ^ 28" by (simp only: unat_and_not_mask assms)
  moreover have "x + y = of_nat (unat x + unat y)" for x y :: u32 by simp
  ultimately show ?thesis unfolding m J_INDEX_def by metis
qed

lemma field_values:
  "OPCODE insn = OP_SPECIAL \<longleftrightarrow> insn_bits 26 6 insn = 0" "OPCODE insn = OP_REGIMM \<longleftrightarrow> insn_bits 26 6 insn = 1"
  "OPCODE insn = OP_J \<longleftrightarrow> insn_bits 26 6 insn = 2" "OPCODE insn = OP_JAL \<longleftrightarrow> insn_bits 26 6 insn = 3"
  "OPCODE insn = OP_BEQ \<longleftrightarrow> insn_bits 26 6 insn = 4" "OPCODE insn = OP_BEQL \<longleftrightarrow> insn_bits 26 6 insn = 20"
  "OPCODE insn = OP_BNE \<longleftrightarrow> insn_bits 26 6 insn = 5" "OPCODE insn = OP_BNEL \<longleftrightarrow> insn_bits 26 6 insn = 21"
  "OPCODE insn = OP_BLEZ \<longleftrightarrow> insn_bits 26 6 insn = 6" "OPCODE insn = OP_BLEZL \<longleftrightarrow> insn_bits 26 6 insn = 22"
  "OPCODE insn = OP_BGTZ \<longleftrightarrow> insn_bits 26 6 insn = 7" "OPCODE insn = OP_BGTZL \<longleftrightarrow> insn_bits 26 6 insn = 23"
  "R_FUNC insn = FN_JR \<longleftrightarrow> insn_bits 0 6 insn = 8" "R_FUNC insn = FN_JALR \<longleftrightarrow> insn_bits 0 6 insn = 9"
  "I_FUNC insn = FN_BLTZ \<longleftrightarrow> insn_bits 16 5 insn = 0" "I_FUNC insn = FN_BLTZL \<longleftrightarrow> insn_bits 16 5 insn = 2"
  "I_FUNC insn = FN_BGEZ \<longleftrightarrow> insn_bits 16 5 insn = 1" "I_FUNC insn = FN_BGEZL \<longleftrightarrow> insn_bits 16 5 insn = 3"
  "I_FUNC insn = FN_BLTZAL \<longleftrightarrow> insn_bits 16 5 insn = 16" "I_FUNC insn = FN_BLTZALL \<longleftrightarrow> insn_bits 16 5 insn = 18"
  "I_FUNC insn = FN_BGEZAL \<longleftrightarrow> insn_bits 16 5 insn = 17" "I_FUNC insn = FN_BGEZALL \<longleftrightarrow> insn_bits 16 5 insn = 19"
  by (simp_all add: word_unat_eq_iff field_bits op_defs)

lemma gpr_access:
  "length (tf_gpr tf) = 32 \<Longrightarrow> unat r < 32 \<Longrightarrow> get_gpr tf r = Inr (tf_gpr tf ! unat r)"
  "length (tf_gpr tf) = 32 \<Longrightarrow> unat r < 32 \<Longrightarrow> set_gpr r v tf = Inr (tf\<lparr>tf_gpr := (tf_gpr tf)[unat r := v]\<rparr>)"
  by (simp_all add: get_gpr_def set_gpr_def)

lemma sint_eq_0: "sint v = 0 \<longleftrightarrow> v = 0" for v :: u32
  using signed_eq_0_iff [of v, where ?'a = int] by simp

lemma unsigned_zero: "0 \<le> sint v \<Longrightarrow> (v \<le> 0 \<longleftrightarrow> sint v \<le> 0) \<and> (0 < v \<longleftrightarrow> 0 < sint v)" for v :: u32
  using sint_eq_0 [of v] by (auto simp: word_neq_0_conv [symmetric] less_le)

section \<open>Properties\<close>

lemma branch_gpr:
  assumes "length (tf_gpr tf) = 32"
  shows "get_gpr tf (R_RS insn) = Inr (tf_gpr tf ! insn_bits 21 5 insn)" "get_gpr tf (I_RS insn) = Inr (tf_gpr tf ! insn_bits 21 5 insn)"
    "get_gpr tf (I_RT insn) = Inr (tf_gpr tf ! insn_bits 16 5 insn)"
    "set_gpr (R_RD insn) v tf = Inr (tf\<lparr>tf_gpr := (tf_gpr tf)[insn_bits 11 5 insn := v]\<rparr>)"
    "set_gpr RA v tf = Inr (tf\<lparr>tf_gpr := (tf_gpr tf)[31 := v]\<rparr>)"
    "get_gpr (tf\<lparr>tf_gpr := (tf_gpr tf)[r := v]\<rparr>) (R_RS insn) = Inr ((tf_gpr tf)[r := v] ! insn_bits 21 5 insn)"
    "get_gpr (tf\<lparr>tf_gpr := (tf_gpr tf)[r := v]\<rparr>) (I_RS insn) = Inr ((tf_gpr tf)[r := v] ! insn_bits 21 5 insn)"
  using assms by (simp_all add: gpr_access field_bits RA_def)

text \<open>
  C12. \<open>__branch_target\<close> against the MIPS manual. For a jump or branch on integer registers that is
  \<open>branch_regular\<close>, the address it returns is the one where the processor continues, and the registers of
  the frame are those after the branch, with the link register set. What is not regular is listed
  there, and \<open>branch_target_deviates\<close> shows what the code does instead for two of the cases.
\<close>

theorem branch_target_isa:
  assumes tf: "length (tf_gpr tf) = 32" and i: "read_insn m pc = Inr insn"
    and b: "isa_branch insn = Some b" "isa_target b (tf_gpr tf) pc = Some target" "branch_regular b (tf_gpr tf) pc"
  shows "branch_target m tf pc = Inr (target, tf\<lparr>tf_gpr := isa_regs b (tf_gpr tf) pc\<rparr>)"
proof -
  have off: "pc + I_IOFFSET insn + 4 = pc + 4 + of_int (isa_offset insn)" by (simp add: offset_eq)
  show ?thesis
    using b
    by (simp only: isa_branch_def Let_def split: if_split_asm; (elim disjE conjE)?)
       (auto simp: tf branch_target_def i Let_def field_values branch_gpr off jump_eq branch_if_def isa_regs_def word_sless_alt word_sle_eq
          unsigned_zero sint_eq_0 nth_list_update split: option.splits if_splits)
qed

text \<open>
  Two of the cases in which the code does not follow the manual: \<^verbatim>\<open>blez\<close> of a negative register is
  taken, but the code continues after it, and \<^verbatim>\<open>bltzal\<close> of a register that is not negative links, but the code
  leaves the link register as it was.
\<close>

theorem branch_target_deviates:
  assumes tf: "length (tf_gpr tf) = 32" and i: "read_insn m pc = Inr insn"
  shows "isa_branch insn = Some (Branch CLez rs rt off False) \<Longrightarrow> sint (tf_gpr tf ! rs) < 0 \<Longrightarrow>
      branch_target m tf pc = Inr (pc + 8, tf) \<and> isa_target (Branch CLez rs rt off False) (tf_gpr tf) pc = Some (pc + 4 + of_int off)"
    and "isa_branch insn = Some (Branch CLtz rs rt off True) \<Longrightarrow> 0 \<le> sint (tf_gpr tf ! rs) \<Longrightarrow>
      branch_target m tf pc = Inr (pc + 8, tf) \<and> isa_regs (Branch CLtz rs rt off True) (tf_gpr tf) pc = (tf_gpr tf)[31 := pc + 8]"
proof -
  assume b: "isa_branch insn = Some (Branch CLez rs rt off False)" "sint (tf_gpr tf ! rs) < 0"
  then have v: "\<not> tf_gpr tf ! rs \<le> 0" by auto
  have "(insn_bits 26 6 insn = 6 \<or> insn_bits 26 6 insn = 22) \<and> rs = insn_bits 21 5 insn"
    using b(1) by (auto simp: isa_branch_def Let_def split: if_split_asm)
  with v show "branch_target m tf pc = Inr (pc + 8, tf) \<and> isa_target (Branch CLez rs rt off False) (tf_gpr tf) pc = Some (pc + 4 + of_int off)"
    using b(2) by (elim conjE disjE; simp add: branch_target_def i Let_def field_values branch_gpr tf branch_if_def)
next
  assume b: "isa_branch insn = Some (Branch CLtz rs rt off True)" "0 \<le> sint (tf_gpr tf ! rs)"
  have "insn_bits 26 6 insn = 1 \<and> (insn_bits 16 5 insn = 16 \<or> insn_bits 16 5 insn = 18) \<and> rs = insn_bits 21 5 insn"
    using b(1) by (auto simp: isa_branch_def Let_def split: if_split_asm)
  with b(2) show "branch_target m tf pc = Inr (pc + 8, tf) \<and> isa_regs (Branch CLtz rs rt off True) (tf_gpr tf) pc = (tf_gpr tf)[31 := pc + 8]"
    by (elim conjE disjE; simp add: branch_target_def i Let_def field_values branch_gpr tf branch_if_def isa_regs_def word_sless_alt)
qed

text \<open>A frame and an instruction \<^verbatim>\<open>beq $1, $2, 3\<close>.\<close>

definition frame_example :: "u32 \<Rightarrow> trapframe" where
  "frame_example cause = \<lparr>tf_gpr = replicate 32 7, tf_lo = 0, tf_hi = 0, tf_status = 0xff13, tf_cause = cause,
     tf_epc = 0x400, tf_badvaddr = 0\<rparr>"

lemma insn_example: "isa_branch 0x10220003 = Some (Branch CEq 1 2 12 False)"
  by (simp add: isa_branch_def insn_bits_def isa_offset_def Let_def)

lemma read_insn_example: "read_insn [0x400 \<mapsto> w] 0x400 = Inr w"
  by (simp add: read_insn_def lw_def)

theorem branch_target_isa_witness:
  "branch_target [0x400 \<mapsto> 0x10220003] (frame_example 0) 0x400 = Inr (0x410, frame_example 0) \<and>
   branch_target [0x400 \<mapsto> 0x04310003] (frame_example 0) 0x400 = Inr (0x410, (frame_example 0)\<lparr>tf_gpr := (replicate 32 7)[31 := 0x408]\<rparr>)"
proof -
  have "isa_branch 0x04310003 = Some (Branch CGez 1 0 12 True)"
    by (simp add: isa_branch_def insn_bits_def isa_offset_def Let_def)
  from branch_target_isa [OF _ read_insn_example this, of "frame_example 0"]
    branch_target_isa [OF _ read_insn_example insn_example, of "frame_example 0"]
  show ?thesis by (simp add: frame_example_def isa_regs_def)
qed

text \<open>
  C28. \<open>__branch_target\<close> panics exactly on the words that are not one of the jumps and branches on integer
  registers. So it panics on the branches of the coprocessors and on \<^verbatim>\<open>jalx\<close>, which the manual counts among
  the branches.
\<close>

theorem branch_target_panics:
  assumes tf: "length (tf_gpr tf) = 32" and i: "read_insn m pc = Inr insn"
  shows "branch_target m tf pc = Inl Panic \<longleftrightarrow> \<not> integer_branch (isa_branch insn)"
  by (simp add: branch_target_def i isa_branch_def Let_def field_values gpr_access tf field_bits branch_if_def RA_def)

theorem branch_target_panics_witness:
  "branch_target [0x400 \<mapsto> 0] (frame_example 0) 0x400 = Inl Panic \<and> branch_target [0x400 \<mapsto> 0x45010003] (frame_example 0) 0x400 = Inl Panic \<and>
   isa_branch 0x45010003 = Some CopBranch"
proof -
  have w: "isa_branch 0 = None" "isa_branch 0x45010003 = Some CopBranch" by (simp_all add: isa_branch_def insn_bits_def Let_def)
  then show ?thesis
    using branch_target_panics [OF _ read_insn_example, of "frame_example 0" 0] branch_target_panics [OF _ read_insn_example, of "frame_example 0" "0x45010003"]
    by (simp add: frame_example_def)
qed

lemma branch_target_length:
  assumes "length (tf_gpr tf) = 32" "read_insn m pc = Inr insn"
  shows "if integer_branch (isa_branch insn)
    then \<exists>pc' g. branch_target m tf pc = Inr (pc', tf\<lparr>tf_gpr := g\<rparr>) \<and> length g = 32
    else branch_target m tf pc = Inl Panic"
proof -
  have "if integer_branch (isa_branch insn)
    then \<exists>pc' tf'. branch_target m tf pc = Inr (pc', tf') \<and> tf' = tf\<lparr>tf_gpr := tf_gpr tf'\<rparr> \<and> length (tf_gpr tf') = 32
    else branch_target m tf pc = Inl Panic"
    using assms(1) by (simp add: branch_target_def assms(2) isa_branch_def Let_def field_values gpr_access field_bits branch_if_def RA_def)
  then show ?thesis by (metis (no_types))
qed

lemma trap_return_status:
  assumes "trap_return tf c = (tf', c')"
  shows "tf_gpr tf' = tf_gpr tf" "tf_status tf' AND ST_IM = read_c0 C0_status c AND ST_IM"
    "tf_status tf' AND NOT ST_IM = tf_status tf AND NOT ST_IM" "read_c0 C0_status c' AND ST_EXCM = 0"
proof -
  have r: "tf' = tf\<lparr>tf_status := (tf_status tf AND NOT ST_IM) OR (read_c0 C0_status c AND ST_IM)\<rparr>"
    "c' = write_c0 C0_status (read_c0 C0_status c AND NOT ST_EXCM) c"
    using assms by (simp_all add: trap_return_def Let_def)
  show "tf_gpr tf' = tf_gpr tf" by (simp add: r)
  show "tf_status tf' AND ST_IM = read_c0 C0_status c AND ST_IM" "tf_status tf' AND NOT ST_IM = tf_status tf AND NOT ST_IM"
    by (simp_all add: r, (rule bit_word_eqI, auto simp: bit_simps)+)
  show "read_c0 C0_status c' AND ST_EXCM = 0" by (simp add: r, rule bit_word_eqI, auto simp: bit_simps)
qed

lemma and_or_im: "(x OR ST_IE) AND ST_IM = x AND ST_IM"
proof -
  have "ST_IE AND ST_IM = 0" by (simp add: cp0_defs)
  then show ?thesis by (simp add: bit.conj_disj_distrib2)
qed



end
