(* ===== verification/TrapEntry.thy ===== *)
theory TrapEntry
  imports Trap
begin

unbundle bit_operations_syntax

text \<open>
  The assembly code around the trap handler, \<^verbatim>\<open>src/kern/arch/mips/trapentry.S\<close> with the macros of
  \<^verbatim>\<open>src/include/arch/mips/stack.h\<close>, as sequences of instructions on the registers and the memory.
\<close>

section \<open>Instructions\<close>

text \<open>The numbers of the general registers.\<close>

abbreviation (input) r_zero :: nat where "r_zero \<equiv> 0"
abbreviation (input) r_at :: nat where "r_at \<equiv> 1"
abbreviation (input) r_v0 :: nat where "r_v0 \<equiv> 2"
abbreviation (input) r_v1 :: nat where "r_v1 \<equiv> 3"
abbreviation (input) r_a0 :: nat where "r_a0 \<equiv> 4"
abbreviation (input) r_a1 :: nat where "r_a1 \<equiv> 5"
abbreviation (input) r_a2 :: nat where "r_a2 \<equiv> 6"
abbreviation (input) r_a3 :: nat where "r_a3 \<equiv> 7"
abbreviation (input) r_t0 :: nat where "r_t0 \<equiv> 8"
abbreviation (input) r_t1 :: nat where "r_t1 \<equiv> 9"
abbreviation (input) r_t2 :: nat where "r_t2 \<equiv> 10"
abbreviation (input) r_t3 :: nat where "r_t3 \<equiv> 11"
abbreviation (input) r_t4 :: nat where "r_t4 \<equiv> 12"
abbreviation (input) r_t5 :: nat where "r_t5 \<equiv> 13"
abbreviation (input) r_t6 :: nat where "r_t6 \<equiv> 14"
abbreviation (input) r_t7 :: nat where "r_t7 \<equiv> 15"
abbreviation (input) r_s0 :: nat where "r_s0 \<equiv> 16"
abbreviation (input) r_s1 :: nat where "r_s1 \<equiv> 17"
abbreviation (input) r_s2 :: nat where "r_s2 \<equiv> 18"
abbreviation (input) r_s3 :: nat where "r_s3 \<equiv> 19"
abbreviation (input) r_s4 :: nat where "r_s4 \<equiv> 20"
abbreviation (input) r_s5 :: nat where "r_s5 \<equiv> 21"
abbreviation (input) r_s6 :: nat where "r_s6 \<equiv> 22"
abbreviation (input) r_s7 :: nat where "r_s7 \<equiv> 23"
abbreviation (input) r_t8 :: nat where "r_t8 \<equiv> 24"
abbreviation (input) r_t9 :: nat where "r_t9 \<equiv> 25"
abbreviation (input) r_k0 :: nat where "r_k0 \<equiv> 26"
abbreviation (input) r_k1 :: nat where "r_k1 \<equiv> 27"
abbreviation (input) r_gp :: nat where "r_gp \<equiv> 28"
abbreviation (input) r_sp :: nat where "r_sp \<equiv> 29"
abbreviation (input) r_s8 :: nat where "r_s8 \<equiv> 30"
abbreviation (input) r_ra :: nat where "r_ra \<equiv> 31"

record cpu =
  cpu_reg :: "nat \<Rightarrow> u32"
  cpu_lo :: u32
  cpu_hi :: u32
  cpu_pc :: u32
  cpu_cp0 :: cp0

type_synonym asm = "cpu \<times> word_mem \<Rightarrow> (cpu \<times> word_mem) res"

definition get_reg :: "nat \<Rightarrow> cpu \<Rightarrow> u32" where
  "get_reg r c = (if r = 0 then 0 else cpu_reg c r)"

definition set_reg :: "nat \<Rightarrow> u32 \<Rightarrow> cpu \<Rightarrow> cpu" where
  "set_reg r v c = (if r = 0 then c else c\<lparr>cpu_reg := (cpu_reg c)(r := v)\<rparr>)"

primrec seq :: "asm list \<Rightarrow> asm" where
  "seq [] s = Inr s"
| "seq (i # is) s = and_then (i s) (seq is)"

text \<open>An instruction that computes a register from the registers.\<close>

definition compute :: "nat \<Rightarrow> (cpu \<Rightarrow> u32) \<Rightarrow> asm" where
  "compute r f = (\<lambda>(c, m). Inr (set_reg r (f c) c, m))"

definition ADDU :: "nat \<Rightarrow> u32 \<Rightarrow> asm" where "ADDU r i = compute r (\<lambda>c. get_reg r c + i)"
definition SUBU :: "nat \<Rightarrow> u32 \<Rightarrow> asm" where "SUBU r i = compute r (\<lambda>c. get_reg r c - i)"
definition MOVE :: "nat \<Rightarrow> nat \<Rightarrow> asm" where "MOVE r s = compute r (get_reg s)"
definition MFC0 :: "nat \<Rightarrow> c0_name \<Rightarrow> asm" where "MFC0 r n = compute r (\<lambda>c. read_c0 n (cpu_cp0 c))"
definition MFHI :: "nat \<Rightarrow> asm" where "MFHI r = compute r cpu_hi"
definition MFLO :: "nat \<Rightarrow> asm" where "MFLO r = compute r cpu_lo"

definition MTC0 :: "nat \<Rightarrow> c0_name \<Rightarrow> asm" where
  "MTC0 r n = (\<lambda>(c, m). Inr (c\<lparr>cpu_cp0 := write_c0 n (get_reg r c) (cpu_cp0 c)\<rparr>, m))"

definition MTHI :: "nat \<Rightarrow> asm" where "MTHI r = (\<lambda>(c, m). Inr (c\<lparr>cpu_hi := get_reg r c\<rparr>, m))"
definition MTLO :: "nat \<Rightarrow> asm" where "MTLO r = (\<lambda>(c, m). Inr (c\<lparr>cpu_lo := get_reg r c\<rparr>, m))"

definition LOAD :: "nat \<Rightarrow> nat \<Rightarrow> asm" where
  "LOAD r b = (\<lambda>(c, m). and_then (lw m (get_reg b c)) (\<lambda>v. Inr (set_reg r v c, m)))"

definition STORE :: "nat \<Rightarrow> nat \<Rightarrow> asm" where
  "STORE r b = (\<lambda>(c, m). and_then (sw m (get_reg b c) (get_reg r c)) (\<lambda>m. Inr (c, m)))"

text \<open>Outside an error the return from an exception leaves the exception level.\<close>

definition eret :: asm where
  "eret = (\<lambda>(c, m). let st = read_c0 C0_status (cpu_cp0 c) in
     if st AND ST_ERL \<noteq> 0
     then Inr (c\<lparr>cpu_pc := read_c0 C0_errorepc (cpu_cp0 c), cpu_cp0 := write_c0 C0_status (st AND NOT ST_ERL) (cpu_cp0 c)\<rparr>, m)
     else Inr (c\<lparr>cpu_pc := read_c0 C0_epc (cpu_cp0 c), cpu_cp0 := write_c0 C0_status (st AND NOT ST_EXL) (cpu_cp0 c)\<rparr>, m))"

section \<open>Macros\<close>

definition PUSH :: "nat \<Rightarrow> asm" where "PUSH r = seq [SUBU r_sp (of_nat WORD_SIZE), STORE r r_sp]"
definition POP :: "nat \<Rightarrow> asm" where "POP r = seq [LOAD r r_sp, ADDU r_sp (of_nat WORD_SIZE)]"

definition PUSHSTATIC :: asm where
  "PUSHSTATIC = seq (map PUSH [r_s7, r_s6, r_s5, r_s4, r_s3, r_s2, r_s1, r_s0])"

definition POPSTATIC :: asm where
  "POPSTATIC = seq (map POP [r_s0, r_s1, r_s2, r_s3, r_s4, r_s5, r_s6, r_s7])"

definition PUSHTEMP :: asm where
  "PUSHTEMP = seq (map PUSH [r_t7, r_t6, r_t5, r_t4, r_t3, r_t2, r_t1, r_t0])"

definition POPTEMP :: asm where
  "POPTEMP = seq (map POP [r_t0, r_t1, r_t2, r_t3, r_t4, r_t5, r_t6, r_t7])"

definition PUSHARGS :: asm where
  "PUSHARGS = seq (map PUSH [r_a3, r_a2, r_a1, r_a0, r_v1, r_v0, r_at, r_zero])"

definition POPARGS :: asm where
  "POPARGS = seq (map POP [r_at, r_at, r_v0, r_v1, r_a0, r_a1, r_a2, r_a3])"

definition PUSHAL :: asm where "PUSHAL = seq [PUSHSTATIC, PUSHTEMP, PUSHARGS]"
definition POPAL :: asm where "POPAL = seq [POPARGS, POPTEMP, POPSTATIC]"

definition PUSHCOPR :: "nat \<Rightarrow> asm" where
  "PUSHCOPR r = seq [MFC0 r C0_badvaddr, PUSH r, MFC0 r C0_epc, PUSH r, MFC0 r C0_cause, PUSH r, MFC0 r C0_status, PUSH r,
     MFHI r, PUSH r, MFLO r, PUSH r]"

definition POPCOPR :: "nat \<Rightarrow> asm" where
  "POPCOPR r = seq [POP r, MTLO r, POP r, MTHI r, POP r, MTC0 r C0_status, POP r, MTC0 r C0_cause, POP r, MTC0 r C0_epc,
     POP r, MTC0 r C0_badvaddr]"

text \<open>\<open>kernelsp\<close> is the address of the array of the saved stack pointers.\<close>

definition get_saved_sp :: "u32 \<Rightarrow> nat \<Rightarrow> nat \<Rightarrow> asm" where
  "get_saved_sp kernelsp reg temp = seq [
     MFC0 temp C0_ebase, compute temp (\<lambda>c. get_reg temp c AND EBASE_CPUNUM_MASK), compute temp (\<lambda>c. push_bit 2 (get_reg temp c)),
     compute reg (\<lambda>_. kernelsp), compute reg (\<lambda>c. get_reg reg c + get_reg temp c), LOAD reg reg]"

text \<open>Stacks in the other directions.\<close>

definition PUSHUF :: "nat \<Rightarrow> nat \<Rightarrow> asm" where "PUSHUF r b = seq [ADDU b (of_nat WORD_SIZE), STORE r b]"
definition PUSHDF :: "nat \<Rightarrow> nat \<Rightarrow> asm" where "PUSHDF r b = seq [SUBU b (of_nat WORD_SIZE), STORE r b]"
definition POPUF :: "nat \<Rightarrow> nat \<Rightarrow> asm" where "POPUF r b = seq [LOAD r b, ADDU b (of_nat WORD_SIZE)]"
definition POPDF :: "nat \<Rightarrow> nat \<Rightarrow> asm" where "POPDF r b = seq [LOAD r b, SUBU b (of_nat WORD_SIZE)]"
definition PUSHUE :: "nat \<Rightarrow> nat \<Rightarrow> asm" where "PUSHUE r b = seq [STORE r b, ADDU b (of_nat WORD_SIZE)]"
definition PUSHDE :: "nat \<Rightarrow> nat \<Rightarrow> asm" where "PUSHDE r b = seq [STORE r b, SUBU b (of_nat WORD_SIZE)]"
definition POPUE :: "nat \<Rightarrow> nat \<Rightarrow> asm" where "POPUE r b = seq [ADDU b (of_nat WORD_SIZE), LOAD r b]"
definition POPDE :: "nat \<Rightarrow> nat \<Rightarrow> asm" where "POPDE r b = seq [SUBU b (of_nat WORD_SIZE), LOAD r b]"

section \<open>Entry and exit\<close>

text \<open>The stub that is copied to the exception vector; \<open>entry\<close> is the address of the second part.\<close>

definition generic_exception_entry :: "u32 \<Rightarrow> asm" where
  "generic_exception_entry entry = seq [
     MFC0 r_k0 C0_ebase, compute r_k0 (\<lambda>c. get_reg r_k0 c AND EBASE_CPUNUM_MASK), compute r_k0 (\<lambda>_. entry)]"

definition exception_entry :: "u32 \<Rightarrow> u32 \<Rightarrow> asm" where
  "exception_entry kernelsp gp = seq [
     MFC0 r_k0 C0_status, compute r_k0 (\<lambda>c. get_reg r_k0 c AND ST_KSU), MOVE r_k1 r_sp,
     (\<lambda>(c, m). if get_reg r_k0 c = 0 then Inr (c, m) else get_saved_sp kernelsp r_sp r_k0 (c, m)),
     PUSHCOPR r_k0, PUSH r_ra, PUSH r_s8, PUSH r_k1, PUSH r_gp, PUSH r_k1, PUSH r_k0, PUSH r_t9, PUSH r_t8, PUSHAL,
     MFC0 r_k0 C0_status, compute r_k0 (\<lambda>c. get_reg r_k0 c OR ST_EXCM), compute r_k0 (\<lambda>c. get_reg r_k0 c XOR ST_EXCM),
     MTC0 r_k0 C0_status, MOVE r_a0 r_sp, compute r_gp (\<lambda>_. gp), SUBU r_sp 16]"

definition trap_exit :: asm where
  "trap_exit = seq [
     MOVE r_sp r_a0, POPAL, POP r_t8, POP r_t9, POP r_k0, POP r_k1, POP r_gp, POP r_k0, POP r_s8, POP r_ra,
     POPCOPR r_k1, MOVE r_sp r_k0, eret]"

text \<open>The structure \<^verbatim>\<open>struct trapframe\<close> in memory.\<close>

primrec load_words :: "word_mem \<Rightarrow> ptr \<Rightarrow> nat \<Rightarrow> u32 list res" where
  "load_words m a 0 = Inr []"
| "load_words m a (Suc n) = and_then (lw m a) (\<lambda>v. and_then (load_words m (a + 4) n) (\<lambda>vs. Inr (v # vs)))"

primrec store_words :: "ptr \<Rightarrow> u32 list \<Rightarrow> word_mem \<Rightarrow> word_mem res" where
  "store_words a [] m = Inr m"
| "store_words a (v # vs) m = and_then (sw m a v) (store_words (a + 4) vs)"

definition load_frame :: "word_mem \<Rightarrow> ptr \<Rightarrow> trapframe res" where
  "load_frame m a = and_then (load_words m a 38) (\<lambda>ws.
     Inr \<lparr>tf_gpr = take 32 ws, tf_lo = ws ! 32, tf_hi = ws ! 33, tf_status = ws ! 34, tf_cause = ws ! 35, tf_epc = ws ! 36,
       tf_badvaddr = ws ! 37\<rparr>)"

definition frame_words :: "trapframe \<Rightarrow> u32 list" where
  "frame_words tf = tf_gpr tf @ [tf_lo tf, tf_hi tf, tf_status tf, tf_cause tf, tf_epc tf, tf_badvaddr tf]"

definition store_frame :: "ptr \<Rightarrow> trapframe \<Rightarrow> word_mem \<Rightarrow> word_mem res" where
  "store_frame a tf = store_words a (frame_words tf)"

text \<open>
  A trap from the exception vector to the return: the stub, the entry, the handler on the frame the
  entry has pushed, and the exit. The compiled handler may leave anything in the registers when
  it calls \<^verbatim>\<open>trap_exit\<close>, so these are an argument; the argument register holds the frame.
\<close>

definition take_trap :: "u32 \<Rightarrow> u32 \<Rightarrow> u32 \<Rightarrow> (nat \<Rightarrow> u32) \<Rightarrow> asm" where
  "take_trap entry kernelsp gp regs s =
     and_then (seq [generic_exception_entry entry, exception_entry kernelsp gp] s) (\<lambda>(c, m).
     let a = get_reg r_a0 c in
     and_then (load_frame m a) (\<lambda>tf.
     and_then (trap_handler m tf (cpu_cp0 c)) (\<lambda>(tf, cp).
     and_then (store_frame a tf m) (\<lambda>m.
     trap_exit (c\<lparr>cpu_reg := regs(r_a0 := a), cpu_cp0 := cp\<rparr>, m)))))"

section \<open>Lemmas\<close>

lemma seq_append: "seq (xs @ ys) s = and_then (seq xs s) (seq ys)"
  by (induction xs arbitrary: s) (auto simp: and_then_def split: sum.splits)

lemma get_set_reg [simp]: "get_reg r (set_reg r' v c) = (if r = r' \<and> r \<noteq> 0 then v else get_reg r c)"
  by (simp add: get_reg_def set_reg_def)

lemma set_reg_sel [simp]:
  "cpu_lo (set_reg r v c) = cpu_lo c" "cpu_hi (set_reg r v c) = cpu_hi c" "cpu_pc (set_reg r v c) = cpu_pc c"
  "cpu_cp0 (set_reg r v c) = cpu_cp0 c"
  by (simp_all add: set_reg_def)

lemma get_reg_upd [simp]:
  "get_reg r (c\<lparr>cpu_lo := v\<rparr>) = get_reg r c" "get_reg r (c\<lparr>cpu_hi := v\<rparr>) = get_reg r c"
  "get_reg r (c\<lparr>cpu_pc := v\<rparr>) = get_reg r c" "get_reg r (c\<lparr>cpu_cp0 := w\<rparr>) = get_reg r c"
  by (simp_all add: get_reg_def)

lemma set_reg_twice: "set_reg r v (set_reg r w c) = set_reg r v c"
  by (simp add: set_reg_def)

lemma set_reg_commute: "r \<noteq> r' \<Longrightarrow> set_reg r v (set_reg r' w c) = set_reg r' w (set_reg r v c)"
  by (simp add: set_reg_def fun_upd_twist)

abbreviation aligned4 :: "ptr \<Rightarrow> bool" where
  "aligned4 a \<equiv> a AND 3 = 0"

lemma aligned4_iff: "aligned4 a \<longleftrightarrow> 4 dvd unat a"
proof -
  have "a AND 3 = a AND mask 2" by (simp add: mask_eq_exp_minus_1)
  then have "unat (a AND 3) = unat a mod 4" by (simp only: unat_and_mask) simp
  then show ?thesis by (simp add: word_unat_eq_iff dvd_eq_mod_eq_0)
qed

lemma aligned4_add: "aligned4 a \<Longrightarrow> aligned4 (a + 4 * k)"
  unfolding aligned4_iff by (simp add: unat_word_ariths dvd_mod_iff)

lemma aligned4_diff: "aligned4 a \<Longrightarrow> aligned4 (a - 4 * k)"
  using aligned4_add [of a "- k"] by simp

text \<open>The words that pushing values stores, and words at consecutive addresses.\<close>

primrec stores :: "ptr \<Rightarrow> u32 list \<Rightarrow> word_mem \<Rightarrow> word_mem" where
  "stores sp [] m = m"
| "stores sp (v # vs) m = stores (sp - 4) vs (m(sp - 4 \<mapsto> v))"

definition frame_at :: "word_mem \<Rightarrow> ptr \<Rightarrow> u32 list \<Rightarrow> bool" where
  "frame_at m a vs \<longleftrightarrow> (\<forall>i<length vs. m (a + 4 * of_nat i) = Some (vs ! i))"

text \<open>There is room for some words below an address.\<close>

definition room :: "word_mem \<Rightarrow> ptr \<Rightarrow> nat \<Rightarrow> bool" where
  "room m sp n \<longleftrightarrow> aligned4 sp \<and> (\<forall>i<n. m (sp - 4 - 4 * of_nat i) \<noteq> None)"

lemma room_step:
  assumes "room m sp (Suc n)"
  shows "aligned4 (sp - 4)" "m (sp - 4) \<noteq> None" "room (m(sp - 4 \<mapsto> v)) (sp - 4) n"
proof -
  show al: "aligned4 (sp - 4)" using assms aligned4_diff [of sp 1] by (simp add: room_def)
  show "m (sp - 4) \<noteq> None" using assms by (auto simp: room_def dest!: spec [of _ 0])
  have "m (sp - 4 - 4 - 4 * of_nat i) \<noteq> None" if "i < n" for i
    using assms that by (auto simp: room_def algebra_simps dest!: spec [of _ "Suc i"])
  with al show "room (m(sp - 4 \<mapsto> v)) (sp - 4) n" by (simp add: room_def)
qed

lemma push_run:
  assumes "room m (get_reg r_sp c) (Suc n)" "r \<noteq> r_sp"
  shows "PUSH r (c, m) = Inr (set_reg r_sp (get_reg r_sp c - 4) c, m(get_reg r_sp c - 4 \<mapsto> get_reg r c))"
  using room_step [OF assms(1)] assms(2) by (auto simp: PUSH_def SUBU_def compute_def STORE_def sw_def WORD_SIZE_def)

lemma pushes_run:
  assumes "room m (get_reg r_sp c) (length rs + n)" "r_sp \<notin> set rs"
  shows "seq (map PUSH rs) (c, m) =
      Inr (set_reg r_sp (get_reg r_sp c - 4 * of_nat (length rs)) c, stores (get_reg r_sp c) (map (\<lambda>r. get_reg r c) rs) m) \<and>
    room (stores (get_reg r_sp c) (map (\<lambda>r. get_reg r c) rs) m) (get_reg r_sp c - 4 * of_nat (length rs)) n"
  using assms
proof (induction rs arbitrary: c m)
  case Nil
  have "set_reg r_sp (get_reg r_sp c) c = c" by (simp add: set_reg_def get_reg_def)
  with Nil show ?case by simp
next
  case (Cons r rs)
  let ?c = "set_reg r_sp (get_reg r_sp c - 4) c" and ?m = "m(get_reg r_sp c - 4 \<mapsto> get_reg r c)"
  have step: "PUSH r (c, m) = Inr (?c, ?m)" "room ?m (get_reg r_sp ?c) (length rs + n)"
    using push_run [of m c "length rs + n" r] room_step(3) [of m "get_reg r_sp c" "length rs + n"] Cons.prems by auto
  have vals: "map (\<lambda>r. get_reg r ?c) rs = map (\<lambda>r. get_reg r c) rs" using Cons.prems(2) by auto
  have sp: "get_reg r_sp ?c = get_reg r_sp c - 4" by simp
  have addr: "get_reg r_sp c - 4 - 4 * of_nat (length rs) = get_reg r_sp c - 4 * of_nat (length (r # rs))" by (simp add: algebra_simps)
  have "r_sp \<notin> set rs" using Cons.prems(2) by simp
  from Cons.IH [OF step(2) this] show ?case unfolding vals sp addr set_reg_twice by (simp only: list.map seq.simps step(1) and_then_simps stores.simps)
qed

lemma stores_append: "stores sp (vs @ ws) m = stores (sp - 4 * of_nat (length vs)) ws (stores sp vs m)"
  by (induction vs arbitrary: sp m) (simp_all add: algebra_simps)

lemma word_index: "i < 2 ^ 30 \<Longrightarrow> j < 2 ^ 30 \<Longrightarrow> 4 * of_nat i = (4 * of_nat j :: u32) \<longleftrightarrow> i = j"
proof -
  have u: "unat (4 * of_nat i :: u32) = 4 * i" if "i < 2 ^ 30" for i
  proof -
    have e: "4 * of_nat i = (of_nat (4 * i) :: u32)" by simp
    show ?thesis unfolding e by (rule unat_of_nat_u32) (use that in simp)
  qed
  show "i < 2 ^ 30 \<Longrightarrow> j < 2 ^ 30 \<Longrightarrow> 4 * of_nat i = (4 * of_nat j :: u32) \<longleftrightarrow> i = j"
    using u [of i] u [of j] by (metis mult_cancel1 zero_neq_numeral)
qed

lemma stores_frame:
  assumes "length vs < 2 ^ 30"
  shows "frame_at (stores sp vs m) (sp - 4 * of_nat (length vs)) (rev vs) \<and>
    (\<forall>a. (\<forall>i<length vs. a \<noteq> sp - 4 - 4 * of_nat i) \<longrightarrow> stores sp vs m a = m a)"
  using assms
proof (induction vs arbitrary: sp m)
  case (Cons v vs)
  let ?m = "m(sp - 4 \<mapsto> v)" and ?n = "length vs"
  have IH: "frame_at (stores (sp - 4) vs ?m) (sp - 4 - 4 * of_nat ?n) (rev vs)"
    "\<And>a. (\<forall>i<?n. a \<noteq> sp - 4 - 4 - 4 * of_nat i) \<Longrightarrow> stores (sp - 4) vs ?m a = ?m a"
    using Cons.IH [of "sp - 4" ?m] Cons.prems by (auto simp del: fun_upd_apply)
  have "sp - 4 \<noteq> sp - 4 - 4 - 4 * of_nat i" if "i < ?n" for i
    using word_index [of 0 "Suc i"] Cons.prems that by (auto simp: algebra_simps)
  with IH(2) have top: "stores (sp - 4) vs ?m (sp - 4) = Some v" by simp
  have "frame_at (stores (sp - 4) vs ?m) (sp - 4 - 4 * of_nat ?n) (rev vs @ [v])"
    unfolding frame_at_def
  proof (intro allI impI)
    fix i assume "i < length (rev vs @ [v])"
    then show "stores (sp - 4) vs ?m (sp - 4 - 4 * of_nat ?n + 4 * of_nat i) = Some ((rev vs @ [v]) ! i)"
      using IH(1) top by (cases "i < ?n") (auto simp: frame_at_def nth_append less_Suc_eq)
  qed
  moreover have "stores (sp - 4) vs ?m a = m a" if "\<forall>i<Suc ?n. a \<noteq> sp - 4 - 4 * of_nat i" for a
  proof -
    have "a \<noteq> sp - 4" using that by (auto dest!: spec [of _ 0])
    moreover have "a \<noteq> sp - 4 - 4 - 4 * of_nat i" if "i < ?n" for i
      using \<open>\<forall>i<Suc ?n. _\<close> that by (auto simp: algebra_simps dest!: spec [of _ "Suc i"])
    ultimately show ?thesis using IH(2) [of a] by simp
  qed
  ultimately show ?case by (simp add: algebra_simps)
qed (simp add: frame_at_def)

lemma and_then_assoc: "and_then (and_then a f) g = and_then a (\<lambda>x. and_then (f x) g)"
  by (cases a) simp_all

lemma and_then_Inr: "and_then a Inr = a"
  by (cases a) simp_all

lemma seq_fun: "seq [] = Inr" "seq (i # is) = (\<lambda>s. and_then (i s) (seq is))"
  by (simp_all add: fun_eq_iff)

text \<open>Values that are moved to a register and pushed.\<close>

lemma moves_run:
  assumes "room m (get_reg r_sp c) (length fs + n)" "r \<noteq> r_sp" "r \<noteq> 0" "fs \<noteq> []"
    and "\<And>f x v c. f \<in> set fs \<Longrightarrow> f (set_reg x v c) = f c"
  shows "seq (concat (map (\<lambda>f. [compute r f, PUSH r]) fs)) (c, m) =
      Inr (set_reg r_sp (get_reg r_sp c - 4 * of_nat (length fs)) (set_reg r (last fs c) c), stores (get_reg r_sp c) (map (\<lambda>f. f c) fs) m) \<and>
    room (stores (get_reg r_sp c) (map (\<lambda>f. f c) fs) m) (get_reg r_sp c - 4 * of_nat (length fs)) n"
  using assms
proof (induction fs arbitrary: c m)
  case (Cons f fs)
  let ?sp = "get_reg r_sp c"
  let ?c = "set_reg r_sp (?sp - 4) (set_reg r (f c) c)" and ?m = "m(?sp - 4 \<mapsto> f c)"
  have sp: "get_reg r_sp ?c = ?sp - 4" by simp
  have room: "room ?m (get_reg r_sp ?c) (length fs + n)"
    unfolding sp by (rule room_step(3)) (use Cons.prems(1) in simp)
  have step: "seq [compute r f, PUSH r] (c, m) = Inr (?c, ?m)"
    using push_run [of m "set_reg r (f c) c" "length fs + n" r] Cons.prems(1-3) by (simp add: compute_def and_then_Inr)
  have addr: "?sp - 4 - 4 * of_nat (length fs) = ?sp - 4 * of_nat (length (f # fs))" by (simp add: algebra_simps)
  have go: "seq (concat (map (\<lambda>f. [compute r f, PUSH r]) (f # fs))) (c, m) = seq (concat (map (\<lambda>f. [compute r f, PUSH r]) fs)) (?c, ?m)"
    by (simp only: list.map concat.simps seq_append step and_then_simps)
  show ?case
  proof (cases "fs = []")
    case True
    then show ?thesis using go room unfolding sp by (simp del: fun_upd_apply)
  next
    case False
    have same: "g ?c = g c" if "g \<in> set fs" for g using Cons.prems(5) [of g] that by simp
    have inv: "map (\<lambda>f. f ?c) fs = map (\<lambda>f. f c) fs" "last fs ?c = last fs c" using same False by auto
    have "set_reg r_sp (?sp - 4 * of_nat (length (f # fs))) (set_reg r (last fs c) ?c) = set_reg r_sp (?sp - 4 * of_nat (length (f # fs))) (set_reg r (last fs c) c)"
      using Cons.prems(2) by (simp add: set_reg_commute [of r r_sp] set_reg_twice)
    with Cons.IH [OF room Cons.prems(2,3) False] Cons.prems(5) False go show ?thesis
      unfolding sp addr inv by (simp del: fun_upd_apply)
  qed
qed simp

text \<open>The values that \<open>PUSHCOPR\<close> moves, in its order.\<close>

definition copr_values :: "(cpu \<Rightarrow> u32) list" where
  "copr_values = [\<lambda>c. read_c0 C0_badvaddr (cpu_cp0 c), \<lambda>c. read_c0 C0_epc (cpu_cp0 c), \<lambda>c. read_c0 C0_cause (cpu_cp0 c),
     \<lambda>c. read_c0 C0_status (cpu_cp0 c), cpu_hi, cpu_lo]"

lemma copr_run:
  assumes "room m (get_reg r_sp c) (6 + n)" "r \<noteq> r_sp" "r \<noteq> 0"
  shows "PUSHCOPR r (c, m) = Inr (set_reg r_sp (get_reg r_sp c - 24) (set_reg r (cpu_lo c) c),
      stores (get_reg r_sp c) (map (\<lambda>f. f c) copr_values) m) \<and>
    room (stores (get_reg r_sp c) (map (\<lambda>f. f c) copr_values) m) (get_reg r_sp c - 24) n"
proof -
  have l: "length copr_values = 6" "last copr_values = cpu_lo" "copr_values \<noteq> []" by (simp_all add: copr_values_def)
  have "PUSHCOPR r (c, m) = seq (concat (map (\<lambda>f. [compute r f, PUSH r]) copr_values)) (c, m)"
    by (simp add: PUSHCOPR_def MFC0_def MFHI_def MFLO_def copr_values_def)
  moreover have "f (set_reg x v c) = f c" if "f \<in> set copr_values" for f x v c
    using that by (auto simp: copr_values_def)
  ultimately show ?thesis
    using moves_run [of m c copr_values n r] assms l by simp
qed

section \<open>The frame\<close>

text \<open>
  The stack on which a trap is handled, and the frame that is saved. The registers \<^verbatim>\<open>k0\<close> and \<^verbatim>\<open>k1\<close> are
  for the use of the entry code.
\<close>

definition entry_sp :: "u32 \<Rightarrow> cpu \<Rightarrow> word_mem \<Rightarrow> u32 res" where
  "entry_sp kernelsp c m =
     (if read_c0 C0_status (cpu_cp0 c) AND ST_KSU = 0 then Inr (get_reg r_sp c)
      else lw m (kernelsp + push_bit 2 (cpuid (cpu_cp0 c))))"

definition entry_frame :: "cpu \<Rightarrow> trapframe" where
  "entry_frame c = \<lparr>
     tf_gpr = map (\<lambda>r. if r = r_k0 then cpu_lo c else if r = r_k1 then get_reg r_sp c else get_reg r c) [0..<32],
     tf_lo = cpu_lo c, tf_hi = cpu_hi c, tf_status = read_c0 C0_status (cpu_cp0 c), tf_cause = read_c0 C0_cause (cpu_cp0 c),
     tf_epc = read_c0 C0_epc (cpu_cp0 c), tf_badvaddr = read_c0 C0_badvaddr (cpu_cp0 c)\<rparr>"

text \<open>Registers that agree up to some.\<close>

definition same_regs :: "nat set \<Rightarrow> cpu \<Rightarrow> cpu \<Rightarrow> bool" where
  "same_regs R c c' \<longleftrightarrow> (\<forall>r. r \<notin> R \<longrightarrow> get_reg r c' = get_reg r c) \<and> cpu_lo c' = cpu_lo c \<and> cpu_hi c' = cpu_hi c \<and>
     cpu_cp0 c' = cpu_cp0 c"

definition entry_start :: "u32 \<Rightarrow> u32 \<Rightarrow> asm" where
  "entry_start entry kernelsp = seq [generic_exception_entry entry,
     MFC0 r_k0 C0_status, compute r_k0 (\<lambda>c. get_reg r_k0 c AND ST_KSU), MOVE r_k1 r_sp,
     (\<lambda>(c, m). if get_reg r_k0 c = 0 then Inr (c, m) else get_saved_sp kernelsp r_sp r_k0 (c, m))]"

lemma entry_start_run:
  assumes "entry_sp kernelsp c m = Inr base"
  shows "\<exists>c'. entry_start entry kernelsp (c, m) = Inr (c', m) \<and> same_regs {r_k0, r_k1, r_sp} c c' \<and>
    get_reg r_k1 c' = get_reg r_sp c \<and> get_reg r_sp c' = base"
proof (cases "read_c0 C0_status (cpu_cp0 c) AND ST_KSU = 0")
  case True
  with assms show ?thesis
    by (simp add: entry_start_def generic_exception_entry_def MFC0_def MOVE_def compute_def entry_sp_def same_regs_def)
next
  case False
  then have l: "lw m (kernelsp + push_bit 2 (cpuid (cpu_cp0 c))) = Inr base" using assms by (simp add: entry_sp_def)
  with False show ?thesis
    by (simp add: entry_start_def generic_exception_entry_def MFC0_def MOVE_def compute_def get_saved_sp_def LOAD_def same_regs_def
        cpuid_def add.commute)
qed

definition pushed_regs :: "nat list" where
  "pushed_regs = [r_ra, r_s8, r_k1, r_gp, r_k1, r_k0, r_t9, r_t8, r_s7, r_s6, r_s5, r_s4, r_s3, r_s2, r_s1, r_s0,
     r_t7, r_t6, r_t5, r_t4, r_t3, r_t2, r_t1, r_t0, r_a3, r_a2, r_a1, r_a0, r_v1, r_v0, r_at, r_zero]"

definition entry_finish :: "u32 \<Rightarrow> asm" where
  "entry_finish gp = seq [
     MFC0 r_k0 C0_status, compute r_k0 (\<lambda>c. get_reg r_k0 c OR ST_EXCM), compute r_k0 (\<lambda>c. get_reg r_k0 c XOR ST_EXCM),
     MTC0 r_k0 C0_status, MOVE r_a0 r_sp, compute r_gp (\<lambda>_. gp), SUBU r_sp 16]"

lemma entry_parts:
  "seq [generic_exception_entry entry, exception_entry kernelsp gp] s =
   and_then (entry_start entry kernelsp s) (\<lambda>s. and_then (PUSHCOPR r_k0 s) (\<lambda>s. and_then (seq (map PUSH pushed_regs) s) (entry_finish gp)))"
  unfolding exception_entry_def entry_start_def entry_finish_def PUSHAL_def PUSHSTATIC_def PUSHTEMP_def PUSHARGS_def pushed_regs_def
  by (simp only: seq_fun list.map and_then_assoc and_then_simps and_then_Inr)

lemma upt_32: "[0..<32] = [0, 1, 2, 3, 4, 5, 6, 7, 8, 9, 10, 11, 12, 13, 14, 15, 16, 17, 18, 19, 20, 21, 22, 23, 24, 25, 26, 27, 28,
    29, 30, 31]"
  by code_simp

lemma entry_words:
  assumes "same_regs {r_k0, r_k1, r_sp} c c1" "get_reg r_k1 c1 = get_reg r_sp c" "get_reg r_k0 c1 = cpu_lo c"
  shows "rev (map (\<lambda>f. f c) copr_values @ map (\<lambda>r. get_reg r c1) pushed_regs) = frame_words (entry_frame c)"
  using assms by (simp add: copr_values_def pushed_regs_def frame_words_def entry_frame_def same_regs_def upt_32)

text \<open>What the entry code leaves for the handler.\<close>

lemma entry_run:
  assumes "entry_sp kernelsp c m = Inr base" "room m base 38"
  shows "\<exists>c' m'. seq [generic_exception_entry entry, exception_entry kernelsp gp] (c, m) = Inr (c', m') \<and>
    get_reg r_a0 c' = base - 152 \<and> cpu_cp0 c' = write_c0 C0_status (read_c0 C0_status (cpu_cp0 c) AND NOT ST_EXCM) (cpu_cp0 c) \<and>
    frame_at m' (base - 152) (frame_words (entry_frame c)) \<and>
    (\<forall>a. (\<forall>i<38. a \<noteq> base - 4 - 4 * of_nat i) \<longrightarrow> m' a = m a)"
proof -
  obtain c1 where c1: "entry_start entry kernelsp (c, m) = Inr (c1, m)" "same_regs {r_k0, r_k1, r_sp} c c1"
    "get_reg r_k1 c1 = get_reg r_sp c" "get_reg r_sp c1 = base"
    using entry_start_run [OF assms(1)] by blast
  let ?vs = "map (\<lambda>f. f c) copr_values" and ?c2 = "set_reg r_sp (base - 24) (set_reg r_k0 (cpu_lo c) c1)"
  have vs: "map (\<lambda>f. f c1) copr_values = ?vs" using c1(2) by (simp add: copr_values_def same_regs_def)
  have lo: "cpu_lo c1 = cpu_lo c" using c1(2) by (simp add: same_regs_def)
  have n: "length pushed_regs = 32" "r_sp \<notin> set pushed_regs" by (simp_all add: pushed_regs_def)
  have m2: "PUSHCOPR r_k0 (c1, m) = Inr (?c2, stores base ?vs m)" "room (stores base ?vs m) (get_reg r_sp ?c2) (length pushed_regs + 0)"
    using copr_run [of m c1 32 r_k0] assms(2) c1(4) unfolding vs lo by (simp_all add: n(1))
  let ?ws = "map (\<lambda>r. get_reg r ?c2) pushed_regs"
  let ?m = "stores (base - 24) ?ws (stores base ?vs m)"
  have m3: "seq (map PUSH pushed_regs) (?c2, stores base ?vs m) = Inr (set_reg r_sp (base - 152) ?c2, ?m)"
    using pushes_run [OF m2(2) n(2)] n(1) by simp
  have m: "?m = stores base (?vs @ ?ws) m" by (simp add: stores_append copr_values_def)
  have len: "length (?vs @ ?ws) = 38" by (simp add: n copr_values_def)
  have "rev (?vs @ ?ws) = frame_words (entry_frame c)"
    by (rule entry_words) (use c1 in \<open>auto simp: same_regs_def\<close>)
  then have frame: "frame_at ?m (base - 152) (frame_words (entry_frame c))"
    "\<forall>a. (\<forall>i<38. a \<noteq> base - 4 - 4 * of_nat i) \<longrightarrow> ?m a = m a"
    using stores_frame [of "?vs @ ?ws" base m] unfolding m len by simp_all
  have "\<exists>c'. entry_finish gp (set_reg r_sp (base - 152) ?c2, ?m) = Inr (c', ?m) \<and> get_reg r_a0 c' = base - 152 \<and>
      cpu_cp0 c' = write_c0 C0_status (read_c0 C0_status (cpu_cp0 c) AND NOT ST_EXCM) (cpu_cp0 c)"
    using c1(2) by (simp add: entry_finish_def MFC0_def compute_def MTC0_def MOVE_def SUBU_def or_xor_eq same_regs_def get_reg_def set_reg_def)
  with frame show ?thesis unfolding entry_parts c1(1) by (auto simp only: and_then_simps m2(1) m3)
qed

text \<open>Loading and storing a frame.\<close>

lemma frame_at_Cons:
  "frame_at m a (v # vs) \<longleftrightarrow> m a = Some v \<and> frame_at m (a + 4) vs"
proof -
  have "(\<forall>i<Suc n. P i) \<longleftrightarrow> P 0 \<and> (\<forall>i<n. P (Suc i))" for n and P :: "nat \<Rightarrow> bool" by (auto simp: less_Suc_eq_0_disj)
  then show ?thesis by (simp add: frame_at_def algebra_simps)
qed

lemma load_words_run: "frame_at m a vs \<Longrightarrow> aligned4 a \<Longrightarrow> load_words m a (length vs) = Inr vs"
proof (induction vs arbitrary: a)
  case (Cons v vs)
  then have "aligned4 (a + 4)" using aligned4_add [of a 1] by simp
  with Cons show ?case by (simp add: frame_at_Cons lw_def)
qed simp

lemma store_words_run:
  assumes "aligned4 a" "length vs < 2 ^ 30" "\<And>i. i < length vs \<Longrightarrow> m (a + 4 * of_nat i) \<noteq> None"
  shows "\<exists>m'. store_words a vs m = Inr m' \<and> frame_at m' a vs \<and> (\<forall>b. (\<forall>i<length vs. b \<noteq> a + 4 * of_nat i) \<longrightarrow> m' b = m b)"
  using assms
proof (induction vs arbitrary: a m)
  case (Cons v vs)
  let ?m = "m(a \<mapsto> v)"
  have "aligned4 (a + 4)" using aligned4_add [of a 1] Cons.prems(1) by simp
  moreover have "?m (a + 4 + 4 * of_nat i) \<noteq> None" if "i < length vs" for i
    using Cons.prems(3) [of "Suc i"] that by (simp add: algebra_simps)
  ultimately obtain m' where m': "store_words (a + 4) vs ?m = Inr m'" "frame_at m' (a + 4) vs"
    "\<And>b. (\<forall>i<length vs. b \<noteq> a + 4 + 4 * of_nat i) \<Longrightarrow> m' b = ?m b"
    using Cons.IH [of "a + 4" ?m] Cons.prems(2) by (auto simp del: fun_upd_apply)
  have "a \<noteq> a + 4 + 4 * of_nat i" if "i < length vs" for i
    using word_index [of 0 "Suc i"] Cons.prems(2) that by auto
  then have "m' a = Some v" using m'(3) [of a] by simp
  moreover have "m a \<noteq> None" using Cons.prems(3) [of 0] by simp
  then have "sw m a v = Inr ?m" using Cons.prems(1) by (auto simp: sw_def)
  moreover have "m' b = m b" if b: "\<forall>i<Suc (length vs). b \<noteq> a + 4 * of_nat i" for b
  proof -
    have "b \<noteq> a" using b by auto
    moreover have "b \<noteq> a + 4 + 4 * of_nat i" if "i < length vs" for i
      using b that by (auto simp: algebra_simps dest!: spec [of _ "Suc i"])
    ultimately show ?thesis using m'(3) [of b] by simp
  qed
  ultimately show ?case using m' by (auto simp: frame_at_Cons simp del: fun_upd_apply)
qed (simp add: frame_at_def)

lemma frame_words_length: "length (tf_gpr tf) = 32 \<Longrightarrow> length (frame_words tf) = 38"
  by (simp add: frame_words_def)

lemma load_frame_run:
  assumes "frame_at m a (frame_words tf)" "aligned4 a" "length (tf_gpr tf) = 32"
  shows "load_frame m a = Inr tf"
proof -
  have "load_words m a 38 = Inr (frame_words tf)"
    using load_words_run [OF assms(1,2)] frame_words_length [OF assms(3)] by simp
  then show ?thesis using assms(3) by (simp add: load_frame_def frame_words_def nth_append)
qed

section \<open>The exit\<close>

text \<open>The words from the address in a register upwards, which are popped through that register.\<close>

definition on_stack :: "nat \<Rightarrow> cpu \<Rightarrow> word_mem \<Rightarrow> u32 list \<Rightarrow> bool" where
  "on_stack b c m vs \<longleftrightarrow> b \<noteq> 0 \<and> aligned4 (get_reg b c) \<and> frame_at m (get_reg b c) vs"

lemma POP_eq: "POP = (\<lambda>r. POPUF r r_sp)"
  by (simp add: fun_eq_iff POP_def POPUF_def)

lemma pop_run:
  assumes "on_stack b c m (v # vs)" "r \<noteq> b"
  shows "POPUF r b (c, m) = Inr (set_reg b (get_reg b c + 4) (set_reg r v c), m)"
    "on_stack b (set_reg b (get_reg b c + 4) (set_reg r v c)) m vs"
  using assms aligned4_add [of "get_reg b c" 1]
  by (simp_all add: POPUF_def LOAD_def ADDU_def compute_def WORD_SIZE_def lw_def on_stack_def frame_at_Cons)

primrec loads :: "nat list \<Rightarrow> u32 list \<Rightarrow> cpu \<Rightarrow> cpu" where
  "loads [] vs c = c"
| "loads (r # rs) vs c = loads rs (tl vs) (set_reg r (hd vs) c)"

lemma loads_same: "same_regs R c c' \<Longrightarrow> same_regs R (loads rs vs c) (loads rs vs c')"
proof (induction rs arbitrary: vs c c')
  case (Cons r rs)
  have "same_regs R (set_reg r (hd vs) c) (set_reg r (hd vs) c')" using Cons.prems by (simp add: same_regs_def)
  then show ?case by (simp add: Cons.IH)
qed simp

lemma pops_run:
  assumes "on_stack b c m vs" "length rs \<le> length vs" "b \<notin> set rs"
  shows "\<exists>c'. seq (map (\<lambda>r. POPUF r b) rs) (c, m) = Inr (c', m) \<and> on_stack b c' m (drop (length rs) vs) \<and>
    same_regs {b} (loads rs vs c) c'"
  using assms
proof (induction rs arbitrary: c vs)
  case Nil
  then show ?case by (simp add: same_regs_def)
next
  case (Cons r rs)
  then obtain v vs' where vs: "vs = v # vs'" by (cases vs) auto
  let ?c = "set_reg b (get_reg b c + 4) (set_reg r v c)"
  have step: "POPUF r b (c, m) = Inr (?c, m)" "on_stack b ?c m vs'" using pop_run [of b c m v vs' r] Cons.prems vs by auto
  obtain c' where "seq (map (\<lambda>r. POPUF r b) rs) (?c, m) = Inr (c', m)" "on_stack b c' m (drop (length rs) vs')"
    "same_regs {b} (loads rs vs' ?c) c'"
    using Cons.IH [OF step(2)] Cons.prems vs by auto
  moreover have "same_regs {b} (loads rs vs' (set_reg r v c)) (loads rs vs' ?c)"
    by (rule loads_same) (simp add: same_regs_def)
  ultimately show ?case using step(1) vs by (auto simp: same_regs_def)
qed

text \<open>The last six words of a frame, with any register for the transfer.\<close>

definition pop_copr :: "nat \<Rightarrow> nat \<Rightarrow> asm list" where
  "pop_copr r b = [POPUF r b, MTLO r, POPUF r b, MTHI r, POPUF r b, MTC0 r C0_status, POPUF r b, MTC0 r C0_cause,
     POPUF r b, MTC0 r C0_epc, POPUF r b, MTC0 r C0_badvaddr]"

lemma on_stack_upd [simp]:
  "on_stack b (c\<lparr>cpu_lo := v\<rparr>) m vs = on_stack b c m vs" "on_stack b (c\<lparr>cpu_hi := v\<rparr>) m vs = on_stack b c m vs"
  "on_stack b (c\<lparr>cpu_cp0 := w\<rparr>) m vs = on_stack b c m vs"
  by (simp_all add: on_stack_def)

lemma pop_copr_run:
  assumes "on_stack b c m [lo, hi, st, ca, epc, bad]" "r \<noteq> b" "r \<noteq> 0"
  shows "\<exists>c'. seq (pop_copr r b) (c, m) = Inr (c', m) \<and> cpu_lo c' = lo \<and> cpu_hi c' = hi \<and>
    cpu_cp0 c' = write_c0 C0_badvaddr bad (write_c0 C0_epc epc (write_c0 C0_cause ca (write_c0 C0_status st (cpu_cp0 c)))) \<and>
    (\<forall>r'. r' \<notin> {r, b} \<longrightarrow> get_reg r' c' = get_reg r' c)"
proof -
  let ?sp = "get_reg b c"
  have b: "b \<noteq> 0" using assms(1) by (simp add: on_stack_def)
  have "aligned4 (?sp + 4 * k)" for k using assms(1) aligned4_add by (simp add: on_stack_def)
  from this [of 0] this [of 1] this [of 2] this [of 3] this [of 4] this [of 5]
  have al: "aligned4 ?sp" "aligned4 (?sp + 4)" "aligned4 (8 + ?sp)" "aligned4 (12 + ?sp)" "aligned4 (16 + ?sp)" "aligned4 (20 + ?sp)"
    by (simp_all add: add.commute)
  have "m ?sp = Some lo" "m (?sp + 4) = Some hi" "m (8 + ?sp) = Some st" "m (12 + ?sp) = Some ca" "m (16 + ?sp) = Some epc"
    "m (20 + ?sp) = Some bad"
    using assms(1) by (simp_all add: on_stack_def frame_at_Cons)
  with al b assms(2,3) show ?thesis
    by (simp add: pop_copr_def POPUF_def LOAD_def ADDU_def compute_def WORD_SIZE_def lw_def MTLO_def MTHI_def MTC0_def)
qed

definition popped_regs :: "nat list" where
  "popped_regs = [r_at, r_at, r_v0, r_v1, r_a0, r_a1, r_a2, r_a3, r_t0, r_t1, r_t2, r_t3, r_t4, r_t5, r_t6, r_t7,
     r_s0, r_s1, r_s2, r_s3, r_s4, r_s5, r_s6, r_s7, r_t8, r_t9, r_k0, r_k1, r_gp, r_k0, r_s8, r_ra]"

lemma exit_parts:
  "trap_exit s = and_then (MOVE r_sp r_a0 s) (\<lambda>s. and_then (seq (map (\<lambda>r. POPUF r r_sp) popped_regs) s) (\<lambda>s.
     and_then (seq (pop_copr r_k1 r_sp) s) (\<lambda>s. and_then (MOVE r_sp r_k0 s) eret)))"
  unfolding trap_exit_def POPAL_def POPSTATIC_def POPTEMP_def POPARGS_def popped_regs_def POPCOPR_def POP_eq pop_copr_def
  by (simp only: seq_fun list.map and_then_assoc and_then_simps and_then_Inr)

text \<open>What \<^verbatim>\<open>trap_exit\<close> restores.\<close>

definition resumed :: "trapframe \<Rightarrow> cpu \<Rightarrow> bool" where
  "resumed tf c \<longleftrightarrow> (\<forall>r<32. r \<noteq> 0 \<and> r \<noteq> r_k0 \<and> r \<noteq> r_k1 \<longrightarrow> get_reg r c = tf_gpr tf ! r) \<and> cpu_lo c = tf_lo tf \<and> cpu_hi c = tf_hi tf \<and>
     cpu_pc c = tf_epc tf \<and> read_c0 C0_status (cpu_cp0 c) = tf_status tf AND NOT ST_EXL"

lemma all_32:
  "(\<forall>r<32. P r) \<longleftrightarrow> P 0 \<and> P 1 \<and> P 2 \<and> P 3 \<and> P 4 \<and> P 5 \<and> P 6 \<and> P 7 \<and> P 8 \<and> P 9 \<and> P 10 \<and> P 11 \<and> P 12 \<and> P 13 \<and> P 14 \<and> P 15 \<and> P 16 \<and>
     P 17 \<and> P 18 \<and> P 19 \<and> P 20 \<and> P 21 \<and> P 22 \<and> P 23 \<and> P 24 \<and> P 25 \<and> P 26 \<and> P 27 \<and> P 28 \<and> P 29 \<and> P 30 \<and> P (31 :: nat)"
proof -
  have "(\<forall>r<32. P r) \<longleftrightarrow> list_all P [0..<32]" by (auto simp: list_all_iff)
  then show ?thesis unfolding upt_32 by simp
qed

lemma loads_other: "r \<notin> set rs \<Longrightarrow> get_reg r (loads rs vs c) = get_reg r c"
  by (induction rs arbitrary: vs c) auto

lemma loads_get:
  assumes "i < length rs" "length rs \<le> length vs" "rs ! i \<noteq> 0" "\<forall>j<length rs. i < j \<longrightarrow> rs ! j \<noteq> rs ! i"
  shows "get_reg (rs ! i) (loads rs vs c) = vs ! i"
  using assms
proof (induction rs arbitrary: vs c i)
  case (Cons r rs)
  then obtain v vs' where vs: "vs = v # vs'" by (cases vs) auto
  show ?case
  proof (cases i)
    case 0
    have "r \<notin> set rs"
    proof
      assume "r \<in> set rs"
      then obtain j where "j < length rs" "rs ! j = r" by (auto simp: in_set_conv_nth)
      then show False using Cons.prems(4) 0 by (auto dest!: spec [of _ "Suc j"])
    qed
    then show ?thesis using 0 Cons.prems(3) vs by (simp add: loads_other)
  next
    case (Suc k)
    have "\<forall>j<length rs. k < j \<longrightarrow> rs ! j \<noteq> rs ! k"
    proof (intro allI impI)
      fix j assume "j < length rs" "k < j"
      then show "rs ! j \<noteq> rs ! k" using Cons.prems(4) Suc by (auto dest!: spec [of _ "Suc j"])
    qed
    then show ?thesis using Cons.IH [of k vs' "set_reg r v c"] Cons.prems Suc vs by simp
  qed
qed simp

text \<open>A register is popped last at its own place, except that the stack pointer goes through \<^verbatim>\<open>k0\<close>.\<close>

lemma popped_last:
  "\<forall>r<32. r \<noteq> 0 \<and> r \<noteq> r_k0 \<and> r \<noteq> r_k1 \<and> r \<noteq> r_sp \<longrightarrow> popped_regs ! r = r \<and> (\<forall>j<32. r < j \<longrightarrow> popped_regs ! j \<noteq> r)"
  "popped_regs ! 29 = r_k0" "\<forall>j<32. 29 < j \<longrightarrow> popped_regs ! j \<noteq> r_k0"
  unfolding all_32 by (simp_all add: popped_regs_def)

lemma exit_run:
  assumes len: "length (tf_gpr tf) = 32" and fr: "frame_at m a (frame_words tf)" "aligned4 a" and c: "get_reg r_a0 c = a"
    and erl: "tf_status tf AND ST_ERL = 0"
  shows "\<exists>c'. trap_exit (c, m) = Inr (c', m) \<and> resumed tf c'"
proof -
  let ?c1 = "set_reg r_sp a c" and ?ws = "frame_words tf"
  have s1: "MOVE r_sp r_a0 (c, m) = Inr (?c1, m)" using c by (simp add: MOVE_def compute_def)
  have "on_stack r_sp ?c1 m ?ws" using fr by (simp add: on_stack_def)
  moreover have n: "length popped_regs = 32" "r_sp \<notin> set popped_regs" by (simp_all add: popped_regs_def)
  ultimately obtain c2 where c2: "seq (map (\<lambda>r. POPUF r r_sp) popped_regs) (?c1, m) = Inr (c2, m)" "on_stack r_sp c2 m (drop 32 ?ws)"
    "same_regs {r_sp} (loads popped_regs ?ws ?c1) c2"
    using pops_run [of r_sp ?c1 m ?ws popped_regs] frame_words_length [OF len] by auto
  have "drop 32 ?ws = [tf_lo tf, tf_hi tf, tf_status tf, tf_cause tf, tf_epc tf, tf_badvaddr tf]" using len by (simp add: frame_words_def)
  then have "on_stack r_sp c2 m [tf_lo tf, tf_hi tf, tf_status tf, tf_cause tf, tf_epc tf, tf_badvaddr tf]" using c2(2) by simp
  then obtain c3 where c3: "seq (pop_copr r_k1 r_sp) (c2, m) = Inr (c3, m)" "cpu_lo c3 = tf_lo tf" "cpu_hi c3 = tf_hi tf"
    "read_c0 C0_status (cpu_cp0 c3) = tf_status tf" "read_c0 C0_epc (cpu_cp0 c3) = tf_epc tf"
    "\<And>r'. r' \<notin> {r_k1, r_sp} \<Longrightarrow> get_reg r' c3 = get_reg r' c2"
    using pop_copr_run [of r_sp c2 m "tf_lo tf" "tf_hi tf" "tf_status tf" "tf_cause tf" "tf_epc tf" "tf_badvaddr tf" r_k1]
    by (auto simp: read_write_c0)
  let ?c4 = "set_reg r_sp (get_reg r_k0 c3) c3"
  let ?c5 = "?c4\<lparr>cpu_pc := tf_epc tf, cpu_cp0 := write_c0 C0_status (tf_status tf AND NOT ST_EXL) (cpu_cp0 c3)\<rparr>"
  have s5: "and_then (MOVE r_sp r_k0 (c3, m)) eret = Inr (?c5, m)"
    using c3(4,5) erl by (simp add: MOVE_def compute_def eret_def Let_def)
  have ws: "?ws ! r = tf_gpr tf ! r" if "r < 32" for r using that len by (simp add: frame_words_def nth_append)
  have sp: "get_reg r_k0 c3 = tf_gpr tf ! r_sp"
  proof -
    have "get_reg r_k0 (loads popped_regs ?ws ?c1) = ?ws ! 29"
      using loads_get [of 29 popped_regs ?ws ?c1] popped_last(2,3) n(1) frame_words_length [OF len] by simp
    then show ?thesis using c3(6) [of r_k0] c2(3) ws [of r_sp] by (simp add: same_regs_def)
  qed
  have "get_reg r ?c5 = tf_gpr tf ! r" if r: "r < 32" "r \<noteq> 0" "r \<noteq> r_k0" "r \<noteq> r_k1" for r
  proof (cases "r = r_sp")
    case False
    then have "popped_regs ! r = r" "\<forall>j<32. r < j \<longrightarrow> popped_regs ! j \<noteq> r" using popped_last(1) r by auto
    then have "get_reg r (loads popped_regs ?ws ?c1) = ?ws ! r"
      using loads_get [of r popped_regs ?ws ?c1] r n(1) frame_words_length [OF len] by simp
    then show ?thesis using False r c3(6) [of r] c2(3) ws [of r] by (simp add: same_regs_def)
  qed (use sp in simp)
  then have "resumed tf ?c5" using c3 by (simp add: resumed_def)
  then show ?thesis unfolding exit_parts s1 by (auto simp: c2(1) c3(1) s5)
qed

section \<open>A whole trap\<close>

lemma handler_run:
  assumes cause: "EXCCODE (read_c0 C0_cause (cpu_cp0 c)) \<in> {EC_int, EC_bp, EC_sys}" "read_c0 C0_cause (cpu_cp0 c) AND CR_BD = 0"
    and cp: "read_c0 C0_status cp = read_c0 C0_status (cpu_cp0 c) AND NOT ST_EXCM"
  shows "\<exists>cp'. trap_handler m (entry_frame c) cp = Inr ((entry_frame c)\<lparr>tf_epc := read_c0 C0_epc (cpu_cp0 c) +
    (if EXCCODE (read_c0 C0_cause (cpu_cp0 c)) = EC_int then 0 else 4)\<rparr>, cp')"
proof -
  let ?st = "read_c0 C0_status (cpu_cp0 c)"
  have apart: "ST_EXCM AND ST_IM = 0" by (simp add: cp0_defs)
  have "\<not> (bit ST_EXCM n \<and> bit ST_IM n)" for n using arg_cong [OF apart, of "\<lambda>w. bit w n"] by (simp add: bit_and_iff)
  then have "(?st AND NOT ST_IM) OR ((?st AND NOT ST_EXCM) AND ST_IM) = ?st"
    by (intro bit_word_eqI) (auto simp: bit_simps)
  moreover have "((?st AND NOT ST_EXCM) OR ST_IE) AND ST_IM = (?st AND NOT ST_EXCM) AND ST_IM" by (rule and_or_im)
  ultimately show ?thesis
    using cause by (auto simp: trap_handler_def Let_def skip_victim_def trap_return_def local_irq_eq cp entry_frame_def
        EC_int_def EC_bp_def EC_sys_def)
qed

lemma frame_slots: "(\<forall>i<38. P (base - 152 + 4 * of_nat i)) \<longleftrightarrow> (\<forall>i<38. P (base - 4 - 4 * of_nat i))" for base :: u32
proof -
  have "base - 152 + 4 * of_nat (37 - i) = base - 4 - 4 * of_nat i" if "i < 38" for i :: nat
    using that by (simp add: of_nat_diff algebra_simps)
  moreover have "37 - i < 38" "i < 38 \<Longrightarrow> 37 - (37 - i) = i" for i :: nat by auto
  ultimately show ?thesis by metis
qed


definition trap_example :: cpu where
  "trap_example = \<lparr>cpu_reg = (\<lambda>r. of_nat r)(r_sp := 0x80001000), cpu_lo = 1, cpu_hi = 2, cpu_pc = 0,
     cpu_cp0 = (\<lambda>_. 0)((12, 0) := 0xff03, (13, 0) := 0x24, (14, 0) := 0x80002000)\<rparr>"


end
