(* ===== verification/Switch.thy ===== *)
theory Switch
  imports TrapEntry
begin

unbundle bit_operations_syntax

text \<open>
  The context switch, \<^verbatim>\<open>src/kern/arch/mips/switch.S\<close>: all registers are stored upwards from the address
  in \<^verbatim>\<open>a0\<close> and loaded from the address in \<^verbatim>\<open>a1\<close>. A \<^verbatim>\<open>struct context\<close> has the layout of a trap frame.
\<close>

section \<open>The code\<close>

definition save_registers :: "asm list" where
  "save_registers = map (\<lambda>r. PUSHUE r r_a0) [r_zero, r_at, r_v0, r_v1, r_a0, r_a1, r_a2, r_a3, r_t0, r_t1, r_t2, r_t3, r_t4, r_t5, r_t6, r_t7,
     r_s0, r_s1, r_s2, r_s3, r_s4, r_s5, r_s6, r_s7, r_t8, r_t9, r_k0, r_k1, r_gp, r_sp, r_s8, r_ra]"

definition save_coprocessor :: "asm list" where
  "save_coprocessor = [MFLO r_a2, PUSHUE r_a2 r_a0, MFHI r_a2, PUSHUE r_a2 r_a0, MFC0 r_a2 C0_status, PUSHUE r_a2 r_a0,
     MFC0 r_a2 C0_cause, PUSHUE r_a2 r_a0, MFC0 r_a2 C0_epc, PUSHUE r_a2 r_a0, MFC0 r_a2 C0_badvaddr, PUSHUE r_a2 r_a0]"

definition load_registers :: "asm list" where
  "load_registers = map (\<lambda>r. POPUF r r_a1) [r_a2, r_at, r_v0, r_v1, r_a0, r_a2, r_a2, r_a3, r_t0, r_t1, r_t2, r_t3, r_t4, r_t5, r_t6, r_t7,
     r_s0, r_s1, r_s2, r_s3, r_s4, r_s5, r_s6, r_s7, r_t8, r_t9, r_k0, r_k1, r_gp, r_sp, r_s8, r_ra]"

definition load_coprocessor :: "asm list" where
  "load_coprocessor = [POPUF r_a2 r_a1, MTLO r_a2, POPUF r_a2 r_a1, MTHI r_a2, POPUF r_a2 r_a1, MTC0 r_a2 C0_status,
     POPUF r_a2 r_a1, MTC0 r_a2 C0_cause, POPUF r_a2 r_a1, MTC0 r_a2 C0_epc, POPUF r_a2 r_a1, MTC0 r_a2 C0_badvaddr]"

definition jump_register :: "nat \<Rightarrow> asm" where
  "jump_register r = (\<lambda>(c, m). Inr (c\<lparr>cpu_pc := get_reg r c\<rparr>, m))"

definition switch_regs :: asm where
  "switch_regs = seq (save_registers @ save_coprocessor @ load_registers @ load_coprocessor @ [jump_register r_ra])"

section \<open>Saving\<close>

text \<open>The values stored through a register, which itself changes on the way.\<close>

primrec stored_values :: "nat \<Rightarrow> u32 \<Rightarrow> nat list \<Rightarrow> cpu \<Rightarrow> u32 list" where
  "stored_values b a [] c = []"
| "stored_values b a (r # rs) c = (if r = b then a else get_reg r c) # stored_values b (a + 4) rs c"

lemma stored_values_set: "stored_values b a rs (set_reg b v c) = stored_values b a rs c"
  by (induction rs arbitrary: a) auto

lemma store_reg_run:
  assumes "b \<noteq> 0"
  shows "PUSHUE r b (c, m) = and_then (sw m (get_reg b c) (get_reg r c)) (\<lambda>m. Inr (set_reg b (get_reg b c + 4) c, m))"
  using assms by (simp add: PUSHUE_def STORE_def ADDU_def compute_def WORD_SIZE_def and_then_assoc)

lemma store_regs_run:
  assumes "b \<noteq> 0"
  shows "seq (map (\<lambda>r. PUSHUE r b) rs) (c, m) = and_then (store_words (get_reg b c) (stored_values b (get_reg b c) rs c) m)
    (\<lambda>m. Inr (set_reg b (get_reg b c + 4 * of_nat (length rs)) c, m))"
proof (induction rs arbitrary: c m)
  case Nil
  show ?case by (simp add: set_reg_def get_reg_def)
next
  case (Cons r rs)
  show ?case
    using assms by (simp add: store_reg_run Cons.IH and_then_assoc stored_values_set set_reg_twice add.assoc)
qed

lemma store_moves_run:
  assumes "b \<noteq> 0" "r \<noteq> 0" "r \<noteq> b" "\<And>f x v c. f \<in> set fs \<Longrightarrow> f (set_reg x v c) = f c"
  shows "seq (concat (map (\<lambda>f. [compute r f, PUSHUE r b]) fs)) (c, m) = and_then (store_words (get_reg b c) (map (\<lambda>f. f c) fs) m)
    (\<lambda>m. Inr (set_reg b (get_reg b c + 4 * of_nat (length fs)) (set_reg r (if fs = [] then get_reg r c else last fs c) c), m))"
  using assms(4)
proof (induction fs arbitrary: c m)
  case Nil
  show ?case by (simp add: set_reg_def get_reg_def)
next
  case (Cons f fs)
  let ?c = "set_reg b (get_reg b c + 4) (set_reg r (f c) c)"
  have same: "g ?c = g c" if "g \<in> set fs" for g using Cons.prems [of g] that by simp
  have vals: "map (\<lambda>f. f ?c) fs = map (\<lambda>f. f c) fs" using same by auto
  have last: "set_reg b v (set_reg r w ?c) = set_reg b v (set_reg r w c)" for v w
    using assms(3) by (simp add: set_reg_commute [of r b] set_reg_twice)
  have step: "seq (concat (map (\<lambda>f. [compute r f, PUSHUE r b]) (f # fs))) (c, m) =
      and_then (sw m (get_reg b c) (f c)) (\<lambda>m. seq (concat (map (\<lambda>f. [compute r f, PUSHUE r b]) fs)) (?c, m))"
    using assms(1-3) by (simp add: compute_def store_reg_run and_then_assoc)
  show ?case
  proof (cases "fs = []")
    case True
    then show ?thesis unfolding step by (simp add: and_then_assoc)
  next
    case False
    then have "last fs ?c = last fs c" by (intro same) simp
    then show ?thesis unfolding step
      using Cons.IH [of ?c] Cons.prems assms(1-3) vals last False by (simp add: and_then_assoc add.assoc)
  qed
qed

lemma store_words_append:
  "store_words a (vs @ ws) m = and_then (store_words a vs m) (store_words (a + 4 * of_nat (length vs)) ws)"
  by (induction vs arbitrary: a m) (auto simp: and_then_def algebra_simps split: sum.splits)

text \<open>The words of a saved context; \<^verbatim>\<open>a0\<close> has already moved on when it is stored.\<close>

definition context_words :: "cpu \<Rightarrow> u32 list" where
  "context_words c = map (\<lambda>r. if r = r_a0 then get_reg r_a0 c + 16 else get_reg r c) [0..<32] @
     [cpu_lo c, cpu_hi c, read_c0 C0_status (cpu_cp0 c), read_c0 C0_cause (cpu_cp0 c), read_c0 C0_epc (cpu_cp0 c),
      read_c0 C0_badvaddr (cpu_cp0 c)]"

definition saved_values :: "(cpu \<Rightarrow> u32) list" where
  "saved_values = [cpu_lo, cpu_hi, \<lambda>c. read_c0 C0_status (cpu_cp0 c), \<lambda>c. read_c0 C0_cause (cpu_cp0 c), \<lambda>c. read_c0 C0_epc (cpu_cp0 c),
     \<lambda>c. read_c0 C0_badvaddr (cpu_cp0 c)]"

lemma save_run:
  "seq (save_registers @ save_coprocessor) (c, m) = and_then (store_words (get_reg r_a0 c) (context_words c) m)
    (\<lambda>m. Inr (set_reg r_a0 (get_reg r_a0 c + 152) (set_reg r_a2 (read_c0 C0_badvaddr (cpu_cp0 c)) c), m))"
proof -
  let ?a = "get_reg r_a0 c"
  let ?gs = "map (\<lambda>r. if r = r_a0 then ?a + 16 else get_reg r c) [0..<32]" and ?vs = "map (\<lambda>f. f c) saved_values"
  let ?c1 = "set_reg r_a0 (?a + 128) c"
  have "stored_values r_a0 ?a [0, 1, 2, 3, 4, 5, 6, 7, 8, 9, 10, 11, 12, 13, 14, 15, 16, 17, 18, 19, 20, 21, 22, 23, 24, 25, 26, 27, 28,
      29, 30, 31] c = ?gs" unfolding upt_32 by (simp add: add.commute)
  then have regs: "seq save_registers (c, m) = and_then (store_words ?a ?gs m) (\<lambda>m. Inr (?c1, m))" for m
    using store_regs_run [of r_a0 "[0, 1, 2, 3, 4, 5, 6, 7, 8, 9, 10, 11, 12, 13, 14, 15, 16, 17, 18, 19, 20, 21, 22, 23, 24, 25, 26, 27, 28,
      29, 30, 31]" c m] unfolding save_registers_def by simp
  have inv: "f (set_reg x v c) = f c" if "f \<in> set saved_values" for f x v c using that by (auto simp: saved_values_def)
  have "save_coprocessor = concat (map (\<lambda>f. [compute r_a2 f, PUSHUE r_a2 r_a0]) saved_values)"
    by (simp add: save_coprocessor_def saved_values_def MFLO_def MFHI_def MFC0_def)
  then have copr: "seq save_coprocessor (?c1, m) = and_then (store_words (?a + 128) ?vs m)
      (\<lambda>m. Inr (set_reg r_a0 (?a + 152) (set_reg r_a2 (read_c0 C0_badvaddr (cpu_cp0 c)) c), m))" for m
    using store_moves_run [of r_a0 r_a2 saved_values ?c1 m, OF _ _ _ inv]
    by (simp add: saved_values_def set_reg_commute [of r_a2 r_a0] set_reg_twice add.commute)
  have w: "context_words c = ?gs @ ?vs" by (simp add: context_words_def saved_values_def)
  show ?thesis unfolding seq_append regs w store_words_append by (simp add: and_then_assoc copr)
qed

section \<open>Loading\<close>

definition loaded_regs :: "nat list" where
  "loaded_regs = [r_a2, r_at, r_v0, r_v1, r_a0, r_a2, r_a2, r_a3, r_t0, r_t1, r_t2, r_t3, r_t4, r_t5, r_t6, r_t7,
     r_s0, r_s1, r_s2, r_s3, r_s4, r_s5, r_s6, r_s7, r_t8, r_t9, r_k0, r_k1, r_gp, r_sp, r_s8, r_ra]"

lemma loaded_last:
  "\<forall>r<32. r \<noteq> 0 \<and> r \<noteq> r_a1 \<and> r \<noteq> r_a2 \<longrightarrow> loaded_regs ! r = r \<and> (\<forall>j<32. r < j \<longrightarrow> loaded_regs ! j \<noteq> r)"
  unfolding all_32 by (simp_all add: loaded_regs_def)

text \<open>A processor that continues from a context, up to the argument registers used by the switch.\<close>

definition continues :: "u32 list \<Rightarrow> cpu \<Rightarrow> bool" where
  "continues ws c \<longleftrightarrow> (\<forall>r<32. r \<noteq> 0 \<and> r \<noteq> r_a1 \<and> r \<noteq> r_a2 \<longrightarrow> get_reg r c = ws ! r) \<and> cpu_lo c = ws ! 32 \<and> cpu_hi c = ws ! 33 \<and>
     read_c0 C0_status (cpu_cp0 c) = ws ! 34 \<and> read_c0 C0_cause (cpu_cp0 c) = ws ! 35 \<and> read_c0 C0_epc (cpu_cp0 c) = ws ! 36 \<and>
     cpu_pc c = ws ! r_ra"

lemma load_run:
  assumes ws: "on_stack r_a1 c m ws" "length ws = 38"
  shows "\<exists>c'. seq (load_registers @ load_coprocessor @ [jump_register r_ra]) (c, m) = Inr (c', m) \<and> continues ws c'"
proof -
  have n: "length loaded_regs = 32" "r_a1 \<notin> set loaded_regs" by (simp_all add: loaded_regs_def)
  obtain c1 where c1: "seq load_registers (c, m) = Inr (c1, m)" "on_stack r_a1 c1 m (drop 32 ws)" "same_regs {r_a1} (loads loaded_regs ws c) c1"
    using pops_run [OF ws(1), of loaded_regs] ws(2) n unfolding load_registers_def loaded_regs_def [symmetric] by auto
  have "drop 32 ws = [ws ! 32, ws ! 33, ws ! 34, ws ! 35, ws ! 36, ws ! 37]"
    using ws(2) by (simp add: list_eq_iff_nth_eq nth_Cons' less_Suc_eq numeral_eq_Suc)
  then have "on_stack r_a1 c1 m [ws ! 32, ws ! 33, ws ! 34, ws ! 35, ws ! 36, ws ! 37]" using c1(2) by simp
  then obtain c2 where c2: "seq load_coprocessor (c1, m) = Inr (c2, m)" "cpu_lo c2 = ws ! 32" "cpu_hi c2 = ws ! 33"
    "read_c0 C0_status (cpu_cp0 c2) = ws ! 34" "read_c0 C0_cause (cpu_cp0 c2) = ws ! 35" "read_c0 C0_epc (cpu_cp0 c2) = ws ! 36"
    "\<And>r. r \<notin> {r_a2, r_a1} \<Longrightarrow> get_reg r c2 = get_reg r c1"
    using pop_copr_run [of r_a1 c1 m _ _ _ _ _ _ r_a2] unfolding load_coprocessor_def pop_copr_def [symmetric] by fastforce
  have regs: "get_reg r c2 = ws ! r" if r: "r < 32" "r \<noteq> 0" "r \<noteq> r_a1" "r \<noteq> r_a2" for r
  proof -
    have "loaded_regs ! r = r" "\<forall>j<32. r < j \<longrightarrow> loaded_regs ! j \<noteq> r" using loaded_last r by auto
    then have "get_reg r (loads loaded_regs ws c) = ws ! r" using loads_get [of r loaded_regs ws c] r n(1) ws(2) by simp
    then show ?thesis using c2(7) [of r] c1(3) r by (simp add: same_regs_def)
  qed
  let ?c = "c2\<lparr>cpu_pc := get_reg r_ra c2\<rparr>"
  have "continues ws ?c" using c2(2-6) regs regs [of r_ra] by (simp add: continues_def)
  then show ?thesis by (simp add: seq_append c1(1) c2(1) jump_register_def)
qed

section \<open>The switch\<close>

text \<open>A call that saves to the first and continues from the second of two contexts that do not overlap.\<close>

definition switch_call :: "ptr \<Rightarrow> ptr \<Rightarrow> cpu \<Rightarrow> word_mem \<Rightarrow> bool" where
  "switch_call old new c m \<longleftrightarrow> get_reg r_a0 c = old \<and> get_reg r_a1 c = new \<and> aligned4 old \<and> aligned4 new \<and>
     (\<forall>i<38. m (old + 4 * of_nat i) \<noteq> None \<and> m (new + 4 * of_nat i) \<noteq> None) \<and>
     (\<forall>i<38. \<forall>j<38. old + 4 * of_nat i \<noteq> new + 4 * of_nat j)"

lemma context_words_length: "length (context_words c) = 38"
  by (simp add: context_words_def)

lemma switch_run:
  assumes call: "switch_call old new c m" and ws: "frame_at m new ws" "length ws = 38"
  shows "\<exists>c' m'. switch_regs (c, m) = Inr (c', m') \<and> frame_at m' old (context_words c) \<and> continues ws c' \<and>
    (\<forall>a. (\<forall>i<38. a \<noteq> old + 4 * of_nat i) \<longrightarrow> m' a = m a)"
proof -
  obtain m1 where m1: "store_words old (context_words c) m = Inr m1" "frame_at m1 old (context_words c)"
    "\<And>a. (\<forall>i<38. a \<noteq> old + 4 * of_nat i) \<Longrightarrow> m1 a = m a"
    using store_words_run [of old "context_words c" m] call by (auto simp: switch_call_def context_words_length)
  let ?c = "set_reg r_a0 (old + 152) (set_reg r_a2 (read_c0 C0_badvaddr (cpu_cp0 c)) c)"
  have save: "seq (save_registers @ save_coprocessor) (c, m) = Inr (?c, m1)"
    using save_run [of c m] m1(1) call by (simp add: switch_call_def)
  have "\<forall>i<38. \<forall>j<38. old + 4 * of_nat i \<noteq> new + 4 * of_nat j" using call by (simp add: switch_call_def)
  then have "m1 (new + 4 * of_nat i) = m (new + 4 * of_nat i)" if "i < 38" for i
    using m1(3) [of "new + 4 * of_nat i"] that by metis
  then have "frame_at m1 new ws" using ws by (simp add: frame_at_def)
  then have "on_stack r_a1 ?c m1 ws" using call by (simp add: on_stack_def switch_call_def)
  then obtain c' where "seq (load_registers @ load_coprocessor @ [jump_register r_ra]) (?c, m1) = Inr (c', m1)" "continues ws c'"
    using load_run ws(2) by blast
  then have "switch_regs (c, m) = Inr (c', m1)"
    using save unfolding switch_regs_def by (metis append_assoc seq_append and_then_simps(2))
  with m1(2,3) \<open>continues ws c'\<close> show ?thesis by blast
qed

text \<open>The registers that a function call preserves and where it returns to.\<close>

definition same_context :: "cpu \<Rightarrow> cpu \<Rightarrow> bool" where
  "same_context c c' \<longleftrightarrow> (\<forall>r\<in>{r_at, r_v0, r_v1, r_a3} \<union> {r_t0..r_ra}. get_reg r c' = get_reg r c) \<and> cpu_lo c' = cpu_lo c \<and> cpu_hi c' = cpu_hi c \<and>
     read_c0 C0_status (cpu_cp0 c') = read_c0 C0_status (cpu_cp0 c) \<and> cpu_pc c' = get_reg r_ra c"

lemma continues_context: "continues (context_words c) c' \<Longrightarrow> same_context c c'"
proof -
  assume a: "continues (context_words c) c'"
  have "context_words c ! r = get_reg r c" if "r < 32" "r \<noteq> r_a0" for r
    using that by (simp add: context_words_def nth_append)
  moreover have "context_words c ! 32 = cpu_lo c" "context_words c ! 33 = cpu_hi c" "context_words c ! 34 = read_c0 C0_status (cpu_cp0 c)"
    by (simp_all add: context_words_def nth_append)
  ultimately show ?thesis using a by (auto simp: continues_def same_context_def)
qed

text \<open>
  C13. A process that is switched away comes back as it was. The switch saves the registers and
  continues from the other context; if later any processor switches from anywhere to the saved
  context, which nobody has changed, it returns from the first call, with the stack pointer, the
  status register and all general registers of the call but the argument registers \<^verbatim>\<open>a0\<close> to \<^verbatim>\<open>a2\<close>.
\<close>

theorem switch_back:
  assumes "switch_call old new c m"
  shows "\<exists>c' m'. switch_regs (c, m) = Inr (c', m') \<and>
    (\<forall>other d m2. switch_call other old d m2 \<longrightarrow> (\<forall>i<38. m2 (old + 4 * of_nat i) = m' (old + 4 * of_nat i)) \<longrightarrow>
      (\<exists>d' m3. switch_regs (d, m2) = Inr (d', m3) \<and> same_context c d'))"
proof -
  let ?ws = "map (\<lambda>i. the (m (new + 4 * of_nat i))) [0..<38]"
  have "frame_at m new ?ws" "length ?ws = 38" using assms by (auto simp: switch_call_def frame_at_def)
  from switch_run [OF assms this] obtain c' m' where c': "switch_regs (c, m) = Inr (c', m')" "frame_at m' old (context_words c)" by blast
  have "\<exists>d' m3. switch_regs (d, m2) = Inr (d', m3) \<and> same_context c d'"
    if d: "switch_call other old d m2" "\<forall>i<38. m2 (old + 4 * of_nat i) = m' (old + 4 * of_nat i)" for other d m2
  proof -
    have "frame_at m2 old (context_words c)" using c'(2) d(2) by (simp add: frame_at_def context_words_length)
    from switch_run [OF d(1) this context_words_length] show ?thesis using continues_context by blast
  qed
  with c'(1) show ?thesis by blast
qed

definition switch_example :: "u32 \<Rightarrow> u32 \<Rightarrow> cpu" where
  "switch_example old new = trap_example\<lparr>cpu_reg := (cpu_reg trap_example)(r_a0 := old, r_a1 := new, r_ra := 0x80003000)\<rparr>"

lemma switch_example_apart: "i < 38 \<Longrightarrow> j < 38 \<Longrightarrow> (0x1000 :: u32) + 4 * of_nat i \<noteq> 0x2000 + 4 * of_nat j"
proof
  assume ij: "i < 38" "j < 38" and eq: "(0x1000 :: u32) + 4 * of_nat i = 0x2000 + 4 * of_nat j"
  then have "(4 * of_nat i :: u32) = 4 * of_nat (1024 + j)" by (simp add: algebra_simps)
  then show False using word_index [of i "1024 + j"] ij by simp
qed

lemma switch_example_call:
  assumes "\<forall>i<38. m (0x1000 + 4 * of_nat i) \<noteq> None \<and> m (0x2000 + 4 * of_nat i) \<noteq> None"
  shows "switch_call 0x1000 0x2000 (switch_example 0x1000 0x2000) m" "switch_call 0x2000 0x1000 (switch_example 0x2000 0x1000) m"
  using assms switch_example_apart switch_example_apart [THEN not_sym]
  by (simp_all add: switch_call_def switch_example_def get_reg_def)

theorem switch_back_witness:
  "\<exists>c' m' d m3. switch_regs (switch_example 0x1000 0x2000, \<lambda>_. Some 0) = Inr (c', m') \<and>
    switch_regs (switch_example 0x2000 0x1000, m') = Inr (d, m3) \<and> get_reg r_s0 d = 16 \<and> cpu_pc d = 0x80003000"
proof -
  let ?c = "switch_example 0x1000 0x2000"
  have call: "switch_call 0x1000 0x2000 ?c (\<lambda>_. Some 0)" by (rule switch_example_call) simp
  obtain c' m' where c': "switch_regs (?c, \<lambda>_. Some 0) = Inr (c', m')"
    and ret: "\<And>other d m2. switch_call other 0x1000 d m2 \<Longrightarrow> \<forall>i<38. m2 (0x1000 + 4 * of_nat i) = m' (0x1000 + 4 * of_nat i) \<Longrightarrow>
      \<exists>d' m3. switch_regs (d, m2) = Inr (d', m3) \<and> same_context ?c d'"
    using switch_back [OF call] by blast
  have "frame_at (\<lambda>_. Some 0) 0x2000 (replicate 38 0)" by (simp add: frame_at_def)
  from switch_run [OF call this] c' have m': "frame_at m' 0x1000 (context_words ?c)"
    "\<And>a. (\<forall>i<38. a \<noteq> 0x1000 + 4 * of_nat i) \<Longrightarrow> m' a = Some 0" by auto
  have "m' (0x2000 + 4 * of_nat i) = Some 0" if "i < 38" for i
    by (rule m'(2)) (use switch_example_apart [of _ i] that in metis)
  then have "switch_call 0x2000 0x1000 (switch_example 0x2000 0x1000) m'"
    using m'(1) by (intro switch_example_call) (auto simp: frame_at_def context_words_length)
  from ret [OF this] obtain d m3 where "switch_regs (switch_example 0x2000 0x1000, m') = Inr (d, m3)" "same_context ?c d" by auto
  moreover have "get_reg r_s0 ?c = 16" "get_reg r_ra ?c = 0x80003000" by (simp_all add: switch_example_def trap_example_def get_reg_def)
  ultimately show ?thesis using c' by (auto simp: same_context_def)
qed

end
