(* ===== verification/Tlb.thy ===== *)
theory Tlb
  imports UserMap Cp0
begin

unbundle bit_operations_syntax

text \<open>
  The translation buffer: \<^verbatim>\<open>tlb_flush\<close> of \<^verbatim>\<open>src/kern/arch/mips/arch_mmu.c\<close> and the refill handler
  \<^verbatim>\<open>src/kern/arch/mips/tlbex.S\<close>, on the registers of the coprocessor and the page tables of
  \<open>Pgtable\<close>. An entry maps a pair of pages; the processor uses it for an address with its upper 19
  bits when both pages are global or the address space matches.
\<close>

section \<open>The buffer\<close>

record tlb_entry =
  te_hi :: u32
  te_lo0 :: u32
  te_lo1 :: u32
  te_mask :: u32

record mmu =
  mmu_cp0 :: cp0
  mmu_tlb :: "tlb_entry list"

text \<open>The instructions that write an entry; which one \<^verbatim>\<open>tlbwr\<close> takes is up to the processor.\<close>

definition tlb_write :: "nat \<Rightarrow> mmu \<Rightarrow> mmu res" where
  "tlb_write i c = (let cp = mmu_cp0 c in
     and_then (wr (mmu_tlb c) i \<lparr>te_hi = read_c0 C0_entryhi cp, te_lo0 = read_c0 C0_entrylo0 cp, te_lo1 = read_c0 C0_entrylo1 cp,
       te_mask = read_c0 C0_pagemask cp\<rparr>) (\<lambda>t. Inr (c\<lparr>mmu_tlb := t\<rparr>)))"

definition tlbwi :: "mmu \<Rightarrow> mmu res" where
  "tlbwi c = tlb_write (unat (read_c0 C0_index (mmu_cp0 c))) c"

definition tlbwr :: "nat \<Rightarrow> mmu \<Rightarrow> mmu res" where
  "tlbwr random c = tlb_write random c"

definition write_mmu :: "c0_name \<Rightarrow> u32 \<Rightarrow> mmu \<Rightarrow> mmu" where
  "write_mmu r v c = c\<lparr>mmu_cp0 := write_c0 r v (mmu_cp0 c)\<rparr>"

definition ASID_INVALID :: u32 where "ASID_INVALID = 0xff"

definition ENTRYHI_DUMMY :: "u32 \<Rightarrow> u32" where
  "ENTRYHI_DUMMY idx = push_bit (PAGE_SHIFT + 1) idx OR ASID_INVALID"

definition PAGEMASK_VALUE :: u32 where "PAGEMASK_VALUE = PM_4K"

definition get_tlb_entries :: "cp0 \<Rightarrow> nat" where
  "get_tlb_entries c = unat (drop_bit 25 (read_c0 C0_config1 c) AND 0x3f) + 1"

definition tlb_flush :: "mmu \<Rightarrow> mmu res" where
  "tlb_flush c =
     and_then (for_up 0 (get_tlb_entries (mmu_cp0 c)) (\<lambda>i c.
       tlbwi (write_mmu C0_pagemask PAGEMASK_VALUE (write_mmu C0_entrylo1 0 (write_mmu C0_entrylo0 0
         (write_mmu C0_entryhi (ENTRYHI_DUMMY (of_nat i)) (write_mmu C0_index (of_nat i) c)))))) c)
     (\<lambda>c. Inr (write_mmu C0_entryhi 0 c))"

definition mmu_init :: "mmu \<Rightarrow> mmu res" where
  "mmu_init c = tlb_flush c"

text \<open>\<open>switch_pgindex\<close> of \<^verbatim>\<open>pgtable.c\<close>, with the flush.\<close>

definition switch_pgindex_mmu :: "ptr \<Rightarrow> 'a vmem_scheme \<Rightarrow> mmu \<Rightarrow> (int \<times> 'a vmem_scheme \<times> mmu) res" where
  "switch_pgindex_mmu pg s c =
     (case switch_pgindex pg s of (r, s) \<Rightarrow> and_then (tlb_flush c) (\<lambda>c. Inr (r, s, c)))"

section \<open>The refill handler\<close>

definition PTE_SOFT_SHIFT :: nat where "PTE_SOFT_SHIFT = 6"

text \<open>What the processor does before the handler runs.\<close>

definition tlb_miss :: "u32 \<Rightarrow> mmu \<Rightarrow> mmu" where
  "tlb_miss va c = write_mmu C0_entryhi ((va AND NOT (mask 13)) OR (read_c0 C0_entryhi (mmu_cp0 c) AND mask 8)) (write_mmu C0_badvaddr va c)"

text \<open>
  \<^verbatim>\<open>__tlb_entry\<close>. The value says whether the handler wrote an entry and returned; otherwise it goes on
  to the general exception entry.
\<close>

definition tlb_entry_handler :: "nat \<Rightarrow> 'a vmem_scheme \<Rightarrow> mmu \<Rightarrow> (bool \<times> mmu) res" where
  "tlb_entry_handler random s c =
     (let k1 = vm_current_pgdir s in
      if k1 = 0 then Inr (False, c)
      else let k0 = drop_bit PDXSHIFT (read_c0 C0_badvaddr (mmu_cp0 c)) AND PTXMASK in
        and_then (rd_entry k1 k0 s) (\<lambda>k1.
        if k1 = 0 then Inr (False, c)
        else let k0 = drop_bit PTXSHIFT (read_c0 C0_badvaddr (mmu_cp0 c)) AND (PTXMASK - 1) in
          and_then (rd_entry k1 k0 s) (\<lambda>e0.
          and_then (rd_entry k1 (k0 + 1) s) (\<lambda>e1.
          let k0 = drop_bit PTE_SOFT_SHIFT e0; k1 = drop_bit PTE_SOFT_SHIFT e1;
              c = write_mmu C0_entrylo1 k1 (write_mmu C0_entrylo0 k0 c);
              k1 = drop_bit PTXSHIFT (read_c0 C0_badvaddr (mmu_cp0 c)) AND 1;
              k0 = (if k1 = 0 then k0 else read_c0 C0_entrylo1 (mmu_cp0 c));
              k0 = k0 AND drop_bit PTE_SOFT_SHIFT PTE_VALID in
          if k0 = 0 then Inr (False, c)
          else and_then (tlbwr random c) (\<lambda>c. Inr (True, c))))))"

section \<open>Translation\<close>

definition LO_GLOBAL :: u32 where "LO_GLOBAL = 1"
definition LO_VALID :: u32 where "LO_VALID = 2"

text \<open>Whether an entry is used for an address, and the half of it for the page.\<close>

definition te_matches :: "u32 \<Rightarrow> u32 \<Rightarrow> tlb_entry \<Rightarrow> bool" where
  "te_matches hi va e \<longleftrightarrow> te_hi e AND NOT (mask 13) = va AND NOT (mask 13) \<and>
     (te_lo0 e AND te_lo1 e AND LO_GLOBAL \<noteq> 0 \<or> te_hi e AND mask 8 = hi AND mask 8)"

definition te_lo :: "u32 \<Rightarrow> tlb_entry \<Rightarrow> u32" where
  "te_lo va e = (if bit va 12 then te_lo1 e else te_lo0 e)"

text \<open>The possible translations of an address; with at most one matching entry there is at most one.\<close>

definition tlb_translations :: "mmu \<Rightarrow> u32 \<Rightarrow> u32 set" where
  "tlb_translations c va = {push_bit 12 (drop_bit 6 (te_lo va e)) OR (va AND mask 12) | e.
     e \<in> set (mmu_tlb c) \<and> te_matches (read_c0 C0_entryhi (mmu_cp0 c)) va e \<and> te_lo va e AND LO_VALID \<noteq> 0}"

text \<open>Every valid half of an entry is the page table entry of its page.\<close>

definition tlb_coherent :: "'a vmem_scheme \<Rightarrow> mmu \<Rightarrow> bool" where
  "tlb_coherent s c \<longleftrightarrow> (\<forall>e\<in>set (mmu_tlb c). \<forall>va. te_hi e AND NOT (mask 13) = va AND NOT (mask 13) \<longrightarrow>
     te_lo va e AND LO_VALID \<noteq> 0 \<longrightarrow> te_lo va e = drop_bit 6 (page_entry s (vm_current_pgdir s) (vpn va)))"

section \<open>Flushing\<close>

definition te_dummy :: "nat \<Rightarrow> tlb_entry" where
  "te_dummy i = \<lparr>te_hi = ENTRYHI_DUMMY (of_nat i), te_lo0 = 0, te_lo1 = 0, te_mask = PAGEMASK_VALUE\<rparr>"

lemma write_mmu_sel [simp]:
  "mmu_cp0 (write_mmu r v c) = write_c0 r v (mmu_cp0 c)" "mmu_tlb (write_mmu r v c) = mmu_tlb c"
  by (simp_all add: write_mmu_def)

lemma tlb_entries_bound: "get_tlb_entries c \<le> 64"
proof -
  have "(0x3f :: u32) = mask 6" by (simp add: mask_eq_exp_minus_1)
  then have "unat (x AND 0x3f) = unat x mod 64" for x :: u32 using unat_and_mask [of x 6] by simp
  then show ?thesis by (simp add: get_tlb_entries_def Suc_le_eq)
qed

lemma tlb_flush_run:
  assumes n: "length (mmu_tlb c) = get_tlb_entries (mmu_cp0 c)"
  shows "\<exists>c'. tlb_flush c = Inr c' \<and> mmu_tlb c' = map te_dummy [0..<get_tlb_entries (mmu_cp0 c)]"
proof -
  let ?n = "get_tlb_entries (mmu_cp0 c)"
  let ?I = "\<lambda>j (d :: mmu). length (mmu_tlb d) = ?n \<and> (\<forall>i<j. mmu_tlb d ! i = te_dummy i)"
  let ?b = "\<lambda>i c. tlbwi (write_mmu C0_pagemask PAGEMASK_VALUE (write_mmu C0_entrylo1 0 (write_mmu C0_entrylo0 0
         (write_mmu C0_entryhi (ENTRYHI_DUMMY (of_nat i)) (write_mmu C0_index (of_nat i) c)))))"
  have "\<exists>d. for_up 0 ?n ?b c = Inr d \<and> ?I ?n d"
  proof (rule for_up_invariant [where I = ?I])
    fix j and d :: mmu assume j: "j < ?n" "?I j d"
    then have "unat (of_nat j :: u32) = j" using tlb_entries_bound [of "mmu_cp0 c"] by (intro unat_of_nat_u32) simp
    then show "\<exists>d'. ?b j d = Inr d' \<and> ?I (Suc j) d'"
      using j by (simp add: tlbwi_def tlb_write_def Let_def te_dummy_def nth_list_update less_Suc_eq)
  qed (use n in auto)
  then obtain d where d: "for_up 0 ?n ?b c = Inr d" "?I ?n d" by blast
  then have "tlb_flush c = Inr (write_mmu C0_entryhi 0 d)" by (simp add: tlb_flush_def)
  moreover have "mmu_tlb d = map te_dummy [0..<?n]" using d(2) by (intro nth_equalityI) auto
  ultimately show ?thesis by simp
qed

lemma dummy_coherent: "set (mmu_tlb c) \<subseteq> range te_dummy \<Longrightarrow> tlb_coherent s c"
  by (auto simp: tlb_coherent_def te_lo_def te_dummy_def)

section \<open>Refilling\<close>

lemma pair_index:
  "unat (drop_bit PTXSHIFT va AND (PTXMASK - 1)) = 2 * (vpn va div 2) mod 1024"
proof -
  have "PTXMASK - 1 = mask 10 AND NOT (mask 1)" by (simp add: PTXMASK_eq mask_eq_exp_minus_1)
  then have e: "drop_bit PTXSHIFT va AND (PTXMASK - 1) = (drop_bit 12 va AND NOT (mask 1)) AND mask 10"
    by (simp add: PTXSHIFT_def PAGE_SHIFT_def ac_simps)
  show ?thesis unfolding e by (simp only: unat_and_mask unat_and_not_mask) (simp add: unat_drop_bit_eq drop_bit_eq_div unat_div mult.commute)
qed

lemma pair_of_page: "2 * (n div 2) div 1024 = n div 1024" "Suc (2 * (n div 2)) div 1024 = n div 1024"
  "Suc (2 * (n div 2)) mod 1024 = Suc (2 * (n div 2) mod 1024)" for n :: nat
proof -
  have d: "m div 1024 = m div 2 div 512" "m mod 1024 = 2 * (m div 2 mod 512) + m mod 2" for m :: nat
    using div_mult2_eq [of m 2 512] mod_mult2_eq [of m 2 512] by simp_all
  have h: "Suc (2 * (n div 2)) div 2 = n div 2" "Suc (2 * (n div 2)) mod 2 = 1" by presburger+
  show "2 * (n div 2) div 1024 = n div 1024" "Suc (2 * (n div 2)) div 1024 = n div 1024" by (simp_all add: d h)
  show "Suc (2 * (n div 2)) mod 1024 = Suc (2 * (n div 2) mod 1024)" by (simp add: d h)
qed

lemma bit_page: "bit va 12 \<longleftrightarrow> odd (vpn va)" for va :: u32
  using bit_unsigned_iff [of va 12, where ?'a = nat] by (simp add: bit_iff_odd)

lemma page_of_pair: "vpn va = (if bit va 12 then Suc (2 * (vpn va div 2)) else 2 * (vpn va div 2))"
  by (simp add: bit_page)

lemma upper_bits: "va AND NOT (mask 13) = va' AND NOT (mask 13) \<longleftrightarrow> vpn va div 2 = vpn va' div 2" for va va' :: u32
proof -
  have "va AND NOT (mask 13) = va' AND NOT (mask 13) \<longleftrightarrow> unat va div 2 ^ 13 * 2 ^ 13 = unat va' div 2 ^ 13 * 2 ^ 13"
    by (simp only: word_unat_eq_iff unat_and_not_mask)
  also have "\<dots> \<longleftrightarrow> vpn va div 2 = vpn va' div 2" by (simp add: div_mult2_eq [symmetric])
  finally show ?thesis .
qed

lemma soft_valid: "drop_bit 6 e AND LO_VALID \<noteq> 0 \<longleftrightarrow> e AND PTE_VALID \<noteq> 0" for e :: u32
  using and_exp_eq_0_iff_not_bit [of "drop_bit 6 e" 1] and_exp_eq_0_iff_not_bit [of e 7]
  by (simp add: LO_VALID_def PTE_VALID_def bit_drop_bit_eq)

lemma translated: "push_bit 12 (drop_bit 6 (drop_bit 6 e)) OR (va AND mask 12) = PTE_PADDR e OR PAGE_OFFSET va" for e va :: u32
proof -
  have m: "PTE_LOWMASK = mask 12" "PAGE_OFFSET va = va AND mask 12"
    by (simp_all add: PTE_LOWMASK_def PAGE_OFFSET_def PAGE_MASK_def PAGE_SIZE_def mask_eq_exp_minus_1)
  show ?thesis unfolding PTE_PADDR_def m by (rule bit_word_eqI) (auto simp: bit_simps bit_mask_iff)
qed

text \<open>The handler on a miss, in terms of what the tables map.\<close>

definition refilled :: "'a vmem_scheme \<Rightarrow> u32 \<Rightarrow> mmu \<Rightarrow> mmu" where
  "refilled s va c = write_mmu C0_entrylo1 (drop_bit 6 (page_entry s (vm_current_pgdir s) (Suc (2 * (vpn va div 2)))))
     (write_mmu C0_entrylo0 (drop_bit 6 (page_entry s (vm_current_pgdir s) (2 * (vpn va div 2)))) (tlb_miss va c))"

lemma refill_handler_run:
  assumes wf: "pgt_wf s (vm_current_pgdir s)" "vm_current_pgdir s \<noteq> 0"
  shows "tlb_entry_handler random s (tlb_miss va c) =
    (if \<not> has_leaf s (vm_current_pgdir s) (vpn va div 1024) then Inr (False, tlb_miss va c)
     else if page_entry s (vm_current_pgdir s) (vpn va) AND PTE_VALID = 0 then Inr (False, refilled s va c)
     else and_then (tlbwr random (refilled s va c)) (\<lambda>c. Inr (True, c)))"
proof -
  let ?pg = "vm_current_pgdir s" and ?n = "vpn va"
  obtain dir where dir: "vm_tables s ?pg = Some dir" "length dir = 1024" using wf(1) by (rule pgt_wfE)
  have va: "read_c0 C0_badvaddr (mmu_cp0 (tlb_miss va c)) = va" by (simp add: tlb_miss_def)
  have top: "rd_entry ?pg (drop_bit PDXSHIFT va AND PTXMASK) s = Inr (dir ! (?n div 1024))"
    using dir unat_PDX [of va] vpn_less(1) [of va] by (simp add: rd_entry_def PDX_def)
  have leaf: "has_leaf s ?pg (?n div 1024) \<longleftrightarrow> dir ! (?n div 1024) \<noteq> 0" using dir(1) by (simp add: has_leaf_def)
  show ?thesis
  proof (cases "dir ! (?n div 1024) = 0")
    case True
    then show ?thesis using leaf top wf(2) by (simp add: tlb_entry_handler_def Let_def va)
  next
    case False
    let ?k = "drop_bit PTXSHIFT va AND (PTXMASK - 1)"
    have i1: "unat ?k = 2 * (?n div 2) mod 1024" by (rule pair_index)
    moreover have "unat ?k < 1024" unfolding i1 by simp
    then have "unat (?k + 1) = Suc (unat ?k)" using unat_add_lem [THEN iffD1, of ?k 1] by simp
    ultimately have i: "unat ?k = 2 * (?n div 2) mod 1024" "unat (?k + 1) = Suc (2 * (?n div 2)) mod 1024"
      by (simp_all only: pair_of_page)
    have e0: "rd_entry (dir ! (?n div 1024)) ?k s = Inr (page_entry s ?pg (2 * (?n div 2)))"
      using rd_leaf [OF wf(1) dir(1), of "2 * (?n div 2)" ?k] False vpn_less(1) [of va] i(1) by (simp only: pair_of_page) simp
    have e1: "rd_entry (dir ! (?n div 1024)) (?k + 1) s = Inr (page_entry s ?pg (Suc (2 * (?n div 2))))"
      using rd_leaf [OF wf(1) dir(1), of "Suc (2 * (?n div 2))" "?k + 1"] False vpn_less(1) [of va] i(2) by (simp only: pair_of_page) simp
    have odd: "drop_bit PTXSHIFT va AND 1 = 0 \<longleftrightarrow> \<not> bit va 12"
      by (simp add: PTXSHIFT_def PAGE_SHIFT_def and_one_eq mod_2_eq_odd even_drop_bit_iff_not_bit)
    have v: "drop_bit 6 PTE_VALID = LO_VALID" by (simp add: PTE_VALID_def LO_VALID_def)
    show ?thesis
      using False leaf top wf(2) e0 e1 soft_valid [of "page_entry s ?pg ?n"] page_of_pair [of va]
      by (simp add: tlb_entry_handler_def Let_def va refilled_def odd v PTE_SOFT_SHIFT_def split: if_splits)
  qed
qed

text \<open>The entry that a refill writes is coherent, whichever entry it replaces.\<close>

lemma refill_write:
  assumes "random < length (mmu_tlb c)"
  shows "\<exists>e. tlbwr random (refilled s va c) = Inr ((refilled s va c)\<lparr>mmu_tlb := (mmu_tlb c)[random := e]\<rparr>) \<and>
    te_hi e AND NOT (mask 13) = va AND NOT (mask 13) \<and> te_hi e AND mask 8 = read_c0 C0_entryhi (mmu_cp0 c) AND mask 8 \<and>
    (\<forall>va'. va AND NOT (mask 13) = va' AND NOT (mask 13) \<longrightarrow> te_lo va' e = drop_bit 6 (page_entry s (vm_current_pgdir s) (vpn va')))"
proof -
  let ?hi = "(va AND NOT (mask 13)) OR (read_c0 C0_entryhi (mmu_cp0 c) AND mask 8)"
  have hi: "?hi AND NOT (mask 13) = va AND NOT (mask 13)" "?hi AND mask 8 = read_c0 C0_entryhi (mmu_cp0 c) AND mask 8"
    by (rule bit_word_eqI, auto simp: bit_simps bit_mask_iff)+
  have lo: "(if bit va' 12 then drop_bit 6 (page_entry s p (Suc (2 * (vpn va div 2)))) else drop_bit 6 (page_entry s p (2 * (vpn va div 2)))) =
      drop_bit 6 (page_entry s p (vpn va'))" if "va AND NOT (mask 13) = va' AND NOT (mask 13)" for va' p
    using that page_of_pair [of va'] unfolding upper_bits by auto
  let ?e = "\<lparr>te_hi = ?hi, te_lo0 = drop_bit 6 (page_entry s (vm_current_pgdir s) (2 * (vpn va div 2))),
    te_lo1 = drop_bit 6 (page_entry s (vm_current_pgdir s) (Suc (2 * (vpn va div 2)))), te_mask = read_c0 C0_pagemask (mmu_cp0 c)\<rparr>"
  have "tlbwr random (refilled s va c) = Inr ((refilled s va c)\<lparr>mmu_tlb := (mmu_tlb c)[random := ?e]\<rparr>)"
    using assms by (simp add: tlbwr_def tlb_write_def refilled_def tlb_miss_def Let_def)
  moreover have "te_lo va' ?e = drop_bit 6 (page_entry s (vm_current_pgdir s) (vpn va'))"
    if "va AND NOT (mask 13) = va' AND NOT (mask 13)" for va'
    using lo [OF that, of "vm_current_pgdir s"] by (simp only: te_lo_def tlb_entry.select_convs)
  ultimately show ?thesis using hi by (intro exI [of _ ?e]) simp
qed

lemma miss_tlb [simp]: "mmu_tlb (tlb_miss va c) = mmu_tlb c" "mmu_tlb (refilled s va c) = mmu_tlb c"
  by (simp_all add: tlb_miss_def refilled_def)

lemma refill_coherent:
  assumes wf: "pgt_wf s (vm_current_pgdir s)" "vm_current_pgdir s \<noteq> 0" and co: "tlb_coherent s c"
    and run: "tlb_entry_handler random s (tlb_miss va c) = Inr (b, c')"
  shows "tlb_coherent s c'"
proof -
  consider "c' = tlb_miss va c" | "c' = refilled s va c" | "tlbwr random (refilled s va c) = Inr c'"
    using run unfolding refill_handler_run [OF wf] by (auto simp: and_then_eq_Inr split: if_splits)
  then show ?thesis
  proof cases
    case 3
    then have r: "random < length (mmu_tlb c)" by (auto simp: tlbwr_def tlb_write_def Let_def wr_def split: if_splits)
    obtain e where e: "c' = (refilled s va c)\<lparr>mmu_tlb := (mmu_tlb c)[random := e]\<rparr>" "te_hi e AND NOT (mask 13) = va AND NOT (mask 13)"
      "\<And>va'. va AND NOT (mask 13) = va' AND NOT (mask 13) \<Longrightarrow> te_lo va' e = drop_bit 6 (page_entry s (vm_current_pgdir s) (vpn va'))"
      using refill_write [OF r, of s va] 3 by auto
    have sub: "set (mmu_tlb c') \<subseteq> insert e (set (mmu_tlb c))" using e(1) set_update_subset_insert [of "mmu_tlb c" random e] by simp
    show ?thesis unfolding tlb_coherent_def
    proof (intro ballI allI impI)
      fix x va' assume x: "x \<in> set (mmu_tlb c')" "te_hi x AND NOT (mask 13) = va' AND NOT (mask 13)" "te_lo va' x AND LO_VALID \<noteq> 0"
      show "te_lo va' x = drop_bit 6 (page_entry s (vm_current_pgdir s) (vpn va'))"
      proof (cases "x = e")
        case True
        then show ?thesis using e(2) e(3) [of va'] x(2) by simp
      next
        case False
        then have "x \<in> set (mmu_tlb c)" using sub x(1) by blast
        with co x(2,3) show ?thesis unfolding tlb_coherent_def by blast
      qed
    qed
  qed (use co in \<open>simp_all add: tlb_coherent_def\<close>)
qed

text \<open>The states of the processor after a flush and any number of misses, with the tables unchanged.\<close>

inductive tlb_run :: "'a vmem_scheme \<Rightarrow> mmu \<Rightarrow> bool" for s where
  flush: "length (mmu_tlb c) = get_tlb_entries (mmu_cp0 c) \<Longrightarrow> tlb_flush c = Inr c' \<Longrightarrow> tlb_run s c'"
| miss: "tlb_run s c \<Longrightarrow> tlb_entry_handler random s (tlb_miss va c) = Inr (b, c') \<Longrightarrow> tlb_run s c'"

lemma tlb_run_coherent:
  assumes wf: "pgt_wf s (vm_current_pgdir s)" "vm_current_pgdir s \<noteq> 0"
  shows "tlb_run s c \<Longrightarrow> tlb_coherent s c"
proof (induction rule: tlb_run.induct)
  case (flush c c')
  then show ?case using tlb_flush_run [of c] dummy_coherent [of c' s] by auto
next
  case (miss c random va b c')
  then show ?case using refill_coherent [OF wf] by blast
qed

lemma refill_spec:
  assumes wf: "pgt_wf s (vm_current_pgdir s)" "vm_current_pgdir s \<noteq> 0" and r: "random < length (mmu_tlb c)"
  shows "\<exists>c'. tlb_entry_handler random s (tlb_miss va c) =
      Inr (page_entry s (vm_current_pgdir s) (vpn va) AND PTE_VALID \<noteq> 0, c') \<and>
    (if page_entry s (vm_current_pgdir s) (vpn va) AND PTE_VALID \<noteq> 0
     then (PTE_PADDR (page_entry s (vm_current_pgdir s) (vpn va)) OR PAGE_OFFSET va) \<in> tlb_translations c' va
     else mmu_tlb c' = mmu_tlb c)"
proof -
  let ?e = "page_entry s (vm_current_pgdir s) (vpn va)"
  show ?thesis
  proof (cases "?e AND PTE_VALID = 0")
    case True
    then show ?thesis unfolding refill_handler_run [OF wf] by auto
  next
    case False
    then have leaf: "has_leaf s (vm_current_pgdir s) (vpn va div 1024)" by (intro entry_leaf) auto
    obtain e where e: "tlbwr random (refilled s va c) = Inr ((refilled s va c)\<lparr>mmu_tlb := (mmu_tlb c)[random := e]\<rparr>)"
      "te_hi e AND NOT (mask 13) = va AND NOT (mask 13)" "te_hi e AND mask 8 = read_c0 C0_entryhi (mmu_cp0 c) AND mask 8"
      "te_lo va e = drop_bit 6 ?e"
      using refill_write [OF r, of s va] by blast
    let ?c = "(refilled s va c)\<lparr>mmu_tlb := (mmu_tlb c)[random := e]\<rparr>"
    have "e \<in> set (mmu_tlb ?c)" using r by (simp add: set_update_memI)
    moreover have "read_c0 C0_entryhi (mmu_cp0 ?c) AND mask 8 = read_c0 C0_entryhi (mmu_cp0 c) AND mask 8"
      unfolding refilled_def tlb_miss_def by simp (rule bit_word_eqI, auto simp: bit_simps bit_mask_iff)
    ultimately have "(PTE_PADDR ?e OR PAGE_OFFSET va) \<in> tlb_translations ?c va"
      unfolding tlb_translations_def te_matches_def
      using e(2-4) False soft_valid [of ?e] translated [of ?e va] by (auto intro!: exI [of _ e])
    then show ?thesis unfolding refill_handler_run [OF wf] using leaf False e(1) by auto
  qed
qed

text \<open>
  The page 0x400 mapped to the frame 0x7000, and a buffer of one entry.
\<close>

definition tlb_vmem :: vmem where
  "tlb_vmem = vmem_example\<lparr>vm_tables := [0x80010000 \<mapsto> (replicate 1024 0)[1 := 0x80011000], 0x80011000 \<mapsto> (replicate 1024 0)[0 := 0x70c0]],
     vm_current_pgdir := 0x80010000\<rparr>"

definition mmu_example :: mmu where
  "mmu_example = \<lparr>mmu_cp0 = (\<lambda>_. 0), mmu_tlb = [te_dummy 1]\<rparr>"

lemma tlb_vmem_ok: "pgt_wf tlb_vmem 0x80010000" "page_entry tlb_vmem 0x80010000 (vpn 0x400123) = 0x70c0"
  "vm_current_pgdir tlb_vmem = 0x80010000"
proof -
  have d: "(replicate 1024 0)[Suc 0 := 0x80011000] ! i = (if i = 1 then 0x80011000 else (0 :: u32))" if "i < 1024" for i
    using that by (simp add: nth_list_update)
  show "pgt_wf tlb_vmem 0x80010000" unfolding pgt_wf_def
    by (intro exI [of _ "(replicate 1024 0)[1 := 0x80011000]"]) (auto simp: tlb_vmem_def d split: if_splits)
  show "page_entry tlb_vmem 0x80010000 (vpn 0x400123) = 0x70c0" by (simp add: page_entry_def tlb_vmem_def)
qed (simp add: tlb_vmem_def)

lemma refill_example:
  "\<exists>c. tlb_run tlb_vmem c \<and> 0x7123 \<in> tlb_translations c 0x400123"
proof -
  obtain c where c: "tlb_flush mmu_example = Inr c" "mmu_tlb c = map te_dummy [0..<1]"
    using tlb_flush_run [of mmu_example] by (auto simp: mmu_example_def get_tlb_entries_def read_c0_eq)
  then have run: "tlb_run tlb_vmem c" by (intro tlb_run.flush [of mmu_example]) (simp_all add: mmu_example_def get_tlb_entries_def read_c0_eq)
  have "\<exists>c'. tlb_entry_handler 0 tlb_vmem (tlb_miss 0x400123 c) = Inr (True, c') \<and> 0x7123 \<in> tlb_translations c' 0x400123"
    using refill_spec [of tlb_vmem 0 c "0x400123"] tlb_vmem_ok c(2)
    by (simp add: PTE_VALID_def PTE_PADDR_def PTE_LOWMASK_def PAGE_OFFSET_def PAGE_MASK_def PAGE_SIZE_def)
  then show ?thesis using tlb_run.miss [OF run] by blast
qed

section \<open>Properties\<close>

text \<open>
  C6. The buffer agrees with the page tables. After \<open>tlb_flush\<close> and any sequence of misses handled by the
  refill code, every translation the processor can use for an address is that of a valid page
  table entry of the current directory, with the offset of the address.
\<close>

theorem tlb_sound:
  assumes "pgt_wf s (vm_current_pgdir s)" "vm_current_pgdir s \<noteq> 0" "tlb_run s c" "pa \<in> tlb_translations c va"
  shows "page_entry s (vm_current_pgdir s) (vpn va) AND PTE_VALID \<noteq> 0 \<and>
    pa = (PTE_PADDR (page_entry s (vm_current_pgdir s) (vpn va)) OR PAGE_OFFSET va)"
proof -
  obtain e where e: "e \<in> set (mmu_tlb c)" "te_hi e AND NOT (mask 13) = va AND NOT (mask 13)" "te_lo va e AND LO_VALID \<noteq> 0"
    "pa = push_bit 12 (drop_bit 6 (te_lo va e)) OR (va AND mask 12)"
    using assms(4) by (auto simp: tlb_translations_def te_matches_def)
  have "te_lo va e = drop_bit 6 (page_entry s (vm_current_pgdir s) (vpn va))"
    using tlb_run_coherent [OF assms(1-3)] e(1-3) unfolding tlb_coherent_def by blast
  then show ?thesis using e(3,4) soft_valid translated by simp
qed

theorem tlb_sound_witness:
  "\<exists>c. tlb_run tlb_vmem c \<and> tlb_translations c 0x400123 = {0x7123}"
proof -
  obtain c where c: "tlb_run tlb_vmem c" "0x7123 \<in> tlb_translations c 0x400123" using refill_example by blast
  have "pa = 0x7123" if "pa \<in> tlb_translations c 0x400123" for pa
    using tlb_sound [OF _ _ c(1) that] tlb_vmem_ok
    by (simp add: PTE_PADDR_def PTE_LOWMASK_def PAGE_OFFSET_def PAGE_MASK_def PAGE_SIZE_def)
  with c show ?thesis by blast
qed

text \<open>
  C15. The refill handler. On a miss it finishes without a fault; if the page is mapped by a valid
  entry, it returns and the processor finds the translation, and otherwise it goes on to the general
  exception entry and leaves the buffer as it was.
\<close>

theorem tlb_refill:
  assumes wf: "pgt_wf s (vm_current_pgdir s)" "vm_current_pgdir s \<noteq> 0" and r: "random < length (mmu_tlb c)"
  shows "\<exists>c'. tlb_entry_handler random s (tlb_miss va c) =
      Inr (page_entry s (vm_current_pgdir s) (vpn va) AND PTE_VALID \<noteq> 0, c') \<and>
    (if page_entry s (vm_current_pgdir s) (vpn va) AND PTE_VALID \<noteq> 0
     then (PTE_PADDR (page_entry s (vm_current_pgdir s) (vpn va)) OR PAGE_OFFSET va) \<in> tlb_translations c' va
     else mmu_tlb c' = mmu_tlb c)"
  using assms by (rule refill_spec)

theorem tlb_refill_witness:
  "\<exists>c. tlb_entry_handler 0 tlb_vmem (tlb_miss 0x400123 mmu_example) = Inr (True, c) \<and> 0x7123 \<in> tlb_translations c 0x400123"
  using tlb_refill [of tlb_vmem 0 mmu_example "0x400123"] tlb_vmem_ok
  by (simp add: mmu_example_def PTE_VALID_def PTE_PADDR_def PTE_LOWMASK_def PAGE_OFFSET_def PAGE_MASK_def PAGE_SIZE_def)

end
