(* ===== verification/Bitops.thy ===== *)
theory Bitops
  imports Util
begin

text \<open>
  Bit searches and population counts: the portable versions of \<^verbatim>\<open>include/bitops.h\<close>, the
  MIPS versions of \<^verbatim>\<open>include/arch/mips/arch-bitops.h\<close>, and the single-bit updates of
  \<^verbatim>\<open>include/arch/mips/atomic.h\<close>. Positions are 1-based and 0 means \<open>none\<close>, as the header says.
\<close>

section \<open>Portable searches\<close>

text \<open>Each \<^verbatim>\<open>if\<close> of the C function halves the part of the word that is still searched.\<close>

definition ffs_step :: "nat \<Rightarrow> u32 \<Rightarrow> nat \<times> u32 \<Rightarrow> nat \<times> u32" where
  "ffs_step k m = (\<lambda>(num, word). if word AND m = 0 then (num + k, drop_bit k word) else (num, word))"

definition generic_ffs :: "u32 \<Rightarrow> nat" where
  "generic_ffs word =
     (if word = 0 then 0
      else let (num, word) = ffs_step 2 0x3 (ffs_step 4 0xf (ffs_step 8 0xff (ffs_step 16 0xffff (1, word))))
           in if word AND 0x1 = 0 then num + 1 else num)"

definition fls_step :: "nat \<Rightarrow> nat \<times> u32 \<Rightarrow> nat \<times> u32" where
  "fls_step k = (\<lambda>(num, word).
     if word AND push_bit (BITS_PER_LONG - k) (NOT 0) = 0 then (num - k, push_bit k word) else (num, word))"

definition generic_fls :: "u32 \<Rightarrow> nat" where
  "generic_fls word =
     (if word = 0 then 0
      else let (num, word) = fls_step 2 (fls_step 4 (fls_step 8 (fls_step 16 (BITS_PER_LONG, word))))
           in if word AND push_bit (BITS_PER_LONG - 1) (NOT 0) = 0 then num - 1 else num)"

section \<open>MIPS searches\<close>

text \<open>The instructions \<^verbatim>\<open>clz\<close> and \<^verbatim>\<open>clo\<close>: the number of leading zeros and ones of a register.\<close>

definition clz :: "u32 \<Rightarrow> nat" where
  "clz x = length (takeWhile (\<lambda>i. \<not> bit x i) (rev [0..<32]))"

definition clo :: "u32 \<Rightarrow> nat" where
  "clo x = length (takeWhile (\<lambda>i. bit x i) (rev [0..<32]))"

definition fls :: "u32 \<Rightarrow> nat" where
  "fls x = BITS_PER_LONG - clz x"

definition ffs :: "u32 \<Rightarrow> nat" where
  "ffs x = fls (x AND (- x))"

definition flz :: "u32 \<Rightarrow> nat" where
  "flz x = BITS_PER_LONG - clo x"

definition ffz :: "u32 \<Rightarrow> nat" where
  "ffz x = flz (NOT (NOT x AND (- (NOT x))))"

section \<open>64-bit searches\<close>

text \<open>
  With 32-bit longs \<^verbatim>\<open>ffs64\<close>, \<^verbatim>\<open>fls64\<close> and \<^verbatim>\<open>flz64\<close> look at the upper half only when the lower
  half is 0. In \<^verbatim>\<open>ffz64\<close> the preprocessor test is spelled \<^verbatim>\<open>bits_per_long == 32\<close>; the lower-case
  name is not a macro and counts as 0, so that branch is never compiled.
\<close>

definition generic_ffs64 :: "u64 \<Rightarrow> nat" where
  "generic_ffs64 word =
     (if (ucast word :: u32) = 0 then ffs (ucast (drop_bit 32 word)) + 32 else ffs (ucast word))"

definition generic_fls64 :: "u64 \<Rightarrow> nat" where
  "generic_fls64 word =
     (if (ucast word :: u32) = 0 then fls (ucast (drop_bit 32 word)) + 32 else fls (ucast word))"

definition generic_ffz64 :: "u64 \<Rightarrow> nat" where
  "generic_ffz64 word = ffz (ucast word)"

definition generic_flz64 :: "u64 \<Rightarrow> nat" where
  "generic_flz64 word =
     (if (ucast word :: u32) = 0 then flz (ucast (drop_bit 32 word)) + 32 else flz (ucast word))"

section \<open>Population count\<close>

definition hweight32 :: "u32 \<Rightarrow> nat" where
  "hweight32 w =
     (let res = w - (drop_bit 1 w AND 0x55555555);
          res = (res AND 0x33333333) + (drop_bit 2 res AND 0x33333333);
          res = (res + drop_bit 4 res) AND 0x0F0F0F0F;
          res = res + drop_bit 8 res
      in unat ((res + drop_bit 16 res) AND 0x000000FF))"

definition hweight64 :: "u64 \<Rightarrow> nat" where
  "hweight64 w = hweight32 (ucast (drop_bit 32 w)) + hweight32 (ucast w)"

section \<open>Atomic single-bit updates\<close>

text \<open>
  The \<^verbatim>\<open>ll\<close>/\<^verbatim>\<open>sc\<close> loop makes the read and the write one step. The bit number is 1-based:
  it is decremented, with wrap-around at 0, before it is split into word and bit.
\<close>

definition atomic_set_bit :: "u32 \<Rightarrow> u32 list \<Rightarrow> u32 list res" where
  "atomic_set_bit nr addr =
     (let nr = nr - 1; m = unat (drop_bit BITS_PER_LONG_LOG nr);
          b = unat (nr AND BITS_PER_LONG_MASK)
      in and_then (rd addr m) (\<lambda>temp. wr addr m (temp OR push_bit b 1)))"

definition atomic_clear_bit :: "u32 \<Rightarrow> u32 list \<Rightarrow> u32 list res" where
  "atomic_clear_bit nr addr =
     (let nr = nr - 1; m = unat (drop_bit BITS_PER_LONG_LOG nr);
          b = unat (nr AND BITS_PER_LONG_MASK)
      in and_then (rd addr m) (\<lambda>temp. wr addr m (temp AND NOT (push_bit b 1))))"

section \<open>Specifications\<close>

text \<open>
  The 1-based position of the first index of a range where a predicate holds, and of the last
  one; 0 where there is none.
\<close>

definition first_pos :: "(nat \<Rightarrow> bool) \<Rightarrow> nat \<Rightarrow> nat \<Rightarrow> nat" where
  "first_pos P lo n = (case filter P [lo..<n] of [] \<Rightarrow> 0 | i # _ \<Rightarrow> Suc i)"

definition last_pos :: "(nat \<Rightarrow> bool) \<Rightarrow> nat \<Rightarrow> nat" where
  "last_pos P n = (case rev (filter P [0..<n]) of [] \<Rightarrow> 0 | i # _ \<Rightarrow> Suc i)"

lemma first_pos_eq_0: "first_pos P lo n = 0 \<longleftrightarrow> (\<forall>i. lo \<le> i \<and> i < n \<longrightarrow> \<not> P i)"
proof -
  have "first_pos P lo n = 0 \<longleftrightarrow> filter P [lo..<n] = []"
    by (simp add: first_pos_def split: list.splits)
  then show ?thesis
    by (auto simp: filter_empty_conv)
qed

lemma first_pos_eqI:
  assumes "lo \<le> i" "i < n" "P i" "\<And>j. lo \<le> j \<Longrightarrow> j < i \<Longrightarrow> \<not> P j"
  shows "first_pos P lo n = Suc i"
proof -
  have "[lo..<n] = [lo..<i] @ i # [Suc i..<n]"
    using assms(1,2) by (metis le_Suc_ex less_imp_le_nat upt_add_eq_append upt_conv_Cons)
  moreover have "filter P [lo..<i] = []"
    using assms(4) by (auto simp: filter_empty_conv)
  ultimately show ?thesis
    using assms(3) by (simp add: first_pos_def)
qed

lemma first_pos_SucD:
  assumes "first_pos P lo n = Suc i"
  shows "lo \<le> i \<and> i < n \<and> P i \<and> (\<forall>j. lo \<le> j \<and> j < i \<longrightarrow> \<not> P j)"
proof -
  from assms have "\<not> (\<forall>i. lo \<le> i \<and> i < n \<longrightarrow> \<not> P i)"
    by (metis Zero_neq_Suc first_pos_eq_0)
  then have ex: "\<exists>i. lo \<le> i \<and> i < n \<and> P i" by blast
  define m where "m = (LEAST i. lo \<le> i \<and> i < n \<and> P i)"
  have m: "lo \<le> m \<and> m < n \<and> P m"
    unfolding m_def using ex by (rule LeastI_ex)
  have least: "\<not> P j" if "lo \<le> j" "j < m" for j
    using that m not_less_Least [of j "\<lambda>i. lo \<le> i \<and> i < n \<and> P i"] by (auto simp: m_def)
  have "first_pos P lo n = Suc m"
    using m least by (intro first_pos_eqI) auto
  with assms m least show ?thesis by auto
qed


section \<open>The searches find what they should\<close>

text \<open>
  The state of the \<^verbatim>\<open>ffs\<close> search: the bits below \<open>num - 1\<close> are clear, they have been shifted out,
  and there is a set bit among the next \<open>k\<close>.
\<close>

definition ffs_inv :: "u32 \<Rightarrow> nat \<Rightarrow> nat \<times> u32 \<Rightarrow> bool" where
  "ffs_inv w k = (\<lambda>(num, word). \<exists>s. num = Suc s \<and> word = drop_bit s w \<and>
     (\<forall>j < s. \<not> bit w j) \<and> (\<exists>j<k. bit w (s + j)))"

lemma ffs_inv_step:
  assumes "ffs_inv w n st" and "n = k + k" and m: "m = mask k"
  shows "ffs_inv w k (ffs_step k m st)"
proof -
  obtain num word where st: "st = (num, word)" by (cases st)
  with assms obtain s j where s: "num = Suc s" "word = drop_bit s w" "\<And>j. j < s \<Longrightarrow> \<not> bit w j"
    "j < k + k" "bit w (s + j)" by (auto simp: ffs_inv_def)
  have z: "word AND m = 0 \<longleftrightarrow> (\<forall>j<k. \<not> bit w (s + j))"
    by (simp add: m and_mask_eq_0_bits s(2) bit_drop_bit_eq)
  show ?thesis
  proof (cases "word AND m = 0")
    case False
    with z s st show ?thesis
      by (auto simp: ffs_inv_def ffs_step_def)
  next
    case True
    with z have c: "\<not> bit w (s + i)" if "i < k" for i
      using that by blast
    have low: "\<not> bit w i" if "i < s + k" for i
      using s(3) [of i] c [of "i - s"] that by (cases "i < s") auto
    have j: "j - k < k" "bit w (s + k + (j - k))"
      using c [of j] s(4,5) by (cases "j < k"; simp)+
    have "ffs_step k m st = (Suc (s + k), drop_bit (s + k) w)"
      using True by (simp add: st ffs_step_def s(1,2) drop_bit_drop_bit add.commute)
    with low j show ?thesis
      by (auto simp: ffs_inv_def)
  qed
qed

lemma generic_ffs_first_pos: "generic_ffs w = first_pos (bit w) 0 32"
proof (cases "w = 0")
  case True
  then show ?thesis by (simp add: first_pos_eq_0 generic_ffs_def)
next
  case False
  let ?st = "ffs_step 2 0x3 (ffs_step 4 0xf (ffs_step 8 0xff (ffs_step 16 0xffff (1, w))))"
  have "ffs_inv w 32 (1, w)"
    using False bit_word_less [of w] by (auto simp: ffs_inv_def word_eq_0_bits)
  then have "ffs_inv w 2 ?st"
    by (rule ffs_inv_step [OF ffs_inv_step [OF ffs_inv_step [OF ffs_inv_step]]])
      (simp_all add: mask_eq_exp_minus_1)
  then obtain s j where st: "?st = (Suc s, drop_bit s w)" "\<And>j. j < s \<Longrightarrow> \<not> bit w j"
    "j < 2" "bit w (s + j)"
    by (cases ?st) (auto simp: ffs_inv_def)
  have b1: "drop_bit s w AND 1 = 0 \<longleftrightarrow> \<not> bit w s"
    by (simp add: and_one_eq mod2_eq_if even_drop_bit_iff_not_bit)
  have eq: "generic_ffs w = (if bit w s then Suc s else Suc (Suc s))"
    using False unfolding generic_ffs_def st(1) by (simp add: b1)
  have "first_pos (bit w) 0 32 = (if bit w s then Suc s else Suc (Suc s))"
    using st bit_word_less [of w "s + j"] less_2_cases [OF st(3)]
    by (auto intro!: first_pos_eqI simp: less_Suc_eq)
  with eq show ?thesis by simp
qed

text \<open>The same for the \<^verbatim>\<open>fls\<close> search, from the top of the word.\<close>

lemma last_pos_eq_0: "last_pos P n = 0 \<longleftrightarrow> (\<forall>i<n. \<not> P i)"
proof -
  have "last_pos P n = 0 \<longleftrightarrow> rev (filter P [0..<n]) = []"
    by (simp only: last_pos_def) (simp split: list.splits)
  then show ?thesis
    by (auto simp: filter_empty_conv)
qed

lemma last_pos_eqI:
  assumes "i < n" "P i" "\<And>j. i < j \<Longrightarrow> j < n \<Longrightarrow> \<not> P j"
  shows "last_pos P n = Suc i"
proof -
  have "[0..<n] = [0..<i] @ i # [Suc i..<n]"
    using assms(1) by (metis less_imp_add_positive less_imp_le_nat upt_add_eq_append upt_conv_Cons zero_le le_add_diff_inverse)
  moreover have "filter P [Suc i..<n] = []"
    using assms(3) by (auto simp: filter_empty_conv)
  ultimately show ?thesis
    using assms(2) by (simp add: last_pos_def)
qed

lemma last_pos_SucD:
  assumes "last_pos P n = Suc i"
  shows "i < n \<and> P i \<and> (\<forall>j. i < j \<and> j < n \<longrightarrow> \<not> P j)"
proof -
  from assms have ex: "\<exists>i. i < n \<and> P i"
    by (metis Zero_neq_Suc last_pos_eq_0)
  define m where "m = (GREATEST i. i < n \<and> P i)"
  have m: "m < n \<and> P m"
    unfolding m_def by (rule GreatestI_ex_nat [OF ex, of n]) auto
  have gr: "j \<le> m" if "j < n" "P j" for j
    unfolding m_def by (rule Greatest_le_nat [of _ j n]) (use that in auto)
  have "last_pos P n = Suc m"
    using m gr by (intro last_pos_eqI) (auto simp: leD)
  with assms m gr show ?thesis
    by (auto simp: leD)
qed

definition fls_inv :: "u32 \<Rightarrow> nat \<Rightarrow> nat \<times> u32 \<Rightarrow> bool" where
  "fls_inv w k = (\<lambda>(num, word). k \<le> num \<and> num \<le> 32 \<and> word = push_bit (32 - num) w \<and>
     (\<forall>j. num \<le> j \<longrightarrow> \<not> bit w j) \<and> (\<exists>j. num - k \<le> j \<and> bit w j))"

lemma and_high_eq_0: "w AND push_bit (32 - k) (- 1) = 0 \<longleftrightarrow> (\<forall>j. 32 - k \<le> j \<longrightarrow> \<not> bit w j)"
  for w :: u32
  by (auto simp: word_eq_0_bits bit_simps simp flip: not_le dest: bit_u32D)

lemma and_top_eq_0: "w AND push_bit 31 (- 1) = 0 \<longleftrightarrow> \<not> bit w 31" for w :: u32
proof -
  have "31 \<le> j \<longleftrightarrow> j = 31 \<or> 32 \<le> j" for j :: nat
    by auto
  then show ?thesis
    using and_high_eq_0 [of w 1] by auto
qed

lemma fls_inv_step:
  assumes "fls_inv w n st" and "n = k + k"
  shows "fls_inv w k (fls_step k st)"
proof -
  obtain num word where st: "st = (num, word)" by (cases st)
  with assms obtain j where s: "k + k \<le> num" "num \<le> 32" "word = push_bit (32 - num) w"
    "\<And>j. num \<le> j \<Longrightarrow> \<not> bit w j" "num - (k + k) \<le> j" "bit w j" by (auto simp: fls_inv_def)
  have z: "word AND push_bit (32 - k) (- 1) = 0 \<longleftrightarrow> (\<forall>j. num - k \<le> j \<longrightarrow> \<not> bit w j)" (is "?z \<longleftrightarrow> ?r")
  proof
    assume ?z
    show ?r
    proof (intro allI impI)
      fix i assume i: "num - k \<le> i"
      show "\<not> bit w i"
      proof (cases "i < num")
        case True
        then have "\<not> bit word (32 - num + i)"
          using \<open>?z\<close> i s(1,2) unfolding and_high_eq_0 by auto
        with True s(2,3) show ?thesis by (auto simp: bit_simps)
      next
        case False
        with s(4) show ?thesis by simp
      qed
    qed
  next
    assume ?r
    then show ?z
      unfolding and_high_eq_0 using s(1,2) by (auto simp: s(3) bit_simps)
  qed
  show ?thesis
  proof (cases ?z)
    case False
    with z s st show ?thesis
      by (auto simp: fls_inv_def fls_step_def BITS_PER_LONG_def)
  next
    case True
    then have "fls_step k st = (num - k, push_bit (32 - (num - k)) w)"
      using s(1,2) by (simp add: st fls_step_def BITS_PER_LONG_def s(3) push_bit_push_bit add.commute)
    with True z s show ?thesis
      by (auto simp: fls_inv_def)
  qed
qed

lemma generic_fls_last_pos: "generic_fls w = last_pos (bit w) 32"
proof (cases "w = 0")
  case True
  then show ?thesis by (simp add: last_pos_eq_0 generic_fls_def)
next
  case False
  let ?st = "fls_step 2 (fls_step 4 (fls_step 8 (fls_step 16 (BITS_PER_LONG, w))))"
  have "fls_inv w 32 (BITS_PER_LONG, w)"
    using False by (auto simp: fls_inv_def word_eq_0_bits BITS_PER_LONG_def)
  then have "fls_inv w 2 ?st"
    by (rule fls_inv_step [OF fls_inv_step [OF fls_inv_step [OF fls_inv_step]]]) simp_all
  then obtain num j where st: "?st = (num, push_bit (32 - num) w)" "2 \<le> num" "num \<le> 32"
    "\<And>j. num \<le> j \<Longrightarrow> \<not> bit w j" "num - 2 \<le> j" "bit w j"
    by (cases ?st) (auto simp: fls_inv_def)
  have b1: "push_bit (32 - num) w AND push_bit 31 (- 1) = 0 \<longleftrightarrow> \<not> bit w (num - 1)"
    unfolding and_top_eq_0 using st(2,3) by (auto simp: bit_push_bit_iff)
  have eq: "generic_fls w = (if bit w (num - 1) then num else num - 1)"
    using False b1 unfolding generic_fls_def st(1) by (simp add: BITS_PER_LONG_def)
  have "last_pos (bit w) 32 = (if bit w (num - 1) then Suc (num - 1) else Suc (num - 2))"
  proof (cases "bit w (num - 1)")
    case True
    with st(2-4) have "last_pos (bit w) 32 = Suc (num - 1)"
      by (intro last_pos_eqI) auto
    with True show ?thesis by simp
  next
    case F: False
    have "j = num - 2"
      using st(2) st(4) [of j] st(5,6) F by (cases "j = num - 1"; cases "num \<le> j") auto
    with F st have "last_pos (bit w) 32 = Suc (num - 2)"
    proof (intro last_pos_eqI)
      fix i assume "num - 2 < i" "i < 32"
      then show "\<not> bit w i"
        using F st(4) [of i] by (cases "i = num - 1") auto
    qed (use st in auto)
    with F show ?thesis by simp
  qed
  moreover have "Suc (num - 2) = num - 1" and "Suc (num - 1) = num"
    using st(2) by simp_all
  ultimately show ?thesis
    using eq by simp
qed

text \<open>The MIPS versions.\<close>

lemma last_pos_Suc: "last_pos P (Suc n) = (if P n then Suc n else last_pos P n)"
  by (simp add: last_pos_def)

lemma last_pos_takeWhile: "n - length (takeWhile (\<lambda>i. \<not> P i) (rev [0..<n])) = last_pos P n"
proof (induction n)
  case 0
  then show ?case by (simp add: last_pos_def)
next
  case (Suc n)
  have "length (takeWhile (\<lambda>i. \<not> P i) (rev [0..<n])) \<le> n"
    using length_takeWhile_le [of "\<lambda>i. \<not> P i" "rev [0..<n]"] by simp
  with Suc show ?case by (simp add: last_pos_Suc)
qed

lemma fls_last_pos: "fls w = last_pos (bit w) 32"
  unfolding fls_def clz_def BITS_PER_LONG_def by (rule last_pos_takeWhile)

lemma flz_eq_fls: "flz w = fls (NOT w)"
proof -
  have "takeWhile (\<lambda>i. bit w i) (rev [0..<32]) = takeWhile (\<lambda>i. \<not> bit (NOT w) i) (rev [0..<32])"
    by (rule takeWhile_cong [OF refl]) (simp only: bit_not_iff set_rev set_upt atLeastLessThan_iff, simp)
  then show ?thesis
    unfolding flz_def fls_def clo_def clz_def by (rule arg_cong)
qed

lemma ffz_eq_ffs: "ffz w = ffs (NOT w)"
  by (simp add: ffz_def ffs_def flz_eq_fls)

lemma odd_and_minus: "y AND - y = 1" if "odd y" for y :: u32
proof -
  have "y = (y AND NOT 1) + (y AND 1)"
    by (subst disjunctive_add) (auto simp: bit_simps intro: bit_word_eqI)
  moreover have "y AND 1 = 1"
    using that by (simp add: and_one_eq odd_iff_mod_2_eq_one)
  ultimately have y1: "y - 1 = y AND NOT 1"
    by (metis add_diff_cancel_right')
  have "- y = NOT (y AND NOT 1)"
    unfolding minus_eq_not_minus_1 y1 by (rule refl)
  then have "bit (y AND - y) n = bit (1::u32) n" if "n < 32" for n
    using that \<open>odd y\<close> by (cases n) (auto simp: bit_simps bit_0 even_and_iff even_or_iff even_not_iff)
  then show ?thesis
    by (intro bit_word_eqI) simp
qed

lemma and_minus_lowest:
  fixes w :: u32
  assumes low: "\<And>j. j < s \<Longrightarrow> \<not> bit w j" and b: "bit w s"
  shows "w AND - w = push_bit s 1"
proof -
  have w: "w = push_bit s (drop_bit s w)"
  proof (rule bit_word_eqI)
    fix n
    show "bit w n = bit (push_bit s (drop_bit s w)) n"
      using low [of n] by (cases "n < s") (auto simp: bit_simps dest: bit_u32D)
  qed
  have "odd (drop_bit s w)"
    using b by (simp add: even_drop_bit_iff_not_bit)
  then have "drop_bit s w AND - drop_bit s w = 1"
    by (rule odd_and_minus)
  then have "push_bit s (drop_bit s w) AND - push_bit s (drop_bit s w) = push_bit s 1"
    by (simp only: push_bit_minus [symmetric] push_bit_and [symmetric])
  with w show ?thesis by simp
qed

lemma ffs_first_pos: "ffs w = first_pos (bit w) 0 32"
proof (cases "first_pos (bit w) 0 32")
  case 0
  then have "w = 0"
    unfolding first_pos_eq_0 word_eq_0_bits by (auto dest: bit_u32D)
  then have "last_pos (bit (w AND - w)) 32 = 0"
    unfolding last_pos_eq_0 by simp
  with 0 show ?thesis
    by (simp only: ffs_def fls_last_pos)
next
  case (Suc s)
  then have s: "s < 32" "bit w s" "\<And>j. j < s \<Longrightarrow> \<not> bit w j"
    by (auto dest: first_pos_SucD)
  have "last_pos (bit (push_bit s 1 :: u32)) 32 = Suc s"
    using s(1) by (intro last_pos_eqI) (auto simp: bit_simps)
  with Suc show ?thesis
    by (simp add: ffs_def fls_last_pos and_minus_lowest [OF s(3,2)])
qed

lemma ffz_first_pos: "ffz w = first_pos (\<lambda>i. \<not> bit w i) 0 32"
proof -
  have "filter (bit (NOT w)) [0..<32] = filter (\<lambda>i. \<not> bit w i) [0..<32]"
    by (rule filter_cong [OF refl]) (simp only: bit_not_iff set_upt atLeastLessThan_iff, simp)
  then show ?thesis
    unfolding ffz_eq_ffs ffs_first_pos first_pos_def by (rule arg_cong)
qed

section \<open>Properties\<close>

text \<open>
  C38. The searches of \<^verbatim>\<open>bitops.h\<close> and of \<^verbatim>\<open>arch-bitops.h\<close> agree: \<^verbatim>\<open>ffs\<close> is the 1-based position of
  the lowest set bit and \<^verbatim>\<open>fls\<close> that of the highest, whether computed by halving or by \<^verbatim>\<open>clz\<close>,
  \<^verbatim>\<open>ffz\<close> and \<^verbatim>\<open>flz\<close> those of the clear bits, and each is 0 when there is none.
\<close>

theorem word_search_correct:
  "ffs w = first_pos (bit w) 0 32 \<and> generic_ffs w = ffs w \<and>
   fls w = last_pos (bit w) 32 \<and> generic_fls w = fls w \<and>
   ffz w = first_pos (\<lambda>i. \<not> bit w i) 0 32 \<and> flz w = last_pos (\<lambda>i. \<not> bit w i) 32"
proof -
  have "last_pos (bit (NOT w)) 32 = last_pos (\<lambda>i. \<not> bit w i) 32"
    unfolding last_pos_def
    by (rule arg_cong [where f = "\<lambda>xs. case rev xs of [] \<Rightarrow> 0 | i # _ \<Rightarrow> Suc i"]) (auto intro: filter_cong simp: bit_simps)
  then show ?thesis
    using ffs_first_pos generic_ffs_first_pos fls_last_pos generic_fls_last_pos ffz_first_pos
    by (simp add: flz_eq_fls)
qed

text \<open>
  \<^verbatim>\<open>fls64\<close> looks at the upper half only when the lower half is 0, so the highest set bit of
  \<^verbatim>\<open>0x100000001\<close> is reported at position 1.
\<close>

lemma fls64_low_half_first: "generic_fls64 0x100000001 = 1"
proof -
  have "last_pos (bit (1 :: u32)) 32 = Suc 0"
    by (rule last_pos_eqI) (auto simp: bit_1_iff)
  moreover have e: "(ucast (0x100000001 :: u64) :: u32) = 1" by simp
  ultimately show ?thesis unfolding generic_fls64_def e fls_last_pos by simp
qed

text \<open>\<^verbatim>\<open>ffs64\<close> of 0 is 32, not 0.\<close>

lemma ffs64_zero: "generic_ffs64 0 = 32"
  by (simp add: generic_ffs64_def ffs_first_pos first_pos_eq_0)
end
