(* ===== verification/Bitmap.thy ===== *)
theory Bitmap
  imports Bitops
begin

text \<open>
  Bitmaps: \<^verbatim>\<open>include/bitmap.h\<close> and \<^verbatim>\<open>kern/lib/libbitmap/\<close>. A bitmap is an array of
  \<^verbatim>\<open>unsigned long\<close>; a loop that leaves the array is a \<open>Fault\<close>. Bit counts are the
  non-negative \<^verbatim>\<open>int\<close> values the callers pass.
\<close>

section \<open>Masks\<close>

definition BITMAP_FIRST_WORD_MASK :: "nat \<Rightarrow> u32" where
  "BITMAP_FIRST_WORD_MASK start = push_bit (start mod BITS_PER_LONG) (NOT 0)"

definition BITMAP_LAST_WORD_MASK :: "nat \<Rightarrow> u32" where
  "BITMAP_LAST_WORD_MASK nbits =
     (if nbits mod BITS_PER_LONG \<noteq> 0 then push_bit (nbits mod BITS_PER_LONG) 1 - 1 else NOT 0)"

section \<open>Word-by-word operations\<close>

text \<open>Read the words of two bitmaps at one index.\<close>

definition rd2 :: "u32 list \<Rightarrow> u32 list \<Rightarrow> nat \<Rightarrow> (u32 \<Rightarrow> u32 \<Rightarrow> 'a res) \<Rightarrow> 'a res" where
  "rd2 a b k f = and_then (rd a k) (\<lambda>x. and_then (rd b k) (\<lambda>y. f x y))"

definition bitmap_and :: "u32 list \<Rightarrow> u32 list \<Rightarrow> u32 list \<Rightarrow> nat \<Rightarrow> (u32 list \<times> bool) res" where
  "bitmap_and dst bitmap1 bitmap2 bits =
     and_then
       (for_up 0 (BITS_TO_LONGS bits)
          (\<lambda>k (dst, result). rd2 bitmap1 bitmap2 k (\<lambda>x y.
             and_then (wr dst k (x AND y)) (\<lambda>dst. Inr (dst, result OR (x AND y)))))
          (dst, 0))
       (\<lambda>(dst, result). Inr (dst, result \<noteq> 0))"

definition bitmap_andnot :: "u32 list \<Rightarrow> u32 list \<Rightarrow> u32 list \<Rightarrow> nat \<Rightarrow> (u32 list \<times> bool) res" where
  "bitmap_andnot dst bitmap1 bitmap2 bits =
     and_then
       (for_up 0 (BITS_TO_LONGS bits)
          (\<lambda>k (dst, result). rd2 bitmap1 bitmap2 k (\<lambda>x y.
             and_then (wr dst k (x AND NOT y)) (\<lambda>dst. Inr (dst, result OR (x AND NOT y)))))
          (dst, 0))
       (\<lambda>(dst, result). Inr (dst, result \<noteq> 0))"

definition bitmap_or :: "u32 list \<Rightarrow> u32 list \<Rightarrow> u32 list \<Rightarrow> nat \<Rightarrow> u32 list res" where
  "bitmap_or dst bitmap1 bitmap2 bits =
     for_up 0 (BITS_TO_LONGS bits)
       (\<lambda>k dst. rd2 bitmap1 bitmap2 k (\<lambda>x y. wr dst k (x OR y))) dst"

definition bitmap_xor :: "u32 list \<Rightarrow> u32 list \<Rightarrow> u32 list \<Rightarrow> nat \<Rightarrow> u32 list res" where
  "bitmap_xor dst bitmap1 bitmap2 bits =
     for_up 0 (BITS_TO_LONGS bits)
       (\<lambda>k dst. rd2 bitmap1 bitmap2 k (\<lambda>x y. wr dst k (x XOR y))) dst"

definition bitmap_complement :: "u32 list \<Rightarrow> u32 list \<Rightarrow> nat \<Rightarrow> u32 list res" where
  "bitmap_complement dst src bits =
     (let lim = bits div BITS_PER_LONG in
      and_then (for_up 0 lim (\<lambda>k dst. and_then (rd src k) (\<lambda>x. wr dst k (NOT x))) dst)
        (\<lambda>dst. if bits mod BITS_PER_LONG \<noteq> 0
               then and_then (rd src lim) (\<lambda>x. wr dst lim (NOT x AND BITMAP_LAST_WORD_MASK bits))
               else Inr dst))"

section \<open>Comparisons\<close>

text \<open>
  The shape the four comparisons share: whole words first, with an early return, then the
  remaining bits of the last word. The value says whether the early return was taken.
\<close>

definition scan_bits :: "(nat \<Rightarrow> bool res) \<Rightarrow> (nat \<Rightarrow> bool res) \<Rightarrow> nat \<Rightarrow> bool res" where
  "scan_bits whole part bits =
     (let lim = bits div BITS_PER_LONG in
      and_then (scan 0 lim whole)
        (\<lambda>found. if found then Inr True
                 else if bits mod BITS_PER_LONG \<noteq> 0 then part lim else Inr False))"

definition bitmap_equal :: "u32 list \<Rightarrow> u32 list \<Rightarrow> nat \<Rightarrow> bool res" where
  "bitmap_equal bitmap1 bitmap2 bits =
     and_then (scan_bits (\<lambda>k. rd2 bitmap1 bitmap2 k (\<lambda>x y. Inr (x \<noteq> y)))
        (\<lambda>k. rd2 bitmap1 bitmap2 k (\<lambda>x y. Inr ((x XOR y) AND BITMAP_LAST_WORD_MASK bits \<noteq> 0))) bits)
       (\<lambda>found. Inr (\<not> found))"

definition bitmap_full :: "u32 list \<Rightarrow> nat \<Rightarrow> bool res" where
  "bitmap_full bitmap bits =
     and_then (scan_bits (\<lambda>k. and_then (rd bitmap k) (\<lambda>x. Inr (NOT x \<noteq> 0)))
        (\<lambda>k. and_then (rd bitmap k) (\<lambda>x. Inr (NOT x AND BITMAP_LAST_WORD_MASK bits \<noteq> 0))) bits)
       (\<lambda>found. Inr (\<not> found))"

definition bitmap_intersects :: "u32 list \<Rightarrow> u32 list \<Rightarrow> nat \<Rightarrow> bool res" where
  "bitmap_intersects bitmap1 bitmap2 bits =
     scan_bits (\<lambda>k. rd2 bitmap1 bitmap2 k (\<lambda>x y. Inr (x AND y \<noteq> 0)))
       (\<lambda>k. rd2 bitmap1 bitmap2 k (\<lambda>x y. Inr ((x AND y) AND BITMAP_LAST_WORD_MASK bits \<noteq> 0))) bits"

definition bitmap_subset :: "u32 list \<Rightarrow> u32 list \<Rightarrow> nat \<Rightarrow> bool res" where
  "bitmap_subset bitmap1 bitmap2 bits =
     and_then (scan_bits (\<lambda>k. rd2 bitmap1 bitmap2 k (\<lambda>x y. Inr (x AND NOT y \<noteq> 0)))
        (\<lambda>k. rd2 bitmap1 bitmap2 k (\<lambda>x y. Inr ((x AND NOT y) AND BITMAP_LAST_WORD_MASK bits \<noteq> 0))) bits)
       (\<lambda>found. Inr (\<not> found))"

definition bitmap_weight :: "u32 list \<Rightarrow> nat \<Rightarrow> nat res" where
  "bitmap_weight bitmap bits =
     (let lim = bits div BITS_PER_LONG in
      and_then (for_up 0 lim (\<lambda>k w. and_then (rd bitmap k) (\<lambda>x. Inr (w + hweight32 x))) 0)
        (\<lambda>w. if bits mod BITS_PER_LONG \<noteq> 0
             then and_then (rd bitmap lim) (\<lambda>x. Inr (w + hweight32 (x AND BITMAP_LAST_WORD_MASK bits)))
             else Inr w))"

section \<open>Areas\<close>

text \<open>
  \<^verbatim>\<open>while (nr - bits_to_set >= 0)\<close>: the update of one word, \<open>f old mask\<close>, is \<^verbatim>\<open>*p |= mask_to_set\<close>
  or \<^verbatim>\<open>*p &= ~mask_to_clear\<close>. The remaining \<open>(p, nr, mask)\<close> is returned to the code after the loop.
\<close>

function area_loop :: "(u32 \<Rightarrow> u32 \<Rightarrow> u32) \<Rightarrow> u32 list \<Rightarrow> nat \<Rightarrow> nat \<Rightarrow> nat \<Rightarrow> u32 \<Rightarrow> (u32 list \<times> nat \<times> nat \<times> u32) res" where
  "area_loop f bm p nr bits_to mask_to =
     (if bits_to \<le> nr
      then and_then (rd bm p) (\<lambda>x. and_then (wr bm p (f x mask_to)) (\<lambda>bm.
             area_loop f bm (p + 1) (nr - bits_to) BITS_PER_LONG (NOT 0)))
      else Inr (bm, p, nr, mask_to))"
  by pat_completeness auto
termination
  by (relation "measure (\<lambda>(f, bm, p, nr, b, m). 2 * nr + (if b = 0 then 1 else 0))")
    (auto simp: BITS_PER_LONG_def)

declare area_loop.simps [simp del]

definition bitmap_set :: "u32 list \<Rightarrow> nat \<Rightarrow> nat \<Rightarrow> u32 list res" where
  "bitmap_set bm start nr =
     (let size = start + nr in
      and_then (area_loop (\<lambda>x m. x OR m) bm (BIT_WORD start) nr
                 (BITS_PER_LONG - start mod BITS_PER_LONG) (BITMAP_FIRST_WORD_MASK start))
        (\<lambda>(bm, p, nr, mask_to_set).
           if nr \<noteq> 0
           then and_then (rd bm p) (\<lambda>x. wr bm p (x OR (mask_to_set AND BITMAP_LAST_WORD_MASK size)))
           else Inr bm))"

definition bitmap_clear :: "u32 list \<Rightarrow> nat \<Rightarrow> nat \<Rightarrow> u32 list res" where
  "bitmap_clear bm start nr =
     (let size = start + nr in
      and_then (area_loop (\<lambda>x m. x AND NOT m) bm (BIT_WORD start) nr
                 (BITS_PER_LONG - start mod BITS_PER_LONG) (BITMAP_FIRST_WORD_MASK start))
        (\<lambda>(bm, p, nr, mask_to_clear).
           if nr \<noteq> 0
           then and_then (rd bm p) (\<lambda>x. wr bm p (x AND NOT (mask_to_clear AND BITMAP_LAST_WORD_MASK size)))
           else Inr bm))"

section \<open>Searches\<close>

text \<open>
  The loop over whole words, \<^verbatim>\<open>while (size & ~(BITS_PER_LONG-1))\<close>, the partial word after it and
  the \<^verbatim>\<open>found\<close> label. It is also the second part of the \<^verbatim>\<open>find_next\<close> searches.
\<close>

lemma whole_word_left: "sz AND NOT BITS_PER_LONG_MASK \<noteq> 0 \<longleftrightarrow> 32 \<le> sz" for sz :: u32
proof -
  have m: "BITS_PER_LONG_MASK = mask 5"
    by (simp add: BITS_PER_LONG_MASK_def mask_eq_exp_minus_1)
  have "sz AND NOT BITS_PER_LONG_MASK = 0 \<longleftrightarrow> unat sz div 2 ^ 5 * 2 ^ 5 = 0"
    unfolding m unat_and_not_mask [symmetric] by (simp add: unat_eq_0)
  also have "\<dots> \<longleftrightarrow> unat sz < 32"
    by (auto simp: div_eq_0_iff)
  finally show ?thesis
    by (auto simp: word_le_nat_alt not_less)
qed

function first_bit_loop :: "u32 list \<Rightarrow> nat \<Rightarrow> u32 \<Rightarrow> u32 \<Rightarrow> u32 res" where
  "first_bit_loop addr p result sz =
     (if sz AND NOT BITS_PER_LONG_MASK \<noteq> 0
      then and_then (rd addr p) (\<lambda>tmp.
             if tmp \<noteq> 0 then Inr (result + of_nat (ffs tmp))
             else first_bit_loop addr (p + 1) (result + of_nat BITS_PER_LONG) (sz - of_nat BITS_PER_LONG))
      else if sz = 0 then Inr 0
      else and_then (rd addr p) (\<lambda>w.
             let tmp = w AND drop_bit (BITS_PER_LONG - unat sz) (NOT 0)
             in if tmp = 0 then Inr 0 else Inr (result + of_nat (ffs tmp))))"
  by pat_completeness auto
termination
  by (relation "measure (\<lambda>(addr, p, result, sz). unat sz)")
    (simp_all add: whole_word_left BITS_PER_LONG_def unat_sub word_le_nat_alt)

function first_zero_bit_loop :: "u32 list \<Rightarrow> nat \<Rightarrow> u32 \<Rightarrow> u32 \<Rightarrow> u32 res" where
  "first_zero_bit_loop addr p result sz =
     (if sz AND NOT BITS_PER_LONG_MASK \<noteq> 0
      then and_then (rd addr p) (\<lambda>tmp.
             if NOT tmp \<noteq> 0 then Inr (result + of_nat (ffz tmp))
             else first_zero_bit_loop addr (p + 1) (result + of_nat BITS_PER_LONG) (sz - of_nat BITS_PER_LONG))
      else if sz = 0 then Inr 0
      else and_then (rd addr p) (\<lambda>w.
             let tmp = w OR push_bit (unat sz) (NOT 0)
             in if tmp = NOT 0 then Inr 0 else Inr (result + of_nat (ffz tmp))))"
  by pat_completeness auto
termination
  by (relation "measure (\<lambda>(addr, p, result, sz). unat sz)")
    (simp_all add: whole_word_left BITS_PER_LONG_def unat_sub word_le_nat_alt)

declare first_bit_loop.simps [simp del] first_zero_bit_loop.simps [simp del]

definition bitmap_find_first_bit :: "u32 list \<Rightarrow> u32 \<Rightarrow> u32 res" where
  "bitmap_find_first_bit addr sz = first_bit_loop addr 0 0 sz"

definition bitmap_find_first_zero_bit :: "u32 list \<Rightarrow> u32 \<Rightarrow> u32 res" where
  "bitmap_find_first_zero_bit addr sz = first_zero_bit_loop addr 0 0 sz"

text \<open>
  The search from a 1-based offset on: the word that holds the offset is masked first. When no
  whole word is left it is also the last one (\<^verbatim>\<open>found_first\<close>).
\<close>

definition bitmap_find_next_bit :: "u32 list \<Rightarrow> u32 \<Rightarrow> u32 \<Rightarrow> u32 res" where
  "bitmap_find_next_bit addr sz offset =
     (if offset = 0 then Inr 0
      else let offset = offset - 1; p = BIT_WORD (unat offset);
               result = offset AND NOT BITS_PER_LONG_MASK
        in if offset \<ge> sz then Inr 0
        else let sz = sz - result; offset = offset mod of_nat BITS_PER_LONG
        in if offset \<noteq> 0
           then and_then (rd addr p) (\<lambda>w.
             let tmp = w AND push_bit (unat offset) (NOT 0)
             in if sz < of_nat BITS_PER_LONG
                then let tmp = tmp AND drop_bit (BITS_PER_LONG - unat sz) (NOT 0)
                     in if tmp = 0 then Inr 0 else Inr (result + of_nat (ffs tmp))
                else if tmp \<noteq> 0 then Inr (result + of_nat (ffs tmp))
                else first_bit_loop addr (p + 1) (result + of_nat BITS_PER_LONG) (sz - of_nat BITS_PER_LONG))
           else first_bit_loop addr p result sz)"

definition bitmap_find_next_zero_bit :: "u32 list \<Rightarrow> u32 \<Rightarrow> u32 \<Rightarrow> u32 res" where
  "bitmap_find_next_zero_bit addr sz offset =
     (if offset = 0 then Inr 0
      else let offset = offset - 1; p = BIT_WORD (unat offset);
               result = offset AND NOT BITS_PER_LONG_MASK
        in if offset \<ge> sz then Inr 0
        else let sz = sz - result; offset = offset mod of_nat BITS_PER_LONG
        in if offset \<noteq> 0
           then and_then (rd addr p) (\<lambda>w.
             let tmp = w OR drop_bit (BITS_PER_LONG - unat offset) (NOT 0)
             in if sz < of_nat BITS_PER_LONG
                then let tmp = tmp OR push_bit (unat sz) (NOT 0)
                     in if tmp = NOT 0 then Inr 0 else Inr (result + of_nat (ffz tmp))
                else if NOT tmp \<noteq> 0 then Inr (result + of_nat (ffz tmp))
                else first_zero_bit_loop addr (p + 1) (result + of_nat BITS_PER_LONG) (sz - of_nat BITS_PER_LONG))
           else first_zero_bit_loop addr p result sz)"

text \<open>The search from the top: \<^verbatim>\<open>while (words) { tmp = addr[--words]; \<dots> }\<close>.\<close>

fun last_bit_loop :: "u32 list \<Rightarrow> nat \<Rightarrow> u32 \<Rightarrow> u32 res" where
  "last_bit_loop addr 0 sz = Inr sz"
| "last_bit_loop addr (Suc words) sz =
     and_then (rd addr words) (\<lambda>tmp.
       if tmp \<noteq> 0 then Inr (of_nat words * of_nat BITS_PER_LONG + of_nat (fls tmp))
       else last_bit_loop addr words sz)"

definition bitmap_find_last_bit :: "u32 list \<Rightarrow> u32 \<Rightarrow> u32 res" where
  "bitmap_find_last_bit addr sz =
     (let words = unat sz div BITS_PER_LONG; part = sz AND BITS_PER_LONG_MASK
      in if part \<noteq> 0
         then and_then (rd addr words) (\<lambda>w.
           let tmp = w AND drop_bit (BITS_PER_LONG - unat part) (NOT 0)
           in if tmp \<noteq> 0 then Inr (of_nat words * of_nat BITS_PER_LONG + of_nat (fls tmp))
              else last_bit_loop addr words sz)
         else last_bit_loop addr words sz)"

section \<open>Filling and testing\<close>

definition bitmap_zero :: "u32 list \<Rightarrow> nat \<Rightarrow> u32 list res" where
  "bitmap_zero dst nbits = for_up 0 (BITS_TO_LONGS nbits) (\<lambda>k dst. wr dst k 0) dst"

definition bitmap_fill :: "u32 list \<Rightarrow> nat \<Rightarrow> u32 list res" where
  "bitmap_fill dst nbits =
     (let nlongs = BITS_TO_LONGS nbits in
      if nlongs = 0 then Inl Fault
      else and_then (for_up 0 (nlongs - 1) (\<lambda>k dst. wr dst k (NOT 0)) dst)
             (\<lambda>dst. wr dst (nlongs - 1) (BITMAP_LAST_WORD_MASK nbits)))"

definition bitmap_test_bit :: "nat \<Rightarrow> u32 list \<Rightarrow> bool res" where
  "bitmap_test_bit nr addr =
     (if \<not> 0 < nr then Inl Panic
      else and_then (rd addr (BIT_WORD nr)) (\<lambda>w.
             Inr (1 AND drop_bit (unat (of_nat (nr - 1) AND BITS_PER_LONG_MASK)) w \<noteq> 0)))"

section \<open>Bits of a bitmap\<close>

definition bm_bit :: "u32 list \<Rightarrow> nat \<Rightarrow> bool" where
  "bm_bit a i \<longleftrightarrow> i div 32 < length a \<and> bit (a ! (i div 32)) (i mod 32)"

section \<open>Searches: the position they return\<close>

lemma first_pos_cong:
  "(\<And>i. lo \<le> i \<Longrightarrow> i < n \<Longrightarrow> P i = Q i) \<Longrightarrow> first_pos P lo n = first_pos Q lo n"
  unfolding first_pos_def by (subst filter_cong [OF refl, of _ P Q]) auto

lemma first_pos_skip:
  assumes "lo \<le> mid" "\<And>i. lo \<le> i \<Longrightarrow> i < mid \<Longrightarrow> i < n \<Longrightarrow> \<not> P i"
  shows "first_pos P lo n = first_pos P mid n"
proof (cases "first_pos P mid n")
  case 0
  with assms have "\<forall>i. lo \<le> i \<and> i < n \<longrightarrow> \<not> P i"
    by (metis first_pos_eq_0 not_less)
  with 0 show ?thesis by (metis first_pos_eq_0)
next
  case (Suc i)
  with assms show ?thesis
    by (auto dest!: first_pos_SucD intro!: first_pos_eqI) (metis not_less order.strict_trans)
qed

lemma word_hit:
  assumes bits: "\<And>j. j < 32 \<Longrightarrow> bit tmp j \<longleftrightarrow> lo \<le> 32 * p + j \<and> 32 * p + j < n \<and> P (32 * p + j)"
    and lo: "32 * p \<le> lo" and nz: "tmp \<noteq> 0"
  shows "first_pos P lo n = 32 * p + ffs tmp"
proof -
  from nz have "first_pos (bit tmp) 0 32 \<noteq> 0"
    unfolding first_pos_eq_0 by (auto simp: word_eq_0_bits dest: bit_u32D)
  then obtain i where i: "first_pos (bit tmp) 0 32 = Suc i"
    using not0_implies_Suc by blast
  then have hit: "i < 32" "bit tmp i" and least: "\<And>j. j < i \<Longrightarrow> \<not> bit tmp j"
    by (auto dest: first_pos_SucD)
  have "first_pos P lo n = Suc (32 * p + i)"
  proof (rule first_pos_eqI)
    fix j assume j: "lo \<le> j" "j < 32 * p + i"
    with lo have "j = 32 * p + (j - 32 * p)" "j - 32 * p < i" by auto
    with least [of "j - 32 * p"] bits [of "j - 32 * p"] hit(1) bits [OF hit(1)] hit(2) j show "\<not> P j"
      by auto
  qed (use hit bits in auto)
  with i show ?thesis by (simp add: ffs_first_pos)
qed

lemma word_miss:
  assumes bits: "\<And>j. j < 32 \<Longrightarrow> bit tmp j \<longleftrightarrow> lo \<le> 32 * p + j \<and> 32 * p + j < n \<and> P (32 * p + j)"
    and lo: "32 * p \<le> lo" "lo \<le> 32 * p + 32" and z: "tmp = 0"
  shows "first_pos P lo n = first_pos P (32 * p + 32) n"
proof (rule first_pos_skip)
  fix i assume i: "lo \<le> i" "i < 32 * p + 32" "i < n"
  with bits [of "i - 32 * p"] lo z show "\<not> P i" by auto
qed (use lo in simp)

lemma bm_bit_word: "p < length a \<Longrightarrow> j < 32 \<Longrightarrow> bm_bit a (32 * p + j) = bit (a ! p) j"
  by (simp add: bm_bit_def)

lemma low_mask: "drop_bit (32 - n) (- 1 :: u32) = mask n" if "n \<le> 32"
  using that by (auto intro!: bit_word_eqI simp: bit_simps)

lemma first_bit_loop_spec:
  assumes "result = of_nat (32 * p)" "32 * p + unat sz < 2 ^ 32" "32 * p + unat sz \<le> 32 * length addr"
  shows "first_bit_loop addr p result sz = Inr (of_nat (first_pos (bm_bit addr) (32 * p) (32 * p + unat sz)))"
  using assms
proof (induction addr p result sz rule: first_bit_loop.induct)
  case (1 addr p result sz)
  let ?n = "32 * p + unat sz" and ?P = "bm_bit addr"
  show ?case
  proof (cases "32 \<le> sz")
    case True
    then have sz: "32 \<le> unat sz" by (simp add: word_le_nat_alt)
    with 1(4) have p: "p < length addr" by linarith
    have bits: "bit (addr ! p) j \<longleftrightarrow> 32 * p \<le> 32 * p + j \<and> 32 * p + j < ?n \<and> ?P (32 * p + j)" if "j < 32" for j
      using that sz p by (simp add: bm_bit_word)
    show ?thesis
    proof (cases "addr ! p = 0")
      case False
      have "first_pos ?P (32 * p) ?n = 32 * p + ffs (addr ! p)"
        by (rule word_hit [OF bits _ False]) simp_all
      with True False p 1(2) show ?thesis
        by (simp add: first_bit_loop.simps [of addr p] whole_word_left)
    next
      case z: True
      have u: "unat (sz - 32) = unat sz - 32"
        using True by (simp add: unat_sub)
      have "first_bit_loop addr (p + 1) (result + of_nat BITS_PER_LONG) (sz - of_nat BITS_PER_LONG) =
        Inr (of_nat (first_pos ?P (32 * (p + 1)) (32 * (p + 1) + unat (sz - of_nat BITS_PER_LONG))))"
        by (rule 1(1)) (use True z p sz u 1(2-4) in \<open>simp_all add: whole_word_left BITS_PER_LONG_def\<close>)
      moreover have "first_pos ?P (32 * p) ?n = first_pos ?P (32 * p + 32) ?n"
        by (rule word_miss [OF bits _ _ z]) simp_all
      ultimately show ?thesis
        using True z p sz u
        by (simp add: first_bit_loop.simps [of addr p] whole_word_left BITS_PER_LONG_def add.commute [of "32 * p" 32])
    qed
  next
    case False
    then have sz: "unat sz < 32" by (simp add: word_le_nat_alt)
    show ?thesis
    proof (cases "sz = 0")
      case True
      then have "first_pos ?P (32 * p) ?n = 0"
        unfolding first_pos_eq_0 by auto
      with True show ?thesis
        by (simp only: first_bit_loop.simps [of addr p]) simp
    next
      case nz: False
      then have p: "p < length addr"
        using 1(4) unat_gt_0 [of sz] by linarith
      let ?tmp = "addr ! p AND mask (unat sz)"
      have bits: "bit ?tmp j \<longleftrightarrow> 32 * p \<le> 32 * p + j \<and> 32 * p + j < ?n \<and> ?P (32 * p + j)" if "j < 32" for j
        using that sz p by (auto simp: bm_bit_word bit_simps)
      have eq: "first_bit_loop addr p result sz = (if ?tmp = 0 then Inr 0 else Inr (result + of_nat (ffs ?tmp)))"
        using False nz p sz by (simp add: first_bit_loop.simps [of addr p] whole_word_left BITS_PER_LONG_def low_mask)
      show ?thesis
      proof (cases "?tmp = 0")
        case True
        then have "first_pos ?P (32 * p) ?n = first_pos ?P (32 * p + 32) ?n"
          by (intro word_miss [OF bits]) simp_all
        also have "\<dots> = 0"
          unfolding first_pos_eq_0 using sz by auto
        finally show ?thesis using True eq by simp
      next
        case False
        then have "first_pos ?P (32 * p) ?n = 32 * p + ffs ?tmp"
          by (intro word_hit [OF bits]) simp_all
        with False eq 1(2) show ?thesis by simp
      qed
    qed
  qed
qed

lemma not_low_mask: "NOT (w OR push_bit n (- 1)) = NOT w AND drop_bit (32 - n) (- 1)" if "n \<le> 32" for w :: u32
  using that by (auto intro!: bit_word_eqI simp: bit_simps)

lemma rd_map_NOT: "rd (map NOT a) k = and_then (rd a k) (\<lambda>x. Inr (NOT x))"
  by (simp add: rd_def)

lemma first_zero_bit_loop_eq: "first_zero_bit_loop addr p result sz = first_bit_loop (map NOT addr) p result sz"
proof (induction addr p result sz rule: first_zero_bit_loop.induct)
  case (1 addr p result sz)
  have nn: "x = NOT 0 \<longleftrightarrow> NOT x = 0" for x :: u32
    by (metis bit.double_compl)
  show ?case
  proof (cases "p < length addr \<and> 32 \<le> sz \<and> NOT (addr ! p) = 0")
    case True
    with 1 [of "addr ! p"] show ?thesis
      by (simp add: first_bit_loop.simps [of "map NOT addr" p] first_zero_bit_loop.simps [of addr p] whole_word_left)
  next
    case False
    have sz: "\<not> 32 \<le> sz \<Longrightarrow> unat sz \<le> 32"
      by (simp add: word_le_nat_alt)
    have tail: "w OR push_bit (unat sz) (NOT 0) = NOT 0 \<longleftrightarrow> NOT w AND drop_bit (32 - unat sz) (NOT 0) = 0"
      "ffz (w OR push_bit (unat sz) (NOT 0)) = ffs (NOT w AND drop_bit (32 - unat sz) (NOT 0))"
      if "\<not> 32 \<le> sz" for w :: u32
      unfolding nn ffz_eq_ffs using not_low_mask [OF sz [OF that], of w] by (simp_all only: bit.compl_zero)
    from False tail show ?thesis
      by (auto simp: first_bit_loop.simps [of "map NOT addr" p] first_zero_bit_loop.simps [of addr p]
          whole_word_left rd_def BITS_PER_LONG_def ffz_eq_ffs Let_def)
  qed
qed

lemma find_next_start:
  fixes offset :: u32
  assumes "offset \<noteq> 0"
  shows "unat (offset - 1) = unat offset - 1"
    "(offset - 1) AND NOT BITS_PER_LONG_MASK = of_nat (32 * ((unat offset - 1) div 32))"
    "unat ((offset - 1) mod of_nat BITS_PER_LONG) = (unat offset - 1) mod 32"
proof -
  show u: "unat (offset - 1) = unat offset - 1"
    using assms by (simp add: unat_minus_one)
  have m: "BITS_PER_LONG_MASK = mask 5"
    by (simp add: BITS_PER_LONG_MASK_def mask_eq_exp_minus_1)
  have "unat ((offset - 1) AND NOT BITS_PER_LONG_MASK) = 32 * ((unat offset - 1) div 32)"
    unfolding m unat_and_not_mask by (simp add: u)
  then show "(offset - 1) AND NOT BITS_PER_LONG_MASK = of_nat (32 * ((unat offset - 1) div 32))"
    by (metis of_nat_unat ucast_id)
  show "unat ((offset - 1) mod of_nat BITS_PER_LONG) = (unat offset - 1) mod 32"
    by (simp add: unat_mod u BITS_PER_LONG_def)
qed

lemma bitmap_find_next_bit_spec:
  assumes off: "offset \<noteq> 0" and len: "unat sz \<le> 32 * length addr"
  shows "bitmap_find_next_bit addr sz offset =
    Inr (of_nat (first_pos (bm_bit addr) (unat offset - 1) (unat sz)))"
proof (cases "sz \<le> offset - 1")
  case True
  then have "first_pos (bm_bit addr) (unat offset - 1) (unat sz) = 0"
    unfolding first_pos_eq_0 using find_next_start(1) [OF off] by (auto simp: word_le_nat_alt)
  then show ?thesis
    using True off by (simp add: bitmap_find_next_bit_def Let_def)
next
  case False
  define lo where "lo = unat offset - 1"
  define p where "p = lo div 32"
  define r :: u32 where "r = of_nat (32 * p)"
  note st = find_next_start [OF off, folded lo_def, folded p_def, folded r_def]
  have lo: "lo < unat sz" using False st(1) by (simp add: word_le_nat_alt)
  have plo: "32 * p \<le> lo" "lo < 32 * p + 32" "lo mod 32 = lo - 32 * p" by (auto simp: p_def minus_mult_div_eq_mod)
  have p: "p < length addr" using plo lo len by linarith
  have ur: "unat r = 32 * p" unfolding r_def by (rule unat_of_nat_u32) (use plo lo unat_u32 [of sz] in simp)
  have us: "unat (sz - r) = unat sz - 32 * p" using ur plo lo by (simp add: unat_sub_if_size word_size)
  have loop: "first_bit_loop addr p' r' sz' = Inr (of_nat (first_pos (bm_bit addr) (32 * p') (unat sz)))"
    if "r' = of_nat (32 * p')" "32 * p' + unat sz' = unat sz" for p' r' sz'
    using first_bit_loop_spec [of r' p' sz' addr] that len unat_u32 [of sz] by simp
  have "bitmap_find_next_bit addr sz offset = Inr (of_nat (first_pos (bm_bit addr) lo (unat sz)))" (is ?g)
  proof (cases "lo mod 32 = 0")
    case True
    then have "(offset - 1) mod of_nat BITS_PER_LONG = 0" using st(3) by (simp add: unat_eq_0)
    then show ?g
      using off False st True plo loop [OF r_def, of "sz - r"] us lo
      by (simp add: bitmap_find_next_bit_def Let_def BIT_WORD_def BITS_PER_LONG_def flip: p_def)
  next
    case F: False
    let ?t = "addr ! p AND push_bit (lo mod 32) (NOT 0)"
    let ?t' = "?t AND mask (unat (sz - r))"
    have nz: "(offset - 1) mod of_nat BITS_PER_LONG \<noteq> 0" using st(3) F by (metis unat_0)
    have bits: "bit ?t' j \<longleftrightarrow> lo \<le> 32 * p + j \<and> 32 * p + j < unat sz \<and> bm_bit addr (32 * p + j)" if "j < 32" for j
      using that p plo us by (auto simp: bm_bit_word bit_simps)
    have whole: "?t' = ?t" if "\<not> unat (sz - r) < 32"
      using that by (auto intro!: bit_word_eqI simp: bit_simps word_le_nat_alt dest: bit_u32D)
    have eq: "bitmap_find_next_bit addr sz offset =
       (if ?t' \<noteq> 0 then Inr (r + of_nat (ffs ?t'))
        else if sz - r < 32 then Inr 0
        else first_bit_loop addr (p + 1) (r + 32) (sz - r - 32))"
      using off False st nz p whole
      by (simp add: bitmap_find_next_bit_def Let_def BIT_WORD_def BITS_PER_LONG_def low_mask word_less_nat_alt
          flip: p_def)
    show ?g
    proof (cases "?t' = 0")
      case F: False
      then have "first_pos (bm_bit addr) lo (unat sz) = 32 * p + ffs ?t'"
        by (intro word_hit [OF bits]) (use plo in simp_all)
      with F eq show ?g by (simp add: r_def)
    next
      case z: True
      then have n: "first_pos (bm_bit addr) lo (unat sz) = first_pos (bm_bit addr) (32 * (p + 1)) (unat sz)"
        using word_miss [OF bits] plo by (simp add: add.commute [of "32 * p" 32])
      show ?g
      proof (cases "sz - r < 32")
        case True
        then have "first_pos (bm_bit addr) (32 * (p + 1)) (unat sz) = 0"
          unfolding first_pos_eq_0 using us by (auto simp: word_less_nat_alt)
        with z eq n True show ?g by (simp)
      next
        case F: False
        then have "32 * (p + 1) + unat (sz - r - 32) = unat sz"
          using us by (simp add: word_less_nat_alt unat_sub_if_size word_size)
        from loop [OF _ this, of "r + 32"] F eq n z show ?g
          by (simp add: r_def)
      qed
    qed
  qed
  then show ?thesis by (simp add: lo_def)
qed

lemma bm_bit_map_NOT: "i < 32 * length a \<Longrightarrow> bm_bit (map NOT a) i \<longleftrightarrow> \<not> bm_bit a i"
  by (auto simp: bm_bit_def bit_simps)

lemma not_high_mask: "NOT (w OR drop_bit (32 - n) (- 1)) = NOT w AND push_bit n (- 1)" if "n \<le> 32" for w :: u32
  using that by (auto intro!: bit_word_eqI simp: bit_simps)

lemma u32_full_iff: "x = NOT 0 \<longleftrightarrow> NOT x = 0" for x :: u32
  by (metis bit.double_compl)

lemma bitmap_find_next_zero_bit_eq:
  "bitmap_find_next_zero_bit addr sz offset = bitmap_find_next_bit (map NOT addr) sz offset"
proof -
  define r where "r = (offset - 1) AND NOT BITS_PER_LONG_MASK"
  define d where "d = (offset - 1) mod of_nat BITS_PER_LONG"
  have d: "unat d \<le> 32" by (simp add: d_def BITS_PER_LONG_def unat_mod)
  have e: "32 - (32 - unat d) = unat d" "sz - r < 32 \<Longrightarrow> 32 - (32 - unat (sz - r)) = unat (sz - r)"
    using d by (simp_all add: word_less_nat_alt)
  show ?thesis
    unfolding bitmap_find_next_zero_bit_def bitmap_find_next_bit_def Let_def first_zero_bit_loop_eq rd_map_NOT
      u32_full_iff ffz_eq_ffs r_def [symmetric] d_def [symmetric]
    using e by (auto simp: and_then_def BITS_PER_LONG_def simp flip: and.assoc split: sum.split)
qed

lemma bitmap_find_next_zero_bit_spec:
  assumes "offset \<noteq> 0" "unat sz \<le> 32 * length addr"
  shows "bitmap_find_next_zero_bit addr sz offset =
    Inr (of_nat (first_pos (\<lambda>i. \<not> bm_bit addr i) (unat offset - 1) (unat sz)))"
proof -
  have "first_pos (bm_bit (map NOT addr)) (unat offset - 1) (unat sz) =
      first_pos (\<lambda>i. \<not> bm_bit addr i) (unat offset - 1) (unat sz)"
    by (rule first_pos_cong) (use assms bm_bit_map_NOT in auto)
  with bitmap_find_next_bit_spec [of offset sz "map NOT addr"] assms show ?thesis
    by (simp add: bitmap_find_next_zero_bit_eq)
qed


lemma bitmap_find_first_bit_spec:
  assumes "unat sz \<le> 32 * length addr"
  shows "bitmap_find_first_bit addr sz = Inr (of_nat (first_pos (bm_bit addr) 0 (unat sz)))"
  using first_bit_loop_spec [of 0 0 sz addr] assms unat_u32 [of sz] by (simp add: bitmap_find_first_bit_def)

lemma bitmap_find_first_zero_bit_spec:
  assumes "unat sz \<le> 32 * length addr"
  shows "bitmap_find_first_zero_bit addr sz = Inr (of_nat (first_pos (\<lambda>i. \<not> bm_bit addr i) 0 (unat sz)))"
proof -
  have "first_pos (bm_bit (map NOT addr)) 0 (unat sz) = first_pos (\<lambda>i. \<not> bm_bit addr i) 0 (unat sz)"
    by (rule first_pos_cong) (use assms bm_bit_map_NOT in auto)
  with first_bit_loop_spec [of 0 0 sz "map NOT addr"] assms unat_u32 [of sz] show ?thesis
    by (simp add: bitmap_find_first_zero_bit_def first_zero_bit_loop_eq)
qed


lemma last_word_hit:
  assumes bits: "\<And>j. j < 32 \<Longrightarrow> bit tmp j \<longleftrightarrow> 32 * p + j < n \<and> P (32 * p + j)"
    and n: "n \<le> 32 * p + 32" and nz: "tmp \<noteq> 0"
  shows "last_pos P n = 32 * p + fls tmp"
proof -
  from nz have "last_pos (bit tmp) 32 \<noteq> 0"
    unfolding last_pos_eq_0 by (auto simp: word_eq_0_bits dest: bit_u32D)
  then obtain i where i: "last_pos (bit tmp) 32 = Suc i"
    using not0_implies_Suc by blast
  then have hit: "i < 32" "bit tmp i" and greatest: "\<And>j. i < j \<Longrightarrow> j < 32 \<Longrightarrow> \<not> bit tmp j"
    by (auto dest: last_pos_SucD)
  have "last_pos P n = Suc (32 * p + i)"
  proof (rule last_pos_eqI)
    fix j assume j: "32 * p + i < j" "j < n"
    with n have "j = 32 * p + (j - 32 * p)" "i < j - 32 * p" "j - 32 * p < 32" by auto
    with greatest [of "j - 32 * p"] bits [of "j - 32 * p"] j show "\<not> P j" by auto
  qed (use hit bits in auto)
  with i show ?thesis by (simp add: fls_last_pos)
qed

lemma last_word_miss:
  assumes bits: "\<And>j. j < 32 \<Longrightarrow> bit tmp j \<longleftrightarrow> 32 * p + j < n \<and> P (32 * p + j)"
    and n: "32 * p \<le> n" "n \<le> 32 * p + 32" and z: "tmp = 0"
  shows "last_pos P n = last_pos P (32 * p)"
proof -
  have no: "\<not> P j" if "32 * p \<le> j" "j < n" for j
    using bits [of "j - 32 * p"] z that n by auto
  show ?thesis
  proof (cases "last_pos P (32 * p)")
    case 0
    then have "\<forall>i<n. \<not> P i" using no by (metis last_pos_eq_0 not_le)
    then show ?thesis using 0 by (metis last_pos_eq_0)
  next
    case (Suc i)
    then have "i < 32 * p" "P i" "\<And>j. i < j \<Longrightarrow> j < 32 * p \<Longrightarrow> \<not> P j" by (auto dest: last_pos_SucD)
    then have "last_pos P n = Suc i"
      using no n by (intro last_pos_eqI) (auto, metis not_le)
    with Suc show ?thesis by simp
  qed
qed

lemma last_bit_loop_spec:
  assumes "words \<le> length addr"
  shows "last_bit_loop addr words sz =
    Inr (if last_pos (bm_bit addr) (32 * words) = 0 then sz else of_nat (last_pos (bm_bit addr) (32 * words)))"
  using assms
proof (induction words)
  case 0
  then show ?case by (simp add: last_pos_eq_0)
next
  case (Suc words)
  let ?n = "32 * words + 32"
  have bits: "bit (addr ! words) j \<longleftrightarrow> 32 * words + j < ?n \<and> bm_bit addr (32 * words + j)" if "j < 32" for j
    using that Suc by (simp add: bm_bit_word)
  have n: "32 * Suc words = ?n" by simp
  show ?case
  proof (cases "addr ! words = 0")
    case True
    with last_word_miss [OF bits] Suc show ?thesis unfolding n by simp
  next
    case False
    with last_word_hit [OF bits] have e: "last_pos (bm_bit addr) ?n = 32 * words + fls (addr ! words)" by simp
    moreover have "fls (addr ! words) \<noteq> 0"
      using False by (auto simp: fls_last_pos last_pos_eq_0 word_eq_0_bits dest: bit_u32D)
    ultimately show ?thesis using False Suc unfolding n e by (simp add: BITS_PER_LONG_def algebra_simps)
  qed
qed

lemma bitmap_find_last_bit_spec:
  assumes len: "unat sz \<le> 32 * length addr"
  shows "bitmap_find_last_bit addr sz =
    Inr (if \<exists>i<unat sz. bm_bit addr i then of_nat (last_pos (bm_bit addr) (unat sz)) else sz)"
proof -
  define p where "p = unat sz div 32"
  define q where "q = unat sz mod 32"
  have pq: "unat sz = 32 * p + q" "q < 32" by (simp_all add: p_def q_def)
  have m: "BITS_PER_LONG_MASK = mask 5"
    by (simp add: BITS_PER_LONG_MASK_def mask_eq_exp_minus_1)
  have part: "unat (sz AND BITS_PER_LONG_MASK) = q"
    unfolding m unat_and_mask q_def by simp
  let ?L = "last_pos (bm_bit addr)" and ?t = "addr ! p AND mask q"
  have "bitmap_find_last_bit addr sz = Inr (if ?L (unat sz) = 0 then sz else of_nat (?L (unat sz)))"
  proof (cases "q = 0")
    case True
    with part have "sz AND BITS_PER_LONG_MASK = 0" by (simp add: unat_eq_0)
    with True pq len last_bit_loop_spec [of p addr sz] show ?thesis
      by (simp add: bitmap_find_last_bit_def Let_def BITS_PER_LONG_def flip: p_def)
  next
    case False
    then have z: "sz AND BITS_PER_LONG_MASK \<noteq> 0" using part by auto
    have p: "p < length addr" using False pq len by linarith
    have bits: "bit ?t j \<longleftrightarrow> 32 * p + j < unat sz \<and> bm_bit addr (32 * p + j)" if "j < 32" for j
      using that p pq by (auto simp: bm_bit_word bit_simps)
    have eq: "bitmap_find_last_bit addr sz =
        (if ?t \<noteq> 0 then Inr (of_nat p * 32 + of_nat (fls ?t)) else last_bit_loop addr p sz)"
      using z p pq by (simp add: bitmap_find_last_bit_def Let_def BITS_PER_LONG_def part low_mask flip: p_def)
    show ?thesis
    proof (cases "?t = 0")
      case True
      with last_word_miss [OF bits] pq have "?L (unat sz) = ?L (32 * p)" by simp
      with eq True last_bit_loop_spec [of p addr sz] p show ?thesis by simp
    next
      case F: False
      with last_word_hit [OF bits] pq have e: "?L (unat sz) = 32 * p + fls ?t" by simp
      moreover have "fls ?t \<noteq> 0"
        using F by (auto simp: fls_last_pos last_pos_eq_0 word_eq_0_bits dest: bit_u32D)
      ultimately show ?thesis using F eq by (simp add: algebra_simps)
    qed
  qed
  moreover have "?L (unat sz) = 0 \<longleftrightarrow> \<not> (\<exists>i<unat sz. bm_bit addr i)" unfolding last_pos_eq_0 by blast
  ultimately show ?thesis by auto
qed


section \<open>Comparisons: the bits they compare\<close>

lemma ex_bit_split: "(\<exists>i<(bits :: nat). P i) \<longleftrightarrow>
   (\<exists>k<bits div 32. \<exists>j<32. P (32 * k + j)) \<or> (\<exists>j<bits mod 32. P (32 * (bits div 32) + j))"
  (is "?l \<longleftrightarrow> ?r")
proof
  assume ?l
  then obtain i where i: "i < bits" "P i" by blast
  have e: "i = 32 * (i div 32) + i mod 32" "i mod 32 < 32" by simp_all
  have b: "bits = 32 * (bits div 32) + bits mod 32" by simp
  show ?r
  proof (cases "i div 32 < bits div 32")
    case True
    with i e show ?thesis by metis
  next
    case False
    moreover have "i div 32 \<le> bits div 32" using i by (simp add: div_le_mono)
    ultimately have "i div 32 = bits div 32" by simp
    moreover from this i e b have "i mod 32 < bits mod 32" by linarith
    ultimately show ?thesis using i e by metis
  qed
next
  assume ?r
  moreover have "32 * k + j < bits" if "k < bits div 32" "j < 32" for k j
    using that by linarith
  moreover have "32 * (bits div 32) + j < bits" if "j < bits mod 32" for j
    using that mult_div_mod_eq [of 32 bits] by linarith
  ultimately show ?l by blast
qed

lemma scan_bits_spec:
  assumes "\<And>k. k < bits div 32 \<Longrightarrow> whole k = Inr (\<exists>j<32. P (32 * k + j))"
    and "bits mod 32 \<noteq> 0 \<Longrightarrow> part (bits div 32) = Inr (\<exists>j<bits mod 32. P (32 * (bits div 32) + j))"
  shows "scan_bits whole part bits = Inr (\<exists>i<bits. P i)"
proof -
  have "scan 0 (bits div 32) whole = Inr (\<exists>k. 0 \<le> k \<and> k < bits div 32 \<and> (\<exists>j<32. P (32 * k + j)))"
    by (rule scan_spec) (use assms in simp)
  moreover have "(\<exists>i<bits. P i) \<longleftrightarrow> (\<exists>k<bits div 32. \<exists>j<32. P (32 * k + j))" if "bits mod 32 = 0"
    using that by (subst ex_bit_split) simp
  ultimately show ?thesis
    using assms(2) ex_bit_split [of bits P] by (auto simp: scan_bits_def BITS_PER_LONG_def Let_def)
qed

lemma BITMAP_LAST_WORD_MASK_eq: "bits mod 32 \<noteq> 0 \<Longrightarrow> BITMAP_LAST_WORD_MASK bits = mask (bits mod 32)"
  by (simp add: BITMAP_LAST_WORD_MASK_def BITS_PER_LONG_def mask_eq_exp_minus_1)

lemma word_nonzero_bits: "w \<noteq> 0 \<longleftrightarrow> (\<exists>j<32. bit w j)" for w :: u32
  unfolding word_eq_0_bits by (auto dest: bit_u32D)

lemma word_mask_nonzero_bits:
  "bits mod 32 \<noteq> 0 \<Longrightarrow> w AND BITMAP_LAST_WORD_MASK bits \<noteq> 0 \<longleftrightarrow> (\<exists>j<bits mod 32. bit w j)" for w :: u32
  by (auto simp: BITMAP_LAST_WORD_MASK_eq and_mask_eq_0_bits)

lemma words_needed:
  assumes "bits \<le> 32 * length a"
  shows "k < bits div 32 \<Longrightarrow> k < length a" and "bits mod 32 \<noteq> 0 \<Longrightarrow> bits div 32 < length a"
  using assms mult_div_mod_eq [of 32 bits] by linarith+

lemma scan_rd2_spec:
  assumes len: "bits \<le> 32 * length a" "bits \<le> 32 * length b"
    and f: "\<And>x y j. j < 32 \<Longrightarrow> bit (f x y) j \<longleftrightarrow> g (bit x j) (bit y j)"
  shows "scan_bits (\<lambda>k. rd2 a b k (\<lambda>x y. Inr (f x y \<noteq> 0)))
      (\<lambda>k. rd2 a b k (\<lambda>x y. Inr (f x y AND BITMAP_LAST_WORD_MASK bits \<noteq> 0))) bits
    = Inr (\<exists>i<bits. g (bm_bit a i) (bm_bit b i))"
proof (rule scan_bits_spec)
  note n = words_needed [OF len(1)] words_needed [OF len(2)]
  show "rd2 a b k (\<lambda>x y. Inr (f x y \<noteq> 0)) = Inr (\<exists>j<32. g (bm_bit a (32 * k + j)) (bm_bit b (32 * k + j)))"
    if "k < bits div 32" for k
    unfolding rd2_def word_nonzero_bits using n that f by (auto simp: bm_bit_word)
  assume m: "bits mod 32 \<noteq> 0"
  have "j < 32" if "j < bits mod 32" for j
    using that mod_less_divisor [of 32 bits] by linarith
  then show "rd2 a b (bits div 32) (\<lambda>x y. Inr (f x y AND BITMAP_LAST_WORD_MASK bits \<noteq> 0)) =
     Inr (\<exists>j<bits mod 32. g (bm_bit a (32 * (bits div 32) + j)) (bm_bit b (32 * (bits div 32) + j)))"
    unfolding rd2_def word_mask_nonzero_bits [OF m]
    using n(2) [OF m] n(4) [OF m] f by (simp add: bm_bit_word cong: conj_cong)
qed

lemma bitmap_equal_spec:
  assumes "bits \<le> 32 * length a" "bits \<le> 32 * length b"
  shows "bitmap_equal a b bits = Inr (\<forall>i<bits. bm_bit a i = bm_bit b i)"
proof -
  have "x \<noteq> y \<longleftrightarrow> x XOR y \<noteq> 0" for x y :: u32
    by (simp add: bit_eq_iff bit_xor_iff)
  then show ?thesis
    using scan_rd2_spec [OF assms, of "\<lambda>x y. x XOR y" "\<lambda>x y. x \<noteq> y"]
    by (simp add: bitmap_equal_def bit_xor_iff)
qed

lemma bitmap_intersects_spec:
  assumes "bits \<le> 32 * length a" "bits \<le> 32 * length b"
  shows "bitmap_intersects a b bits = Inr (\<exists>i<bits. bm_bit a i \<and> bm_bit b i)"
  using scan_rd2_spec [OF assms, of "\<lambda>x y. x AND y" "\<lambda>x y. x \<and> y"]
  by (simp add: bitmap_intersects_def bit_and_iff)

lemma bitmap_subset_spec:
  assumes "bits \<le> 32 * length a" "bits \<le> 32 * length b"
  shows "bitmap_subset a b bits = Inr (\<forall>i<bits. bm_bit a i \<longrightarrow> bm_bit b i)"
  using scan_rd2_spec [OF assms, of "\<lambda>x y. x AND NOT y" "\<lambda>x y. x \<and> \<not> y"]
  by (auto simp: bitmap_subset_def bit_simps)

lemma bitmap_full_spec:
  assumes "bits \<le> 32 * length a"
  shows "bitmap_full a bits = Inr (\<forall>i<bits. bm_bit a i)"
proof -
  have "and_then (rd a k) f = rd2 a a k (\<lambda>x y. f x)" for k and f :: "u32 \<Rightarrow> bool res"
    by (simp add: rd2_def and_then_def split: sum.split)
  then show ?thesis
    using scan_rd2_spec [OF assms assms, of "\<lambda>x y. NOT x" "\<lambda>x y. \<not> x"]
    by (simp add: bitmap_full_def bit_simps)
qed



section \<open>Areas: the bits they change\<close>

definition area_tail :: "(u32 \<Rightarrow> u32 \<Rightarrow> u32) \<Rightarrow> nat \<Rightarrow> (u32 list \<times> nat \<times> nat \<times> u32) \<Rightarrow> u32 list res" where
  "area_tail f e = (\<lambda>(bm, p, nr, m).
     if nr \<noteq> 0 then and_then (rd bm p) (\<lambda>x. wr bm p (f x (m AND BITMAP_LAST_WORD_MASK e))) else Inr bm)"

lemma bm_bit_update:
  assumes "p < length a" "i < 32 * length a"
  shows "bm_bit (a[p := w]) i \<longleftrightarrow> (if i div 32 = p then bit w (i mod 32) else bm_bit a i)"
  using assms by (auto simp: bm_bit_def nth_list_update)

lemma other_word: "i div 32 \<noteq> p \<Longrightarrow> i < 32 * p \<or> 32 * p + 32 \<le> i" for i p :: nat
  by (metis div_nat_eqI mult.commute mult_Suc not_le add.commute)

lemma area_loop_spec:
  assumes f: "\<And>x m j. j < 32 \<Longrightarrow> bit (f x m) j \<longleftrightarrow> g (bit x j) (bit m j)" and g: "\<And>b. g b False = b"
  shows "d < 32 \<Longrightarrow> bt = 32 - d \<Longrightarrow> m = push_bit d (NOT 0) \<Longrightarrow> s = 32 * p + d \<Longrightarrow> e = s + nr \<Longrightarrow> e \<le> 32 * length bm \<Longrightarrow>
    \<exists>bm'. and_then (area_loop f bm p nr bt m) (area_tail f e) = Inr bm' \<and> length bm' = length bm \<and>
      (\<forall>i<32 * length bm. bm_bit bm' i \<longleftrightarrow> g (bm_bit bm i) (s \<le> i \<and> i < e))"
proof (induction nr arbitrary: d s p bm bt m rule: less_induct)
  case (less nr)
  have bm: "bit m j \<longleftrightarrow> d \<le> j" if "j < 32" for j
    using less.prems that by (auto simp: bit_simps)
  show ?case
  proof (cases "bt \<le> nr")
    case True
    with less.prems have p: "p < length bm" by linarith
    let ?bm = "bm[p := f (bm ! p) m]"
    have "\<exists>bm'. and_then (area_loop f ?bm (p + 1) (nr - bt) BITS_PER_LONG (NOT 0)) (area_tail f e) = Inr bm' \<and>
       length bm' = length ?bm \<and>
       (\<forall>i<32 * length ?bm. bm_bit bm' i \<longleftrightarrow> g (bm_bit ?bm i) (32 * (p + 1) \<le> i \<and> i < e))"
      by (rule less.IH [of _ 0]) (use True less.prems p in \<open>auto simp: BITS_PER_LONG_def\<close>)
    moreover have "g (bm_bit ?bm i) (32 * (p + 1) \<le> i \<and> i < e) \<longleftrightarrow> g (bm_bit bm i) (s \<le> i \<and> i < e)"
      if "i < 32 * length bm" for i
    proof (cases "i div 32 = p")
      case True
      then have "bm_bit ?bm i \<longleftrightarrow> g (bm_bit bm i) (d \<le> i mod 32)"
        using that p f bm by (simp add: bm_bit_update bm_bit_def)
      moreover obtain q where q: "i = 32 * p + q" "q < 32" "i mod 32 = q"
        using True by (metis mult_div_mod_eq mod_less_divisor zero_less_numeral)
      then have "\<not> 32 * (p + 1) \<le> i" "i < e" "s \<le> i \<longleftrightarrow> d \<le> i mod 32"
        using less.prems(1,2,4,5) \<open>bt \<le> nr\<close> by simp_all
      ultimately show ?thesis using g by simp
    next
      case False
      have "s \<le> i \<longleftrightarrow> 32 * (p + 1) \<le> i"
        using other_word [OF False] less.prems(1,4) by auto
      with False that p show ?thesis by (simp add: bm_bit_update)
    qed
    ultimately show ?thesis using p True by (simp add: area_loop.simps [of f bm])
  next
    case False
    then have eq: "area_loop f bm p nr bt m = Inr (bm, p, nr, m)" by (simp add: area_loop.simps [of f bm])
    show ?thesis
    proof (cases "nr = 0")
      case True
      then have "\<not> (s \<le> i \<and> i < e)" for i using less.prems(5) by auto
      with eq True show ?thesis by (simp only: area_tail_def) (simp add: g)
    next
      case nz: False
      let ?w = "f (bm ! p) (m AND BITMAP_LAST_WORD_MASK e)"
      from nz less.prems have p: "p < length bm" by linarith
      have e: "e mod 32 = d + nr"
        using less.prems(1,2,4,5) False mod_mult_self4 [of 32 p "d + nr"] by (simp add: algebra_simps)
      then have l: "BITMAP_LAST_WORD_MASK e = mask (d + nr)" using nz by (simp add: BITMAP_LAST_WORD_MASK_eq)
      have "bm_bit (bm[p := ?w]) i \<longleftrightarrow> g (bm_bit bm i) (s \<le> i \<and> i < e)" if "i < 32 * length bm" for i
      proof (cases "i div 32 = p")
        case True
        then obtain q where q: "i = 32 * p + q" "q < 32" "i mod 32 = q"
          by (metis mult_div_mod_eq mod_less_divisor zero_less_numeral)
        have "bit ?w (i mod 32) \<longleftrightarrow> g (bm_bit bm i) (d \<le> i mod 32 \<and> i mod 32 < d + nr)"
          using True p f bm by (simp add: l bm_bit_def bit_simps)
        moreover have "d \<le> i mod 32 \<longleftrightarrow> s \<le> i" "i mod 32 < d + nr \<longleftrightarrow> i < e"
          using q less.prems(4,5) by auto
        ultimately show ?thesis using True p that by (simp add: bm_bit_update)
      next
        case F: False
        have n: "(s \<le> i \<and> i < e) = False"
          using other_word [OF F] less.prems(1,2,4,5) False by auto
        show ?thesis unfolding n g using F p that by (simp add: bm_bit_update)
      qed
      with eq p nz show ?thesis by (simp add: area_tail_def)
    qed
  qed
qed

lemma bitmap_set_spec:
  assumes "start + nr \<le> 32 * length bm"
  shows "\<exists>bm'. bitmap_set bm start nr = Inr bm' \<and> length bm' = length bm \<and>
    (\<forall>i<32 * length bm. bm_bit bm' i \<longleftrightarrow> bm_bit bm i \<or> start \<le> i \<and> i < start + nr)"
proof -
  let ?f = "\<lambda>x m :: u32. x OR m"
  have "\<exists>bm'. and_then (area_loop ?f bm (start div 32) nr (32 - start mod 32) (push_bit (start mod 32) (NOT 0)))
      (area_tail ?f (start + nr)) = Inr bm' \<and> length bm' = length bm \<and>
    (\<forall>i<32 * length bm. bm_bit bm' i \<longleftrightarrow> bm_bit bm i \<or> start \<le> i \<and> i < start + nr)"
    by (rule area_loop_spec [where g = "\<lambda>x m. x \<or> m" and d = "start mod 32"])
      (use assms in \<open>simp_all add: bit_simps\<close>)
  then show ?thesis
    by (simp add: bitmap_set_def area_tail_def BIT_WORD_def BITS_PER_LONG_def BITMAP_FIRST_WORD_MASK_def Let_def)
qed

lemma bitmap_clear_spec:
  assumes "start + nr \<le> 32 * length bm"
  shows "\<exists>bm'. bitmap_clear bm start nr = Inr bm' \<and> length bm' = length bm \<and>
    (\<forall>i<32 * length bm. bm_bit bm' i \<longleftrightarrow> bm_bit bm i \<and> \<not> (start \<le> i \<and> i < start + nr))"
proof -
  let ?f = "\<lambda>x m :: u32. x AND NOT m"
  have "\<exists>bm'. and_then (area_loop ?f bm (start div 32) nr (32 - start mod 32) (push_bit (start mod 32) (NOT 0)))
      (area_tail ?f (start + nr)) = Inr bm' \<and> length bm' = length bm \<and>
    (\<forall>i<32 * length bm. bm_bit bm' i \<longleftrightarrow> bm_bit bm i \<and> \<not> (start \<le> i \<and> i < start + nr))"
    by (rule area_loop_spec [where g = "\<lambda>x m. x \<and> \<not> m" and d = "start mod 32"])
      (use assms in \<open>simp_all add: bit_simps\<close>)
  then show ?thesis
    by (simp add: bitmap_clear_def area_tail_def BIT_WORD_def BITS_PER_LONG_def BITMAP_FIRST_WORD_MASK_def Let_def)
qed

section \<open>Single bits\<close>

lemma atomic_bit_index:
  fixes nr :: u32
  assumes "nr \<noteq> 0"
  shows "unat (drop_bit BITS_PER_LONG_LOG (nr - 1)) = (unat nr - 1) div 32"
    and "unat ((nr - 1) AND BITS_PER_LONG_MASK) = (unat nr - 1) mod 32"
proof -
  have m: "BITS_PER_LONG_MASK = mask 5"
    by (simp add: BITS_PER_LONG_MASK_def mask_eq_exp_minus_1)
  have l: "BITS_PER_LONG_LOG = 5"
    by (simp add: util_consts)
  show "unat (drop_bit BITS_PER_LONG_LOG (nr - 1)) = (unat nr - 1) div 32"
    using assms by (simp add: l drop_bit_eq_div unat_div unat_minus_one)
  show "unat ((nr - 1) AND BITS_PER_LONG_MASK) = (unat nr - 1) mod 32"
    unfolding m unat_and_mask using assms by (simp add: unat_minus_one)
qed

lemma atomic_bit_place:
  fixes nr :: u32 and bm :: "u32 list"
  assumes "nr \<noteq> 0" "unat nr \<le> 32 * length bm"
  obtains p q where "unat (drop_bit BITS_PER_LONG_LOG (nr - 1)) = p"
    "unat ((nr - 1) AND BITS_PER_LONG_MASK) = q" "p < length bm" "q < 32"
    "\<And>i. i = unat nr - 1 \<longleftrightarrow> i div 32 = p \<and> i mod 32 = q"
proof -
  define p where "p = (unat nr - 1) div 32"
  define q where "q = (unat nr - 1) mod 32"
  have pos: "0 < unat nr" using assms(1) by (simp add: unat_gt_0)
  have pq: "unat nr - 1 = 32 * p + q" "q < 32" by (simp_all add: p_def q_def)
  have p: "p < length bm" using pos assms(2) pq by linarith
  have "i = unat nr - 1 \<longleftrightarrow> i div 32 = p \<and> i mod 32 = q" for i
    unfolding pq(1) using pq(2) by auto
  with that p pq(2) atomic_bit_index [OF assms(1), folded p_def q_def] show thesis by blast
qed

lemma atomic_set_bit_spec:
  assumes "nr \<noteq> 0" "unat nr \<le> 32 * length bm"
  shows "\<exists>bm'. atomic_set_bit nr bm = Inr bm' \<and> length bm' = length bm \<and>
    (\<forall>i<32 * length bm. bm_bit bm' i \<longleftrightarrow> bm_bit bm i \<or> i = unat nr - 1)"
proof (rule atomic_bit_place [OF assms])
  fix p q assume pq: "unat (drop_bit BITS_PER_LONG_LOG (nr - 1)) = p"
    "unat ((nr - 1) AND BITS_PER_LONG_MASK) = q" "p < length bm" "q < 32"
    and i: "\<And>i. i = unat nr - 1 \<longleftrightarrow> i div 32 = p \<and> i mod 32 = q"
  show ?thesis
    unfolding i using pq by (auto simp: atomic_set_bit_def nth_list_update bit_simps bm_bit_def split: if_splits)
qed

lemma atomic_clear_bit_spec:
  assumes "nr \<noteq> 0" "unat nr \<le> 32 * length bm"
  shows "\<exists>bm'. atomic_clear_bit nr bm = Inr bm' \<and> length bm' = length bm \<and>
    (\<forall>i<32 * length bm. bm_bit bm' i \<longleftrightarrow> bm_bit bm i \<and> i \<noteq> unat nr - 1)"
proof (rule atomic_bit_place [OF assms])
  fix p q assume pq: "unat (drop_bit BITS_PER_LONG_LOG (nr - 1)) = p"
    "unat ((nr - 1) AND BITS_PER_LONG_MASK) = q" "p < length bm" "q < 32"
    and i: "\<And>i. i = unat nr - 1 \<longleftrightarrow> i div 32 = p \<and> i mod 32 = q"
  show ?thesis
    unfolding i using pq by (auto simp: atomic_clear_bit_def nth_list_update bit_simps bm_bit_def split: if_splits)
qed

section \<open>Properties\<close>

text \<open>
  C30. The searches, within the array: the 1-based position of the first set or clear bit at or
  after the start, or of the last set bit. When there is no such bit the first four return 0 and
  the last one returns the size.
\<close>

theorem bitmap_search_correct:
  assumes "offset \<noteq> 0" "unat sz \<le> 32 * length addr"
  shows "bitmap_find_first_bit addr sz = Inr (of_nat (first_pos (bm_bit addr) 0 (unat sz))) \<and>
    bitmap_find_first_zero_bit addr sz = Inr (of_nat (first_pos (\<lambda>i. \<not> bm_bit addr i) 0 (unat sz))) \<and>
    bitmap_find_next_bit addr sz offset =
      Inr (of_nat (first_pos (bm_bit addr) (unat offset - 1) (unat sz))) \<and>
    bitmap_find_next_zero_bit addr sz offset =
      Inr (of_nat (first_pos (\<lambda>i. \<not> bm_bit addr i) (unat offset - 1) (unat sz))) \<and>
    bitmap_find_last_bit addr sz =
      Inr (if \<exists>i<unat sz. bm_bit addr i then of_nat (last_pos (bm_bit addr) (unat sz)) else sz)"
  using assms bitmap_find_first_bit_spec bitmap_find_first_zero_bit_spec bitmap_find_next_bit_spec
    bitmap_find_next_zero_bit_spec bitmap_find_last_bit_spec by blast

theorem bitmap_search_correct_witness:
  "bitmap_find_next_zero_bit [0x7, 0x30] 40 2 =
     Inr (of_nat (first_pos (\<lambda>i. \<not> bm_bit [0x7, 0x30] i) 1 40))"
  using bitmap_search_correct [of 2 40 "[0x7, 0x30]"] by simp

text \<open>
  C40. The comparisons look at the first \<open>bits\<close> bits and at no other: they decide equality,
  intersection, inclusion and fullness of the sets the two bitmaps denote.
\<close>

theorem bitmap_compare_correct:
  assumes "bits \<le> 32 * length a" "bits \<le> 32 * length b"
  shows "bitmap_equal a b bits = Inr (\<forall>i<bits. bm_bit a i = bm_bit b i) \<and>
    bitmap_intersects a b bits = Inr (\<exists>i<bits. bm_bit a i \<and> bm_bit b i) \<and>
    bitmap_subset a b bits = Inr (\<forall>i<bits. bm_bit a i \<longrightarrow> bm_bit b i) \<and>
    bitmap_full a bits = Inr (\<forall>i<bits. bm_bit a i)"
  using assms bitmap_equal_spec bitmap_intersects_spec bitmap_subset_spec bitmap_full_spec by blast

theorem bitmap_compare_correct_witness:
  "bitmap_subset [0x5, 0x1] [0x7, 0x0] 32 =
     Inr (\<forall>i<32. bm_bit [0x5, 0x1] i \<longrightarrow> bm_bit [0x7, 0x0] i)"
  using bitmap_compare_correct [of 32 "[0x5, 0x1]" "[0x7, 0x0]"] by simp

text \<open>
  C39. \<^verbatim>\<open>bitmap_set\<close> sets and \<^verbatim>\<open>bitmap_clear\<close> clears exactly the \<open>nr\<close> bits from \<open>start\<close> on,
  without leaving the array.
\<close>

theorem bitmap_area_correct:
  assumes "start + nr \<le> 32 * length bm"
  shows "\<exists>s c. bitmap_set bm start nr = Inr s \<and> bitmap_clear bm start nr = Inr c \<and>
    length s = length bm \<and> length c = length bm \<and>
    (\<forall>i<32 * length bm.
      (bm_bit s i \<longleftrightarrow> bm_bit bm i \<or> start \<le> i \<and> i < start + nr) \<and>
      (bm_bit c i \<longleftrightarrow> bm_bit bm i \<and> \<not> (start \<le> i \<and> i < start + nr)))"
  using bitmap_set_spec [OF assms] bitmap_clear_spec [OF assms] by blast

theorem bitmap_area_correct_witness:
  "\<exists>s c. bitmap_set [0, 1, 0] 20 50 = Inr s \<and> bitmap_clear [0, 1, 0] 20 50 = Inr c \<and> length s = 3 \<and> bm_bit s 40 \<and> \<not> bm_bit c 32"
proof -
  have "20 + 50 \<le> 32 * length [0, 1, 0 :: u32]" by simp
  from bitmap_area_correct [OF this] obtain s c where
    r: "bitmap_set [0, 1, 0] 20 50 = Inr s" "bitmap_clear [0, 1, 0] 20 50 = Inr c" "length s = length [0, 1, 0 :: u32]"
    and b: "\<And>i. i < 32 * length [0, 1, 0 :: u32] \<Longrightarrow>
      (bm_bit s i \<longleftrightarrow> bm_bit [0, 1, 0] i \<or> 20 \<le> i \<and> i < 20 + 50) \<and>
      (bm_bit c i \<longleftrightarrow> bm_bit [0, 1, 0] i \<and> \<not> (20 \<le> i \<and> i < 20 + 50))"
    by blast
  from r b [of 40] b [of 32] show ?thesis by simp
qed

end
