(* ===== verification/Kpid.thy ===== *)
theory Kpid
  imports Bitmap
begin

text \<open>
  The kernel process identifiers of \<^verbatim>\<open>kern/proc/proc.c\<close>: \<^verbatim>\<open>freekpid.bitmap\<close> holds one bit per
  identifier, bit \<open>k - 1\<close> for the identifier \<open>k\<close>, and a set bit is an identifier in use. The lock
  around \<^verbatim>\<open>kpid_new\<close> makes it one step, so the state is the bitmap alone.
\<close>

section \<open>Operations\<close>

definition MAX_PROCESSES :: nat where
  "MAX_PROCESSES = 65536"

definition freekpid_bitmap_init :: "u32 list" where
  "freekpid_bitmap_init = replicate (BITS_TO_LONGS MAX_PROCESSES) 0"

definition kpid_new :: "u32 list \<Rightarrow> (u32 \<times> u32 list) res" where
  "kpid_new bm =
     and_then (bitmap_find_first_zero_bit bm (of_nat MAX_PROCESSES)) (\<lambda>kpid.
     and_then (atomic_set_bit kpid bm) (\<lambda>bm. Inr (kpid, bm)))"

definition kpid_recycle :: "u32 \<Rightarrow> u32 list \<Rightarrow> u32 list res" where
  "kpid_recycle kpid bm = atomic_clear_bit kpid bm"

text \<open>Successive calls of \<^verbatim>\<open>kpid_new\<close>, and the identifiers they returned.\<close>

primrec kpid_news :: "nat \<Rightarrow> u32 list \<Rightarrow> (u32 list \<times> u32 list) res" where
  "kpid_news 0 bm = Inr ([], bm)"
| "kpid_news (Suc n) bm =
     and_then (kpid_new bm) (\<lambda>(k, bm). and_then (kpid_news n bm) (\<lambda>(ks, bm). Inr (k # ks, bm)))"

section \<open>The set of identifiers in use\<close>

definition kpid_wf :: "u32 list \<Rightarrow> bool" where
  "kpid_wf bm \<longleftrightarrow> length bm = BITS_TO_LONGS MAX_PROCESSES"

definition kpids :: "u32 list \<Rightarrow> nat set" where
  "kpids bm = {k. 0 < k \<and> k \<le> MAX_PROCESSES \<and> bm_bit bm (k - 1)}"

lemma kpid_wf_iff: "kpid_wf bm \<longleftrightarrow> length bm = 16384"
  by (simp add: kpid_wf_def BITS_TO_LONGS_def DIV_ROUND_UP_def MAX_PROCESSES_def util_consts)

lemma kpids_bit: "i < MAX_PROCESSES \<Longrightarrow> bm_bit bm i \<longleftrightarrow> Suc i \<in> kpids bm"
  by (auto simp: kpids_def)

lemma kpids_limit: "kpids bm \<subseteq> {1..MAX_PROCESSES}"
  by (auto simp: kpids_def)

lemma kpid_init: "kpid_wf freekpid_bitmap_init" "kpids freekpid_bitmap_init = {}"
  by (auto simp: kpid_wf_def freekpid_bitmap_init_def kpids_def bm_bit_def)

lemma kpid_new_spec:
  assumes wf: "kpid_wf bm" and room: "kpids bm \<noteq> {1..MAX_PROCESSES}"
  shows "\<exists>k bm'. kpid_new bm = Inr (of_nat k, bm') \<and> kpid_wf bm' \<and>
    k \<in> {1..MAX_PROCESSES} - kpids bm \<and> (\<forall>j. 1 \<le> j \<and> j < k \<longrightarrow> j \<in> kpids bm) \<and>
    kpids bm' = insert k (kpids bm)"
proof -
  have len: "length bm = 16384" using wf by (simp add: kpid_wf_iff)
  let ?P = "\<lambda>i. \<not> bm_bit bm i"
  obtain j where "1 \<le> j" "j \<le> MAX_PROCESSES" "j \<notin> kpids bm"
    using room kpids_limit [of bm] by (metis atLeastAtMost_iff subsetI subset_antisym)
  then have "j - 1 < MAX_PROCESSES" "?P (j - 1)" by (auto simp: kpids_def)
  then have "first_pos ?P 0 MAX_PROCESSES \<noteq> 0" unfolding first_pos_eq_0 by blast
  then obtain i where i: "first_pos ?P 0 MAX_PROCESSES = Suc i" using not0_implies_Suc by blast
  then have hit: "i < MAX_PROCESSES" "\<not> bm_bit bm i" "\<And>j. j < i \<Longrightarrow> bm_bit bm j" by (auto dest: first_pos_SucD)
  have u: "unat (of_nat MAX_PROCESSES :: u32) = MAX_PROCESSES" by (simp add: MAX_PROCESSES_def)
  have k: "unat (of_nat (Suc i) :: u32) = Suc i"
    by (rule unat_of_nat_u32) (use hit in \<open>simp add: MAX_PROCESSES_def\<close>)
  then have nz: "(of_nat (Suc i) :: u32) \<noteq> 0" by (metis unat_0 nat.distinct(1))
  have find: "bitmap_find_first_zero_bit bm (of_nat MAX_PROCESSES) = Inr (of_nat (Suc i))"
    using bitmap_find_first_zero_bit_spec [of "of_nat MAX_PROCESSES" bm] len i
    unfolding u by (simp add: MAX_PROCESSES_def)
  obtain bm' where bm': "atomic_set_bit (of_nat (Suc i)) bm = Inr bm'" "length bm' = length bm"
    "\<And>j. j < 32 * length bm \<Longrightarrow> bm_bit bm' j \<longleftrightarrow> bm_bit bm j \<or> j = i"
    using atomic_set_bit_spec [OF nz, of bm] k hit(1) len by (auto simp: MAX_PROCESSES_def)
  have "kpids bm' = insert (Suc i) (kpids bm)"
    using bm'(3) hit(1) len by (auto simp: kpids_def MAX_PROCESSES_def)
  moreover have "\<forall>j. 1 \<le> j \<and> j < Suc i \<longrightarrow> j \<in> kpids bm"
    using hit by (auto simp: kpids_def)
  ultimately show ?thesis
    using find bm'(1,2) wf hit by (intro exI [of _ "Suc i"] exI [of _ bm']) (auto simp: kpid_new_def kpid_wf_def kpids_def)
qed

lemma kpid_recycle_spec:
  assumes wf: "kpid_wf bm" and k: "k \<in> {1..MAX_PROCESSES}"
  shows "\<exists>bm'. kpid_recycle (of_nat k) bm = Inr bm' \<and> kpid_wf bm' \<and> kpids bm' = kpids bm - {k}"
proof -
  have len: "length bm = 16384" using wf by (simp add: kpid_wf_iff)
  have u: "unat (of_nat k :: u32) = k"
    by (rule unat_of_nat_u32) (use k in \<open>simp add: MAX_PROCESSES_def\<close>)
  then have nz: "(of_nat k :: u32) \<noteq> 0" using k by (metis atLeastAtMost_iff not_one_le_zero unat_0)
  obtain bm' where bm': "atomic_clear_bit (of_nat k) bm = Inr bm'" "length bm' = length bm"
    "\<And>j. j < 32 * length bm \<Longrightarrow> bm_bit bm' j \<longleftrightarrow> bm_bit bm j \<and> j \<noteq> k - 1"
    using atomic_clear_bit_spec [OF nz, of bm] u k len by (auto simp: MAX_PROCESSES_def)
  moreover have "kpids bm' = kpids bm - {k}"
    using bm'(3) k len by (auto simp: kpids_def MAX_PROCESSES_def)
  ultimately show ?thesis using wf by (simp add: kpid_recycle_def kpid_wf_def)
qed

text \<open>
  When every identifier is in use the search returns 0, and \<^verbatim>\<open>atomic_set_bit(0, ...)\<close> addresses the
  bit before the bitmap, which is index \<^verbatim>\<open>0xffffffff\<close> in \<^verbatim>\<open>unsigned long\<close>.
\<close>

lemma kpid_new_exhausted:
  assumes wf: "kpid_wf bm" and full: "kpids bm = {1..MAX_PROCESSES}"
  shows "kpid_new bm = Inl Fault"
proof -
  have len: "length bm = 16384" using wf by (simp add: kpid_wf_iff)
  have u: "unat (of_nat MAX_PROCESSES :: u32) = MAX_PROCESSES" by (simp add: MAX_PROCESSES_def)
  have "bm_bit bm i" if "i < MAX_PROCESSES" for i
    using that full by (simp add: kpids_bit)
  then have "first_pos (\<lambda>i. \<not> bm_bit bm i) 0 MAX_PROCESSES = 0"
    unfolding first_pos_eq_0 by blast
  then have "bitmap_find_first_zero_bit bm (of_nat MAX_PROCESSES) = Inr 0"
    using bitmap_find_first_zero_bit_spec [of "of_nat MAX_PROCESSES" bm] len
    unfolding u by (simp add: MAX_PROCESSES_def)
  moreover have "atomic_set_bit 0 bm = Inl Fault"
  proof -
    have "unat (drop_bit BITS_PER_LONG_LOG (0 - 1 :: u32)) = 2 ^ 27 - 1"
      by (simp add: util_consts drop_bit_eq_div unat_div)
    then show ?thesis unfolding atomic_set_bit_def Let_def using len by (simp add: rd_def)
  qed
  ultimately show ?thesis by (simp add: kpid_new_def)
qed

section \<open>Allocators of identifiers\<close>

text \<open>
  What a client relies on: \<open>new\<close> returns an identifier that is not in use as long as one is
  left, and \<open>recycle\<close> makes it available again.
\<close>

locale id_allocator =
  fixes wf :: "'s \<Rightarrow> bool" and used :: "'s \<Rightarrow> nat set" and limit :: nat
    and new :: "'s \<Rightarrow> (u32 \<times> 's) res" and recycle :: "u32 \<Rightarrow> 's \<Rightarrow> 's res"
  assumes new_fresh: "wf s \<Longrightarrow> used s \<noteq> {1..limit} \<Longrightarrow>
      \<exists>k s'. new s = Inr (of_nat k, s') \<and> wf s' \<and> k \<in> {1..limit} - used s \<and> used s' = insert k (used s)"
    and recycle_free: "wf s \<Longrightarrow> k \<in> {1..limit} \<Longrightarrow>
      \<exists>s'. recycle (of_nat k) s = Inr s' \<and> wf s' \<and> used s' = used s - {k}"
    and used_limit: "wf s \<Longrightarrow> used s \<subseteq> {1..limit}"
    and limit_word: "limit < 2 ^ 32"
begin

primrec new_many :: "nat \<Rightarrow> 's \<Rightarrow> (u32 list \<times> 's) res" where
  "new_many 0 s = Inr ([], s)"
| "new_many (Suc n) s =
     and_then (new s) (\<lambda>(k, s). and_then (new_many n s) (\<lambda>(ks, s). Inr (k # ks, s)))"

lemma id_unat: "k \<in> {1..limit} \<Longrightarrow> unat (of_nat k :: u32) = k"
  using limit_word by (intro unat_of_nat_u32) simp

lemma new_many_distinct:
  assumes "wf s" "card (used s) + n \<le> limit"
  shows "\<exists>ks s'. new_many n s = Inr (ks, s') \<and> wf s' \<and> length ks = n \<and> distinct (map unat ks) \<and>
    unat ` set ks \<inter> used s = {} \<and> used s' = used s \<union> unat ` set ks"
  using assms
proof (induction n arbitrary: s)
  case 0
  then show ?case by simp
next
  case (Suc n)
  have fin: "finite (used s)" using used_limit [OF Suc.prems(1)] by (rule finite_subset) simp
  have "used s \<noteq> {1..limit}" using Suc.prems(2) by auto
  then obtain k s1 where k: "new s = Inr (of_nat k, s1)" "wf s1" "k \<in> {1..limit}" "k \<notin> used s" "used s1 = insert k (used s)"
    using new_fresh [OF Suc.prems(1)] by blast
  have "card (used s1) + n \<le> limit" using k fin Suc.prems(2) by simp
  from Suc.IH [OF k(2) this] obtain ks s2 where ks: "new_many n s1 = Inr (ks, s2)" "wf s2" "length ks = n"
    "distinct (map unat ks)" "unat ` set ks \<inter> used s1 = {}" "used s2 = used s1 \<union> unat ` set ks" by blast
  with k id_unat [OF k(3)] show ?case
    by (intro exI [of _ "of_nat k # ks"] exI [of _ s2]) auto
qed

end

interpretation kpid: id_allocator kpid_wf kpids MAX_PROCESSES kpid_new kpid_recycle
proof
  fix bm k
  show "\<exists>k bm'. kpid_new bm = Inr (of_nat k, bm') \<and> kpid_wf bm' \<and> k \<in> {1..MAX_PROCESSES} - kpids bm \<and> kpids bm' = insert k (kpids bm)"
    if "kpid_wf bm" "kpids bm \<noteq> {1..MAX_PROCESSES}"
    using kpid_new_spec [OF that] by blast
  show "kpid_wf bm \<Longrightarrow> k \<in> {1..MAX_PROCESSES} \<Longrightarrow>
      \<exists>bm'. kpid_recycle (of_nat k) bm = Inr bm' \<and> kpid_wf bm' \<and> kpids bm' = kpids bm - {k}"
    by (rule kpid_recycle_spec)
  show "kpids bm \<subseteq> {1..MAX_PROCESSES}" by (rule kpids_limit)
qed (simp add: MAX_PROCESSES_def)


section \<open>Properties\<close>

text \<open>
  C27. \<^verbatim>\<open>kpid_new\<close> on every branch: as long as an identifier is left it returns the smallest one that
  is not in use and marks that one; when all are in use the bitmap access is outside the bitmap.
\<close>

theorem kpid_new_correct:
  assumes "kpid_wf bm"
  shows "if kpids bm = {1..MAX_PROCESSES} then kpid_new bm = Inl Fault
    else \<exists>k bm'. kpid_new bm = Inr (of_nat k, bm') \<and> kpid_wf bm' \<and>
      k \<in> {1..MAX_PROCESSES} - kpids bm \<and> {1..<k} \<subseteq> kpids bm \<and> kpids bm' = insert k (kpids bm)"
proof (cases "kpids bm = {1..MAX_PROCESSES}")
  case True
  with kpid_new_exhausted [OF assms] show ?thesis by simp
next
  case False
  from kpid_new_spec [OF assms False] have "\<exists>k bm'. kpid_new bm = Inr (of_nat k, bm') \<and> kpid_wf bm' \<and>
      k \<in> {1..MAX_PROCESSES} - kpids bm \<and> {1..<k} \<subseteq> kpids bm \<and> kpids bm' = insert k (kpids bm)"
    by (metis atLeastLessThan_iff subsetI)
  with False show ?thesis by simp
qed

theorem kpid_new_correct_witness:
  "\<exists>k bm'. kpid_new freekpid_bitmap_init = Inr (of_nat k, bm') \<and> kpids bm' = {k}"
proof -
  have "{} \<noteq> {1..MAX_PROCESSES}" by (simp add: MAX_PROCESSES_def)
  with kpid_new_correct [OF kpid_init(1)] show ?thesis by (auto simp: kpid_init(2))
qed

text \<open>
  Recycling an identifier whose smaller ones are all in use and asking for a new one gives
  the same identifier back and the same set in use.
\<close>

lemma kpid_recycle_new:
  assumes "kpid_wf bm" "k \<in> {1..MAX_PROCESSES}" "{1..k} \<subseteq> kpids bm"
  shows "\<exists>bm1 bm2. kpid_recycle (of_nat k) bm = Inr bm1 \<and> kpids bm1 = kpids bm - {k} \<and>
    kpid_new bm1 = Inr (of_nat k, bm2) \<and> kpids bm2 = kpids bm"
proof -
  obtain bm1 where 1: "kpid_recycle (of_nat k) bm = Inr bm1" "kpid_wf bm1" "kpids bm1 = kpids bm - {k}"
    using kpid_recycle_spec [OF assms(1,2)] by blast
  have "k \<notin> kpids bm1" using 1(3) by simp
  then have "kpids bm1 \<noteq> {1..MAX_PROCESSES}" using assms(2) by blast
  from kpid_new_spec [OF 1(2) this] obtain j bm2 where 2: "kpid_new bm1 = Inr (of_nat j, bm2)"
    "j \<in> {1..MAX_PROCESSES} - kpids bm1" "\<forall>i. 1 \<le> i \<and> i < j \<longrightarrow> i \<in> kpids bm1" "kpids bm2 = insert j (kpids bm1)"
    by blast
  have "\<not> j < k"
  proof
    assume "j < k"
    with 2(2) have "j \<in> kpids bm" by (intro subsetD [OF assms(3)]) simp
    with 2(2) 1(3) \<open>j < k\<close> show False by simp
  qed
  moreover have "\<not> k < j" using 2(3) \<open>k \<notin> kpids bm1\<close> assms(2) by auto
  ultimately have "j = k" by simp
  with 1 2 assms show ?thesis by auto
qed

lemma kpid_news_eq: "kpid_news n bm = kpid.new_many n bm"
  by (induction n arbitrary: bm) (simp_all add: split_def)

text \<open>
  C35. Any number of calls that fits in the identifiers left gives that many different
  identifiers, none of them in use before.
\<close>

theorem kpid_news_distinct:
  assumes "kpid_wf bm" "card (kpids bm) + n \<le> MAX_PROCESSES"
  shows "\<exists>ks bm'. kpid_news n bm = Inr (ks, bm') \<and> length ks = n \<and> distinct ks \<and>
    unat ` set ks \<inter> kpids bm = {} \<and> kpids bm' = kpids bm \<union> unat ` set ks"
  unfolding kpid_news_eq using kpid.new_many_distinct [OF assms] by (auto dest!: distinct_map [THEN iffD1])

theorem kpid_news_distinct_witness:
  "\<exists>ks bm'. kpid_news 3 freekpid_bitmap_init = Inr (ks, bm') \<and> length ks = 3 \<and> distinct ks"
  using kpid_news_distinct [OF kpid_init(1), of 3] by (auto simp: kpid_init(2) MAX_PROCESSES_def)

end
