(* ===== verification/Proc.thy ===== *)
theory Proc
  imports Uvm Switch Tlb Kpid
begin

unbundle bit_operations_syntax

text \<open>
  Processes: \<^verbatim>\<open>struct proc\<close> of \<^verbatim>\<open>include/aim/proc.h\<close>, their creation in \<^verbatim>\<open>kern/proc/proc.c\<close> and
  \<^verbatim>\<open>namespace.c\<close>, the process tree of \<^verbatim>\<open>proctree.c\<close> and the first frames of a process in
  \<^verbatim>\<open>kern/arch/mips/proc.c\<close>. A \<^verbatim>\<open>struct proc\<close> is an entry of \<open>sy_procs\<close> at its address, except for
  the parts that others reach through pointers into it: its context and its kernel stack are words
  of \<open>sy_words\<close>, which the assembly code reads and writes, and its list node is in \<open>sy_sched\<close>.
\<close>

section \<open>State\<close>

record proc =
  pr_kstack :: ptr
  pr_kstack_size :: u32
  pr_tid :: u32
  pr_pid :: u32
  pr_kpid :: u32
  pr_state :: u32
  pr_exit_code :: u32
  pr_exit_signal :: u32
  pr_flags :: u32
  pr_oncpu :: u32
  pr_bed :: u32
  pr_namespace :: ptr
  pr_mm :: ptr
  pr_heapsize :: u32
  pr_heapbase :: ptr
  pr_name :: "u8 list"
  pr_groupleader :: ptr
  pr_sessionleader :: ptr
  pr_tty :: ptr
  pr_mainthread :: ptr
  pr_parent :: ptr
  pr_first_child :: ptr
  pr_next_sibling :: ptr
  pr_prev_sibling :: ptr
  pr_scheduler :: ptr

text \<open>The static variables of the process code, of one processor, on top of those of the memory management.\<close>

record sys = uvm +
  sy_procs :: "ptr \<rightharpoonup> proc"
  sy_sched :: list_mem
  sy_head :: ptr
  sy_scheduler :: ptr
  sy_lock :: lock_t
  sy_lock_addr :: ptr
  sy_locks :: "ptr \<rightharpoonup> lock_t"
  sy_intrflags :: u32
  sy_current :: ptr
  sy_idle :: ptr
  sy_kernelsp :: u32
  sy_kpids :: "u32 list"
  sy_cpu :: cpu
  sy_tlb :: "tlb_entry list"
  sy_words :: word_mem

definition PS_EMBRYO :: u32 where "PS_EMBRYO = 1"
definition PS_RUNNABLE :: u32 where "PS_RUNNABLE = 2"
definition PS_SLEEPING :: u32 where "PS_SLEEPING = 3"
definition PS_ZOMBIE :: u32 where "PS_ZOMBIE = 4"
definition PS_ONPROC :: u32 where "PS_ONPROC = 5"
definition CPU_NONE :: u32 where "CPU_NONE = - 1"
definition PROC_NAME_LEN_MAX :: nat where "PROC_NAME_LEN_MAX = 256"

text \<open>The offsets of \<^verbatim>\<open>context\<close> and \<^verbatim>\<open>sched_node\<close>, and the sizes.\<close>

definition proc_context :: "ptr \<Rightarrow> ptr" where "proc_context p = p + 52"
definition proc_sched_node :: "ptr \<Rightarrow> ptr" where "proc_sched_node p = p + 504"
definition node_proc :: "ptr \<Rightarrow> ptr" where "node_proc n = n - 504"
definition sizeof_proc :: u32 where "sizeof_proc = 512"
definition sizeof_trapframe :: u32 where "sizeof_trapframe = 152"

definition kstacktop :: "proc \<Rightarrow> ptr" where
  "kstacktop proc = pr_kstack proc + pr_kstack_size proc"

definition set_proc :: "ptr \<Rightarrow> (proc \<Rightarrow> proc) \<Rightarrow> 'a sys_scheme \<Rightarrow> 'a sys_scheme res" where
  "set_proc p f s = and_then (upd (sy_procs s) p f) (\<lambda>P. Inr (s\<lparr>sy_procs := P\<rparr>))"

definition set_cp0 :: "cp0 \<Rightarrow> 'a sys_scheme \<Rightarrow> 'a sys_scheme" where
  "set_cp0 c s = s\<lparr>sy_cpu := (sy_cpu s)\<lparr>cpu_cp0 := c\<rparr>\<rparr>"

text \<open>The words of allocated memory exist from the allocation on; a word that is not written before it is read reads as 0.\<close>

definition add_words :: "ptr \<Rightarrow> nat \<Rightarrow> word_mem \<Rightarrow> word_mem" where
  "add_words a n m = (\<lambda>x. if m x = None \<and> (\<exists>i<n. x = a + 4 * of_nat i) then Some 0 else m x)"

definition drop_words :: "ptr \<Rightarrow> nat \<Rightarrow> word_mem \<Rightarrow> word_mem" where
  "drop_words a n m = (\<lambda>x. if \<exists>i<n. x = a + 4 * of_nat i then None else m x)"

definition blank_proc :: proc where
  "blank_proc = \<lparr>pr_kstack = 0, pr_kstack_size = 0, pr_tid = 0, pr_pid = 0, pr_kpid = 0, pr_state = 0, pr_exit_code = 0,
     pr_exit_signal = 0, pr_flags = 0, pr_oncpu = 0, pr_bed = 0, pr_namespace = 0, pr_mm = 0, pr_heapsize = 0, pr_heapbase = 0,
     pr_name = replicate PROC_NAME_LEN_MAX 0, pr_groupleader = 0, pr_sessionleader = 0, pr_tty = 0, pr_mainthread = 0, pr_parent = 0,
     pr_first_child = 0, pr_next_sibling = 0, pr_prev_sibling = 0, pr_scheduler = 0\<rparr>"

definition fresh_proc :: "ptr \<Rightarrow> 'a sys_scheme \<Rightarrow> 'a sys_scheme" where
  "fresh_proc p s = s\<lparr>sy_procs := (sy_procs s)(p \<mapsto> blank_proc),
     sy_sched := (sy_sched s)(proc_sched_node p \<mapsto> \<lparr>lh_next = 0, lh_prev = 0\<rparr>),
     sy_words := add_words (proc_context p) 38 (sy_words s)\<rparr>"

section \<open>Creation\<close>

definition alloc_kstack :: "'a sys_scheme mm_calls \<Rightarrow> 'a sys_scheme \<Rightarrow> (ptr \<times> 'a sys_scheme) res" where
  "alloc_kstack c s =
     and_then (mc_pgalloc c s) (\<lambda>(paddr, s).
     if paddr = - 1 then Inr (NULL, s)
     else Inr (pa2kva paddr, s\<lparr>sy_words := add_words (pa2kva paddr) 1024 (sy_words s)\<rparr>))"

definition free_kstack :: "'a sys_scheme mm_calls \<Rightarrow> ptr \<Rightarrow> 'a sys_scheme \<Rightarrow> 'a sys_scheme res" where
  "free_kstack c kstack s =
     and_then (mc_pgfree c (ucast (kva2pa kstack)) s) (\<lambda>s. Inr (s\<lparr>sy_words := drop_words kstack 1024 (sy_words s)\<rparr>))"

definition alloc_kstack_size :: "'a sys_scheme \<Rightarrow> (ptr \<times> 'a sys_scheme) res" where
  "alloc_kstack_size s = Inl Panic"

definition pid_new :: "u32 \<Rightarrow> ptr \<Rightarrow> u32" where "pid_new kpid ns = kpid"
definition pid_recycle :: "u32 \<Rightarrow> ptr \<Rightarrow> 'a sys_scheme \<Rightarrow> 'a sys_scheme" where "pid_recycle pid ns s = s"

definition kfree_proc :: "'a sys_scheme mm_calls \<Rightarrow> ptr \<Rightarrow> 'a sys_scheme \<Rightarrow> 'a sys_scheme res" where
  "kfree_proc c p s =
     and_then (mc_kfree c p s) (\<lambda>s.
     Inr (s\<lparr>sy_procs := (sy_procs s)(p := None), sy_sched := (sy_sched s)(proc_sched_node p := None),
       sy_words := drop_words (proc_context p) 38 (sy_words s)\<rparr>))"

definition proc_new :: "'a sys_scheme mm_calls \<Rightarrow> ptr \<Rightarrow> 'a sys_scheme \<Rightarrow> (ptr \<times> 'a sys_scheme) res" where
  "proc_new c ns s =
     and_then (mc_kmalloc c sizeof_proc s) (\<lambda>(p, s).
     if p = NULL then Inr (NULL, s)
     else and_then (alloc_kstack c (fresh_proc p s)) (\<lambda>(kstack, s).
       and_then (set_proc p (pr_kstack_update (\<lambda>_. kstack)) s) (\<lambda>s.
       if kstack = NULL then and_then (kfree_proc c p s) (\<lambda>s. Inr (NULL, s))
       else and_then (kpid_new (sy_kpids s)) (\<lambda>(kpid, bm).
         and_then (set_proc p (\<lambda>proc. proc\<lparr>pr_kstack_size := PAGE_SIZE, pr_kpid := kpid, pr_pid := pid_new kpid ns, pr_tid := kpid,
           pr_state := PS_EMBRYO, pr_exit_code := 0, pr_exit_signal := 0, pr_flags := 0, pr_oncpu := CPU_NONE, pr_bed := 0,
           pr_namespace := ns, pr_mm := NULL, pr_heapsize := 0, pr_heapbase := NULL, pr_name := replicate PROC_NAME_LEN_MAX 0,
           pr_tty := NULL, pr_mainthread := NULL, pr_groupleader := NULL, pr_sessionleader := NULL, pr_parent := NULL,
           pr_first_child := NULL, pr_next_sibling := NULL, pr_prev_sibling := NULL, pr_scheduler := sy_scheduler s\<rparr>)
           (s\<lparr>sy_kpids := bm\<rparr>)) (\<lambda>s.
         and_then (store_words (proc_context p) (replicate 38 0) (sy_words s)) (\<lambda>m.
         and_then (INIT_LIST_HEAD (proc_sched_node p) (sy_sched s)) (\<lambda>H.
         Inr (p, s\<lparr>sy_words := m, sy_sched := H\<rparr>))))))))"

definition proc_destroy :: "'a sys_scheme mm_calls \<Rightarrow> ptr \<Rightarrow> 'a sys_scheme \<Rightarrow> 'a sys_scheme res" where
  "proc_destroy c p s =
     and_then (ld (sy_procs s) p) (\<lambda>proc.
     let s = pid_recycle (pr_pid proc) (pr_namespace proc) s in
     and_then (kpid_recycle (pr_kpid proc) (sy_kpids s)) (\<lambda>bm.
     and_then (free_kstack c (pr_kstack proc) (s\<lparr>sy_kpids := bm\<rparr>)) (kfree_proc c p)))"

definition idle_init :: "'a sys_scheme \<Rightarrow> 'a sys_scheme res" where
  "idle_init s =
     (let s = s\<lparr>sy_current := sy_idle s\<rparr> in
      set_proc (sy_idle s) (\<lambda>proc. proc\<lparr>pr_state := PS_RUNNABLE, pr_mm := uv_kernel_mm s, pr_kpid := 0\<rparr>) s)"

section \<open>The process tree\<close>

definition proctree_add_child :: "ptr \<Rightarrow> ptr \<Rightarrow> 'a sys_scheme \<Rightarrow> 'a sys_scheme res" where
  "proctree_add_child child parent s =
     and_then (set_proc child (pr_parent_update (\<lambda>_. parent)) s) (\<lambda>s.
     and_then (ld (sy_procs s) parent) (\<lambda>pp.
     and_then (set_proc child (pr_next_sibling_update (\<lambda>_. pr_first_child pp)) s) (\<lambda>s.
     and_then (ld (sy_procs s) parent) (\<lambda>pp.
     and_then (if pr_first_child pp \<noteq> NULL then set_proc (pr_first_child pp) (pr_prev_sibling_update (\<lambda>_. child)) s else Inr s) (\<lambda>s.
     set_proc parent (pr_first_child_update (\<lambda>_. child)) s)))))"

definition proctree_remove :: "ptr \<Rightarrow> 'a sys_scheme \<Rightarrow> 'a sys_scheme res" where
  "proctree_remove pos s =
     and_then (ld (sy_procs s) pos) (\<lambda>p.
     if pr_first_child p \<noteq> NULL then Inl Panic
     else if pr_parent p = NULL then Inl Panic
     else and_then (ld (sy_procs s) (pr_parent p)) (\<lambda>father.
       and_then (if pos = pr_first_child father
         then set_proc (pr_parent p) (pr_first_child_update (\<lambda>_. pr_next_sibling p)) s else Inr s) (\<lambda>s.
       and_then (ld (sy_procs s) pos) (\<lambda>p.
       and_then (if pr_prev_sibling p \<noteq> NULL
         then set_proc (pr_prev_sibling p) (pr_next_sibling_update (\<lambda>_. pr_next_sibling p)) s else Inr s) (\<lambda>s.
       and_then (ld (sy_procs s) pos) (\<lambda>p.
       if pr_next_sibling p \<noteq> NULL
       then set_proc (pr_next_sibling p) (pr_prev_sibling_update (\<lambda>_. pr_prev_sibling p)) s else Inr s))))))"

section \<open>The first frames\<close>

definition proc_trapframe :: "proc \<Rightarrow> ptr" where
  "proc_trapframe proc = kstacktop proc - sizeof_trapframe"

text \<open>The words of a trap frame, which are those of a context too.\<close>

definition tf_word :: "ptr \<Rightarrow> nat \<Rightarrow> ptr" where "tf_word tf i = tf + 4 * of_nat i"

definition i_status :: nat where "i_status = 34"
definition i_cause :: nat where "i_cause = 35"
definition i_epc :: nat where "i_epc = 36"

definition bootstrap_trapframe :: "cp0 \<Rightarrow> ptr \<Rightarrow> u32 \<Rightarrow> u32 \<Rightarrow> u32 \<Rightarrow> word_mem \<Rightarrow> word_mem res" where
  "bootstrap_trapframe c tf entry stacktop args m =
     and_then (sw m (tf_word tf i_status) (read_c0 C0_status c)) (\<lambda>m.
     and_then (sw m (tf_word tf i_cause) (read_c0 C0_cause c)) (\<lambda>m.
     and_then (lw m (tf_word tf i_status)) (\<lambda>status.
     and_then (sw m (tf_word tf i_status) (status OR (ST_IE OR ST_EXL))) (\<lambda>m.
     and_then (sw m (tf_word tf i_epc) entry) (\<lambda>m.
     and_then (lw m (tf_word tf i_epc)) (\<lambda>epc.
     and_then (sw m (tf_word tf r_t9) epc) (\<lambda>m.
     and_then (sw m (tf_word tf r_sp) stacktop) (\<lambda>m.
     sw m (tf_word tf r_a0) args))))))))"

text \<open>The address of \<open>forkret\<close> is that of the linked kernel.\<close>

definition bootstrap_context :: "u32 \<Rightarrow> cp0 \<Rightarrow> ptr \<Rightarrow> ptr \<Rightarrow> word_mem \<Rightarrow> word_mem res" where
  "bootstrap_context forkret c ctx tf m =
     and_then (sw m (tf_word ctx i_status) (read_c0 C0_status c)) (\<lambda>m.
     and_then (sw m (tf_word ctx i_cause) (read_c0 C0_cause c)) (\<lambda>m.
     and_then (sw m (tf_word ctx r_ra) forkret) (\<lambda>m.
     and_then (sw m (tf_word ctx r_t9) forkret) (\<lambda>m.
     sw m (tf_word ctx r_sp) tf))))"

definition bootstrap_user :: "ptr \<Rightarrow> word_mem \<Rightarrow> word_mem res" where
  "bootstrap_user tf m =
     and_then (lw m (tf_word tf i_status)) (\<lambda>status. sw m (tf_word tf i_status) ((status AND NOT ST_KSU) OR KSU_USER))"

definition proc_ksetup_arch :: "u32 \<Rightarrow> ptr \<Rightarrow> u32 \<Rightarrow> u32 \<Rightarrow> 'a sys_scheme \<Rightarrow> 'a sys_scheme res" where
  "proc_ksetup_arch forkret p entry args s =
     and_then (ld (sy_procs s) p) (\<lambda>proc.
     let tf = proc_trapframe proc; c = cpu_cp0 (sy_cpu s) in
     and_then (bootstrap_trapframe c tf entry (kstacktop proc) args (sy_words s)) (\<lambda>m.
     and_then (bootstrap_context forkret c (proc_context p) tf m) (\<lambda>m.
     Inr (s\<lparr>sy_words := m\<rparr>))))"

definition proc_usetup_arch :: "u32 \<Rightarrow> ptr \<Rightarrow> u32 \<Rightarrow> u32 \<Rightarrow> u32 \<Rightarrow> 'a sys_scheme \<Rightarrow> 'a sys_scheme res" where
  "proc_usetup_arch forkret p entry stacktop args s =
     and_then (ld (sy_procs s) p) (\<lambda>proc.
     let tf = proc_trapframe proc; c = cpu_cp0 (sy_cpu s) in
     and_then (bootstrap_trapframe c tf entry stacktop args (sy_words s)) (\<lambda>m.
     and_then (bootstrap_context forkret c (proc_context p) tf m) (\<lambda>m.
     and_then (bootstrap_user tf m) (\<lambda>m.
     Inr (s\<lparr>sy_words := m\<rparr>)))))"

definition proc_ksetup :: "u32 \<Rightarrow> ptr \<Rightarrow> u32 \<Rightarrow> u32 \<Rightarrow> 'a sys_scheme \<Rightarrow> 'a sys_scheme res" where
  "proc_ksetup forkret p entry args s =
     and_then (set_proc p (pr_mm_update (\<lambda>_. uv_kernel_mm s)) s) (proc_ksetup_arch forkret p entry args)"

definition proc_usetup :: "u32 \<Rightarrow> ptr \<Rightarrow> u32 \<Rightarrow> u32 \<Rightarrow> u32 \<Rightarrow> 'a sys_scheme \<Rightarrow> 'a sys_scheme res" where
  "proc_usetup forkret p entry stacktop args s = proc_usetup_arch forkret p entry stacktop args s"

definition proc_trap_return :: "ptr \<Rightarrow> 'a sys_scheme \<Rightarrow> 'a sys_scheme res" where
  "proc_trap_return p s =
     and_then (ld (sy_procs s) p) (\<lambda>proc.
     let a = proc_trapframe proc in
     and_then (load_frame (sy_words s) a) (\<lambda>tf.
     case trap_return tf (cpu_cp0 (sy_cpu s)) of (tf, c) \<Rightarrow>
     and_then (store_frame a tf (sy_words s)) (\<lambda>m.
     and_then (trap_exit ((set_reg r_a0 a (sy_cpu s))\<lparr>cpu_cp0 := c\<rparr>, m)) (\<lambda>(cp, m).
     Inr (s\<lparr>sy_cpu := cp, sy_words := m\<rparr>)))))"

definition arch_fork :: "u32 \<Rightarrow> ptr \<Rightarrow> ptr \<Rightarrow> 'a sys_scheme \<Rightarrow> 'a sys_scheme res" where
  "arch_fork forkret child parent s =
     and_then (ld (sy_procs s) child) (\<lambda>cp. and_then (ld (sy_procs s) parent) (\<lambda>pp.
     let tf_child = proc_trapframe cp; tf_parent = proc_trapframe pp in
     and_then (load_frame (sy_words s) tf_parent) (\<lambda>tf.
     and_then (store_frame tf_child tf (sy_words s)) (\<lambda>m.
     and_then (sw m (tf_word tf_child r_v0) 0) (\<lambda>m.
     and_then (sw m (tf_word tf_child r_v1) 0) (\<lambda>m.
     and_then (bootstrap_context forkret (cpu_cp0 (sy_cpu s)) (proc_context child) tf_child m) (\<lambda>m.
     Inr (s\<lparr>sy_words := m\<rparr>))))))))"

section \<open>Frames in memory\<close>

text \<open>The 38 words of a trap frame or a context.\<close>

definition words_at :: "word_mem \<Rightarrow> ptr \<Rightarrow> bool" where
  "words_at m a \<longleftrightarrow> aligned4 a \<and> (\<forall>i<38. m (tf_word a i) \<noteq> None)"

definition words_apart :: "ptr \<Rightarrow> ptr \<Rightarrow> bool" where
  "words_apart a b \<longleftrightarrow> (\<forall>i<38. \<forall>j<38. tf_word a i \<noteq> tf_word b j)"

lemma words_apart_sym: "words_apart a b \<longleftrightarrow> words_apart b a"
  unfolding words_apart_def by metis

lemma tf_word_eq [simp]: "i < 38 \<Longrightarrow> j < 38 \<Longrightarrow> tf_word a i = tf_word a j \<longleftrightarrow> i = j"
  using word_index [of i j] by (simp add: tf_word_def)

lemma words_apart_eq [simp]: "words_apart a b \<Longrightarrow> i < 38 \<Longrightarrow> j < 38 \<Longrightarrow> tf_word a i \<noteq> tf_word b j"
  by (simp add: words_apart_def)

lemma words_apartI:
  assumes "unat a + 152 \<le> unat b" "unat b + 152 \<le> 2 ^ 32"
  shows "words_apart a b"
proof -
  have u: "unat (tf_word x i) = unat x + 4 * i" if "unat x + 152 \<le> 2 ^ 32" "i < 38" for x i
    using that by (simp add: tf_word_def unat_word_ariths unat_of_nat)
  have "unat (tf_word a i) < unat (tf_word b j)" if "i < 38" "j < 38" for i j
    using u [of a i] u [of b j] that assms by simp
  then have "tf_word a i \<noteq> tf_word b j" if "i < 38" "j < 38" for i j using that by (metis less_irrefl)
  then show ?thesis by (simp add: words_apart_def)
qed

lemma words_at_sw:
  assumes "words_at m a" "i < 38"
  shows "m (tf_word a i) = Some w \<Longrightarrow> lw m (tf_word a i) = Inr w"
    "sw m (tf_word a i) v = Inr (m(tf_word a i \<mapsto> v))" "words_at (m(tf_word a j \<mapsto> v)) a"
proof -
  have a: "aligned4 (tf_word a i)" using assms by (simp add: words_at_def tf_word_def aligned4_add)
  then show "sw m (tf_word a i) v = Inr (m(tf_word a i \<mapsto> v))" using assms by (auto simp: sw_def words_at_def upd_def ld_def)
  show "m (tf_word a i) = Some w \<Longrightarrow> lw m (tf_word a i) = Inr w" using a by (simp add: lw_def ld_def)
  show "words_at (m(tf_word a j \<mapsto> v)) a" using assms by (simp add: words_at_def)
qed

lemma words_at_upd: "words_at m a \<Longrightarrow> words_at (m(x \<mapsto> v)) a"
  by (simp add: words_at_def)

lemmas tf_index = i_status_def i_cause_def i_epc_def

lemma bootstrap_trapframe_run:
  assumes "words_at m tf"
  shows "bootstrap_trapframe c tf entry stacktop args m = Inr (m(tf_word tf i_status \<mapsto> read_c0 C0_status c OR (ST_IE OR ST_EXL),
    tf_word tf i_cause \<mapsto> read_c0 C0_cause c, tf_word tf i_epc \<mapsto> entry, tf_word tf r_t9 \<mapsto> entry,
    tf_word tf r_sp \<mapsto> stacktop, tf_word tf r_a0 \<mapsto> args))"
  using assms by (simp add: bootstrap_trapframe_def words_at_sw words_at_upd tf_index fun_upd_twist)

lemma bootstrap_context_run:
  assumes "words_at m ctx"
  shows "bootstrap_context fr c ctx tf m = Inr (m(tf_word ctx i_status \<mapsto> read_c0 C0_status c, tf_word ctx i_cause \<mapsto> read_c0 C0_cause c,
    tf_word ctx r_ra \<mapsto> fr, tf_word ctx r_t9 \<mapsto> fr, tf_word ctx r_sp \<mapsto> tf))"
  using assms by (simp add: bootstrap_context_def words_at_sw words_at_upd tf_index)

text \<open>
  A process whose context and whose trap frame, at the top of its kernel stack, are in memory. The
  setup writes the registers from which the process starts; the others keep what the words held.
\<close>

definition proc_frames :: "'a sys_scheme \<Rightarrow> ptr \<Rightarrow> bool" where
  "proc_frames s p \<longleftrightarrow> (\<exists>proc. sy_procs s p = Some proc \<and> words_at (sy_words s) (proc_context p) \<and>
     words_at (sy_words s) (proc_trapframe proc) \<and> words_apart (proc_context p) (proc_trapframe proc))"

definition starts_at :: "u32 \<Rightarrow> ptr \<Rightarrow> word_mem \<Rightarrow> ptr \<Rightarrow> bool" where
  "starts_at pc sp m ctx \<longleftrightarrow> words_at m ctx \<and> m (tf_word ctx r_ra) = Some pc \<and> m (tf_word ctx r_sp) = Some sp"

definition returns_to :: "u32 \<Rightarrow> u32 \<Rightarrow> u32 \<Rightarrow> u32 \<Rightarrow> word_mem \<Rightarrow> ptr \<Rightarrow> bool" where
  "returns_to status entry sp a0 m tf \<longleftrightarrow> words_at m tf \<and> m (tf_word tf i_status) = Some status \<and> m (tf_word tf i_epc) = Some entry \<and>
     m (tf_word tf r_sp) = Some sp \<and> m (tf_word tf r_a0) = Some a0"

definition setup_words :: "cp0 \<Rightarrow> u32 \<Rightarrow> ptr \<Rightarrow> proc \<Rightarrow> u32 \<Rightarrow> u32 \<Rightarrow> u32 \<Rightarrow> word_mem \<Rightarrow> word_mem" where
  "setup_words c fr p proc entry stacktop args m =
     (let tf = proc_trapframe proc; ctx = proc_context p in m(tf_word tf i_status \<mapsto> read_c0 C0_status c OR (ST_IE OR ST_EXL),
       tf_word tf i_cause \<mapsto> read_c0 C0_cause c, tf_word tf i_epc \<mapsto> entry, tf_word tf r_t9 \<mapsto> entry,
       tf_word tf r_sp \<mapsto> stacktop, tf_word tf r_a0 \<mapsto> args, tf_word ctx i_status \<mapsto> read_c0 C0_status c,
       tf_word ctx i_cause \<mapsto> read_c0 C0_cause c, tf_word ctx r_ra \<mapsto> fr, tf_word ctx r_t9 \<mapsto> fr, tf_word ctx r_sp \<mapsto> tf))"

lemma trapframe_mm [simp]: "proc_trapframe (proc\<lparr>pr_mm := x\<rparr>) = proc_trapframe proc" "kstacktop (proc\<lparr>pr_mm := x\<rparr>) = kstacktop proc"
  by (simp_all add: proc_trapframe_def kstacktop_def)

lemma setup_words_run:
  assumes "words_at m (proc_context p)" "words_at m (proc_trapframe proc)" "words_apart (proc_context p) (proc_trapframe proc)"
  shows "starts_at fr (proc_trapframe proc) (setup_words c fr p proc entry stacktop args m) (proc_context p)"
    "returns_to (read_c0 C0_status c OR (ST_IE OR ST_EXL)) entry stacktop args (setup_words c fr p proc entry stacktop args m)
      (proc_trapframe proc)"
  using assms words_apart_sym [of "proc_context p"]
  by (simp_all add: setup_words_def Let_def starts_at_def returns_to_def words_at_upd tf_index)

lemma proc_ksetup_run:
  assumes "sy_procs s p = Some proc" "words_at (sy_words s) (proc_context p)" "words_at (sy_words s) (proc_trapframe proc)"
    "words_apart (proc_context p) (proc_trapframe proc)"
  shows "\<exists>m. proc_ksetup fr p entry args s =
      Inr (s\<lparr>sy_procs := (sy_procs s)(p \<mapsto> proc\<lparr>pr_mm := uv_kernel_mm s\<rparr>), sy_words := m\<rparr>) \<and>
    starts_at fr (proc_trapframe proc) m (proc_context p) \<and>
    returns_to (read_c0 C0_status (cpu_cp0 (sy_cpu s)) OR (ST_IE OR ST_EXL)) entry (kstacktop proc) args m (proc_trapframe proc) \<and>
    (\<forall>a. words_at (sy_words s) a \<longrightarrow> words_at m a)"
proof (intro exI conjI)
  show "proc_ksetup fr p entry args s = Inr (s\<lparr>sy_procs := (sy_procs s)(p \<mapsto> proc\<lparr>pr_mm := uv_kernel_mm s\<rparr>), sy_words :=
      setup_words (cpu_cp0 (sy_cpu s)) fr p proc entry (kstacktop proc) args (sy_words s)\<rparr>)"
    using assms by (simp add: proc_ksetup_def proc_ksetup_arch_def set_proc_def upd_def ld_def Let_def
      bootstrap_trapframe_run bootstrap_context_run words_at_upd setup_words_def)
  let ?m = "setup_words (cpu_cp0 (sy_cpu s)) fr p proc entry (kstacktop proc) args (sy_words s)"
  show "\<forall>a. words_at (sy_words s) a \<longrightarrow> words_at ?m a" by (simp add: setup_words_def Let_def words_at_upd)
qed (rule setup_words_run [OF assms(2-4)])+

lemma proc_usetup_run:
  assumes "sy_procs s p = Some proc" "words_at (sy_words s) (proc_context p)" "words_at (sy_words s) (proc_trapframe proc)"
    "words_apart (proc_context p) (proc_trapframe proc)"
  shows "\<exists>m. proc_usetup fr p entry stacktop args s = Inr (s\<lparr>sy_words := m\<rparr>) \<and>
    starts_at fr (proc_trapframe proc) m (proc_context p) \<and>
    returns_to (((read_c0 C0_status (cpu_cp0 (sy_cpu s)) OR (ST_IE OR ST_EXL)) AND NOT ST_KSU) OR KSU_USER)
      entry stacktop args m (proc_trapframe proc)"
proof (intro exI conjI)
  let ?st = "read_c0 C0_status (cpu_cp0 (sy_cpu s)) OR (ST_IE OR ST_EXL)" and ?tf = "proc_trapframe proc"
  let ?m = "setup_words (cpu_cp0 (sy_cpu s)) fr p proc entry stacktop args (sy_words s)"
  note m = setup_words_run [OF assms(2-4), where c = "cpu_cp0 (sy_cpu s)" and fr = fr and entry = entry and stacktop = stacktop and args = args]
  have run: "bootstrap_user ?tf ?m = Inr (?m(tf_word ?tf i_status \<mapsto> (?st AND NOT ST_KSU) OR KSU_USER))"
    using m(2) by (simp add: bootstrap_user_def returns_to_def words_at_sw tf_index)
  show "proc_usetup fr p entry stacktop args s = Inr (s\<lparr>sy_words := ?m(tf_word ?tf i_status \<mapsto> (?st AND NOT ST_KSU) OR KSU_USER)\<rparr>)"
    using assms run by (simp add: proc_usetup_def proc_usetup_arch_def ld_def Let_def
      bootstrap_trapframe_run bootstrap_context_run words_at_upd setup_words_def)
  show "starts_at fr ?tf (?m(tf_word ?tf i_status \<mapsto> (?st AND NOT ST_KSU) OR KSU_USER)) (proc_context p)"
    using m(1) assms(4) by (simp add: starts_at_def words_at_upd tf_index)
  show "returns_to ((?st AND NOT ST_KSU) OR KSU_USER) entry stacktop args (?m(tf_word ?tf i_status \<mapsto> (?st AND NOT ST_KSU) OR KSU_USER)) ?tf"
    using m(2) by (simp add: returns_to_def words_at_upd tf_index)
qed

definition frame_of :: "word_mem \<Rightarrow> ptr \<Rightarrow> trapframe" where
  "frame_of m a = \<lparr>tf_gpr = map (\<lambda>i. the (m (tf_word a i))) [0..<32], tf_lo = the (m (tf_word a 32)), tf_hi = the (m (tf_word a 33)),
     tf_status = the (m (tf_word a i_status)), tf_cause = the (m (tf_word a i_cause)), tf_epc = the (m (tf_word a i_epc)),
     tf_badvaddr = the (m (tf_word a 37))\<rparr>"

lemma frame_of_words:
  assumes "words_at m a"
  shows "length (tf_gpr (frame_of m a)) = 32" "load_frame m a = Inr (frame_of m a)"
proof -
  show l: "length (tf_gpr (frame_of m a)) = 32" by (simp add: frame_of_def)
  have "[0..<38] = [0..<32] @ [32, 33, 34, 35, 36, 37]" by (simp add: upt_rec)
  then have "frame_words (frame_of m a) = map (\<lambda>i. the (m (tf_word a i))) [0..<38]"
    by (simp add: frame_words_def frame_of_def tf_index)
  then have "frame_at m a (frame_words (frame_of m a))" using assms by (auto simp: frame_at_def words_at_def tf_word_def)
  then show "load_frame m a = Inr (frame_of m a)" using assms l by (intro load_frame_run) (simp_all add: words_at_def)
qed

lemma other_bits: "d AND ST_IM = 0 \<Longrightarrow> ((st AND NOT ST_IM) OR (x AND ST_IM)) AND d = st AND d"
proof (rule bit_word_eqI)
  fix n :: nat
  assume "d AND ST_IM = 0"
  then have "\<not> bit (d AND ST_IM) n" by simp
  moreover assume "n < LENGTH(32)"
  ultimately show "bit (((st AND NOT ST_IM) OR (x AND ST_IM)) AND d) n = bit (st AND d) n" by (auto simp: bit_simps)
qed

lemma im_apart: "ST_ERL AND ST_IM = 0" "ST_IE AND ST_IM = 0" "ST_KSU AND ST_IM = 0"
  by (simp_all add: cp0_defs)

text \<open>The return of a new process to its trap frame.\<close>

lemma proc_trap_return_run:
  assumes p: "sy_procs s p = Some proc" and fr: "returns_to status entry sp a0 (sy_words s) (proc_trapframe proc)"
    and erl: "status AND ST_ERL = 0"
  shows "\<exists>s'. proc_trap_return p s = Inr s' \<and> cpu_pc (sy_cpu s') = entry \<and> get_reg r_sp (sy_cpu s') = sp \<and> get_reg r_a0 (sy_cpu s') = a0 \<and>
    read_c0 C0_status (cpu_cp0 (sy_cpu s')) =
      ((status AND NOT ST_IM) OR (read_c0 C0_status (cpu_cp0 (sy_cpu s)) AND ST_IM)) AND NOT ST_EXL"
proof -
  let ?a = "proc_trapframe proc" and ?m = "sy_words s" and ?c = "cpu_cp0 (sy_cpu s)"
  let ?tf = "frame_of ?m ?a"
  have w: "words_at ?m ?a" using fr by (simp add: returns_to_def)
  obtain tf c where ret: "trap_return ?tf ?c = (tf, c)" by fastforce
  then have tf: "tf = ?tf\<lparr>tf_status := (tf_status ?tf AND NOT ST_IM) OR (read_c0 C0_status ?c AND ST_IM)\<rparr>"
    by (simp add: trap_return_def Let_def)
  have len: "length (tf_gpr tf) = 32" "length (frame_words tf) = 38" using frame_of_words(1) [OF w] by (simp_all add: tf frame_words_length)
  obtain m where m: "store_frame ?a tf ?m = Inr m" "frame_at m ?a (frame_words tf)"
    using store_words_run [of ?a "frame_words tf" ?m] w len by (auto simp: store_frame_def words_at_def tf_word_def)
  have st: "tf_status ?tf = status" using fr by (simp add: returns_to_def frame_of_def)
  then have "tf_status tf AND ST_ERL = 0" using erl by (simp add: tf other_bits im_apart)
  then obtain cp where cp: "trap_exit ((set_reg r_a0 ?a (sy_cpu s))\<lparr>cpu_cp0 := c\<rparr>, m) = Inr (cp, m)" "resumed tf cp"
    using exit_run [OF len(1) m(2), of "(set_reg r_a0 ?a (sy_cpu s))\<lparr>cpu_cp0 := c\<rparr>"] w by (auto simp: words_at_def)
  have "proc_trap_return p s = Inr (s\<lparr>sy_cpu := cp, sy_words := m\<rparr>)"
    using p frame_of_words(2) [OF w] ret m(1) cp(1) by (simp add: proc_trap_return_def ld_def Let_def)
  moreover have "tf_gpr tf ! r_sp = sp" "tf_gpr tf ! r_a0 = a0" "tf_epc tf = entry"
    using fr by (simp_all add: tf frame_of_def returns_to_def)
  ultimately show ?thesis using cp(2) st by (simp add: resumed_def tf)
qed

end
