(* ===== verification/Sched.thy ===== *)
theory Sched
  imports Proc
begin

unbundle bit_operations_syntax

text \<open>
  Scheduling: \<^verbatim>\<open>kern/proc/sched/sched.c\<close>, the list scheduler of \<^verbatim>\<open>kern/proc/sched/scheduler.c\<close>, the
  context switch of \<^verbatim>\<open>kern/arch/mips/proc.c\<close> and the first process of \<^verbatim>\<open>kern/proc/initproc.c\<close>. The table
  of function pointers \<^verbatim>\<open>struct scheduler\<close> is a record of functions. A call that switches to another
  process goes on when the process is switched to again; what runs in between is the argument
  \<open>resume\<close>, and \<open>ret\<close> is the return address of the call of \<^verbatim>\<open>switch_regs\<close>.
\<close>

section \<open>Critical sections\<close>

definition lock_sched :: "'a sys_scheme \<Rightarrow> (u32 \<times> 'a sys_scheme) res" where
  "lock_sched s = and_then (spin_lock_irq_save (sy_lock s) (cpu_cp0 (sy_cpu s)))
     (\<lambda>(flags, lk, c). Inr (flags, set_cp0 c (s\<lparr>sy_lock := lk\<rparr>)))"

definition unlock_sched :: "u32 \<Rightarrow> 'a sys_scheme \<Rightarrow> 'a sys_scheme" where
  "unlock_sched flags s =
     (case spin_unlock_irq_restore (sy_lock s) flags (cpu_cp0 (sy_cpu s)) of (lk, c) \<Rightarrow> set_cp0 c (s\<lparr>sy_lock := lk\<rparr>))"

definition sched_enter_critical :: "'a sys_scheme \<Rightarrow> 'a sys_scheme res" where
  "sched_enter_critical s = and_then (lock_sched s) (\<lambda>(flags, s). Inr (s\<lparr>sy_intrflags := flags\<rparr>))"

definition sched_exit_critical :: "'a sys_scheme \<Rightarrow> 'a sys_scheme" where
  "sched_exit_critical s = unlock_sched (sy_intrflags s) s"

section \<open>The list scheduler\<close>

record 's scheduler =
  sch_pick :: "'s \<Rightarrow> ptr res"
  sch_add :: "ptr \<Rightarrow> 's \<Rightarrow> (int \<times> 's) res"
  sch_remove :: "ptr \<Rightarrow> 's \<Rightarrow> (int \<times> 's) res"
  sch_next :: "ptr \<Rightarrow> 's \<Rightarrow> ptr res"
  sch_find :: "u32 \<Rightarrow> ptr \<Rightarrow> 's \<Rightarrow> ptr res"

text \<open>\<open>for_each_entry\<close> and \<open>for_each_entry_reverse\<close> with a body that may break: the node where the loop ends.\<close>

definition each_entry :: "(list_head \<Rightarrow> ptr) \<Rightarrow> ptr \<Rightarrow> (ptr \<Rightarrow> bool res) \<Rightarrow> list_mem \<Rightarrow> ptr res" where
  "each_entry dir head body H =
     and_then (ld H head) (\<lambda>h.
     returns (loop (\<lambda>n.
       if n \<noteq> head
       then and_then (body n) (\<lambda>b. if b then Inr (Break n) else and_then (ld H n) (\<lambda>x. Inr (Cont (dir x))))
       else Inr (Break n)) (dir h)))"

definition pick :: "'a sys_scheme \<Rightarrow> ptr res" where
  "pick s =
     and_then (each_entry lh_prev (sy_head s)
       (\<lambda>n. and_then (ld (sy_procs s) (node_proc n)) (\<lambda>a. Inr (pr_state a = PS_RUNNABLE))) (sy_sched s)) (\<lambda>n.
     let a = node_proc n in Inr (if a \<noteq> sy_head s then a else NULL))"

definition add_proc :: "ptr \<Rightarrow> 'a sys_scheme \<Rightarrow> (int \<times> 'a sys_scheme) res" where
  "add_proc p0 s =
     and_then (INIT_LIST_HEAD (proc_sched_node p0) (sy_sched s)) (\<lambda>H.
     and_then (list_add (proc_sched_node p0) (sy_head s) H) (\<lambda>H. Inr (0, s\<lparr>sy_sched := H\<rparr>)))"

definition remove_proc :: "ptr \<Rightarrow> 'a sys_scheme \<Rightarrow> (int \<times> 'a sys_scheme) res" where
  "remove_proc p0 s = and_then (list_del (proc_sched_node p0) (sy_sched s)) (\<lambda>H. Inr (0, s\<lparr>sy_sched := H\<rparr>))"

definition next_proc :: "ptr \<Rightarrow> 'a sys_scheme \<Rightarrow> ptr res" where
  "next_proc p0 s =
     and_then (ld (sy_sched s) (proc_sched_node p0)) (\<lambda>n.
     let r = node_proc (lh_next n) in Inr (if r = sy_head s then NULL else r))"

definition find_proc :: "u32 \<Rightarrow> ptr \<Rightarrow> 'a sys_scheme \<Rightarrow> ptr res" where
  "find_proc pid ns s =
     and_then (each_entry lh_next (sy_head s)
       (\<lambda>n. and_then (ld (sy_procs s) (node_proc n)) (\<lambda>a. Inr (pr_pid a = pid))) (sy_sched s)) (\<lambda>n.
     let a = node_proc n in Inr (if a \<noteq> sy_head s then a else NULL))"

definition plain_scheduler :: "'a sys_scheme scheduler" where
  "plain_scheduler = \<lparr>sch_pick = pick, sch_add = add_proc, sch_remove = remove_proc, sch_next = next_proc, sch_find = find_proc\<rparr>"

text \<open>\<open>h\<close> is the address of \<^verbatim>\<open>__head\<close>.\<close>

definition scheduler_init :: "ptr \<Rightarrow> 'a sys_scheme \<Rightarrow> 'a sys_scheme res" where
  "scheduler_init h s = and_then (INIT_LIST_HEAD h (sy_sched s)) (\<lambda>H. Inr (s\<lparr>sy_sched := H, sy_head := h\<rparr>))"

section \<open>Switching\<close>

definition update_proc :: "ptr \<Rightarrow> 'a sys_scheme \<Rightarrow> 'a sys_scheme res" where
  "update_proc p s = set_proc p (\<lambda>proc. proc\<lparr>pr_state := PS_ONPROC, pr_oncpu := cpuid (cpu_cp0 (sy_cpu s))\<rparr>) s"

definition switch_context :: "u32 \<Rightarrow> ptr \<Rightarrow> 'a sys_scheme \<Rightarrow> 'a sys_scheme res" where
  "switch_context ret p s =
     (let current = sy_current s; s = s\<lparr>sy_current := p\<rparr> in
      and_then (ld (sy_procs s) p) (\<lambda>proc. and_then (ld (uv_mms s) (pr_mm proc)) (\<lambda>mm.
      and_then (switch_pgindex_mmu (mm_pgindex mm) s \<lparr>mmu_cp0 = cpu_cp0 (sy_cpu s), mmu_tlb = sy_tlb s\<rparr>) (\<lambda>(_, s, c).
      let s = (set_cp0 (mmu_cp0 c) s)\<lparr>sy_tlb := mmu_tlb c, sy_kernelsp := kstacktop proc, uv_current_mm := Some (pr_mm proc)\<rparr>;
          cp = set_reg r_a0 (proc_context current) (set_reg r_a1 (proc_context p) (set_reg r_ra ret (sy_cpu s)))
      in and_then (switch_regs (cp, sy_words s)) (\<lambda>(cp, m). Inr (s\<lparr>sy_cpu := cp, sy_words := m\<rparr>))))))"

text \<open>The choice of the new process in \<open>schedule\<close>, the part of it up to the switch, and the whole.\<close>

definition schedule_pick :: "'a sys_scheme scheduler \<Rightarrow> u32 \<Rightarrow> 'a sys_scheme \<Rightarrow> 'a sys_scheme res" where
  "schedule_pick sch ret s =
     and_then (sch_pick sch s) (\<lambda>newproc.
     let newproc = (if newproc = NULL then sy_idle s else newproc) in
     and_then (update_proc newproc s) (switch_context ret newproc))"

definition schedule_away :: "'a sys_scheme scheduler \<Rightarrow> u32 \<Rightarrow> 'a sys_scheme \<Rightarrow> 'a sys_scheme res" where
  "schedule_away sch ret s =
     (let oldproc = sy_current s in
      and_then (sched_enter_critical s) (\<lambda>s.
      and_then (ld (sy_procs s) oldproc) (\<lambda>old.
      if (pr_kpid old = 0) \<noteq> (oldproc = sy_idle s) then Inl Panic
      else and_then (if pr_state old = PS_ONPROC then set_proc oldproc (pr_state_update (\<lambda>_. PS_RUNNABLE)) s else Inr s) (\<lambda>s.
        schedule_pick sch ret s))))"

definition schedule ::
  "'a sys_scheme scheduler \<Rightarrow> ('a sys_scheme \<Rightarrow> 'a sys_scheme res) \<Rightarrow> u32 \<Rightarrow> 'a sys_scheme \<Rightarrow> 'a sys_scheme res" where
  "schedule sch resume ret s =
     and_then (schedule_away sch ret s) (\<lambda>s. and_then (resume s) (\<lambda>s. Inr (sched_exit_critical s)))"

definition lock_at :: "ptr \<Rightarrow> 'a sys_scheme \<Rightarrow> 'a sys_scheme res" where
  "lock_at l s = and_then (ld (sy_locks s) l) (\<lambda>lk. and_then (spin_lock lk) (\<lambda>lk. Inr (s\<lparr>sy_locks := (sy_locks s)(l \<mapsto> lk)\<rparr>)))"

definition unlock_at :: "ptr \<Rightarrow> 'a sys_scheme \<Rightarrow> 'a sys_scheme res" where
  "unlock_at l s = and_then (ld (sy_locks s) l) (\<lambda>lk. Inr (s\<lparr>sy_locks := (sy_locks s)(l \<mapsto> spin_unlock lk)\<rparr>))"

definition sleep_with_lock ::
  "('a sys_scheme \<Rightarrow> 'a sys_scheme res) \<Rightarrow> u32 \<Rightarrow> u32 \<Rightarrow> ptr \<Rightarrow> 'a sys_scheme \<Rightarrow> 'a sys_scheme res" where
  "sleep_with_lock resume ret bed lock s =
     (if lock = sy_lock_addr s then Inl Panic
      else and_then (lock_sched s) (\<lambda>(flags, s).
        and_then (if lock \<noteq> NULL then unlock_at lock s else Inr s) (\<lambda>s.
        and_then (set_proc (sy_current s) (\<lambda>proc. proc\<lparr>pr_bed := bed, pr_state := PS_SLEEPING\<rparr>) s) (\<lambda>s.
        and_then (switch_context ret (sy_idle s) s) (\<lambda>s.
        and_then (resume s) (\<lambda>s.
        and_then (set_proc (sy_current s) (pr_bed_update (\<lambda>_. 0)) s) (\<lambda>s.
        let s = unlock_sched flags s in
        if lock \<noteq> NULL then lock_at lock s else Inr s)))))))"

definition sleep :: "('a sys_scheme \<Rightarrow> 'a sys_scheme res) \<Rightarrow> u32 \<Rightarrow> u32 \<Rightarrow> 'a sys_scheme \<Rightarrow> 'a sys_scheme res" where
  "sleep resume ret bed s = sleep_with_lock resume ret bed NULL s"

section \<open>The run queue\<close>

definition proc_add :: "'a sys_scheme scheduler \<Rightarrow> ptr \<Rightarrow> 'a sys_scheme \<Rightarrow> 'a sys_scheme res" where
  "proc_add sch p s =
     and_then (sched_enter_critical s) (\<lambda>s. and_then (sch_add sch p s) (\<lambda>(_, s). Inr (sched_exit_critical s)))"

definition proc_remove :: "'a sys_scheme scheduler \<Rightarrow> ptr \<Rightarrow> 'a sys_scheme \<Rightarrow> 'a sys_scheme res" where
  "proc_remove sch p s =
     and_then (sched_enter_critical s) (\<lambda>s. and_then (sch_remove sch p s) (\<lambda>(_, s). Inr (sched_exit_critical s)))"

text \<open>The function returns before the statement that leaves the critical section.\<close>

definition proc_next :: "'a sys_scheme scheduler \<Rightarrow> ptr \<Rightarrow> 'a sys_scheme \<Rightarrow> (ptr \<times> 'a sys_scheme) res" where
  "proc_next sch p s = and_then (sched_enter_critical s) (\<lambda>s. and_then (sch_next sch p s) (\<lambda>r. Inr (r, s)))"

definition wakeup :: "'a sys_scheme scheduler \<Rightarrow> u32 \<Rightarrow> 'a sys_scheme \<Rightarrow> 'a sys_scheme res" where
  "wakeup sch bed s =
     and_then (lock_sched s) (\<lambda>(flags, s).
     and_then (proc_next sch NULL s) (\<lambda>start.
     and_then (returns (loop (\<lambda>(p, s).
       if p \<noteq> NULL
       then and_then (ld (sy_procs s) p) (\<lambda>proc.
         and_then (if pr_bed proc = bed \<and> pr_state proc = PS_SLEEPING
           then set_proc p (pr_state_update (\<lambda>_. PS_RUNNABLE)) s else Inr s) (\<lambda>s.
         and_then (proc_next sch p s) (\<lambda>r. Inr (Cont r))))
       else Inr (Break s)) start)) (\<lambda>s.
     Inr (unlock_sched flags s))))"

definition set_scheduler :: "ptr \<Rightarrow> 'a sys_scheme \<Rightarrow> 'a sys_scheme res" where
  "set_scheduler sch s = and_then (sched_enter_critical s) (\<lambda>s. Inr (sched_exit_critical (s\<lparr>sy_scheduler := sch\<rparr>)))"

definition sched_init :: "'a sys_scheme \<Rightarrow> 'a sys_scheme" where
  "sched_init s = s\<lparr>sy_lock := spinlock_init\<rparr>"

section \<open>New processes\<close>

definition forkret :: "'a sys_scheme \<Rightarrow> 'a sys_scheme res" where
  "forkret s = (let s = sched_exit_critical s in proc_trap_return (sy_current s) s)"

text \<open>\<open>fr\<close> and \<open>entry\<close> are the addresses of \<open>forkret\<close> and \<^verbatim>\<open>initproc_entry\<close>.\<close>

definition spawn_initproc ::
  "'a sys_scheme mm_calls \<Rightarrow> 'a sys_scheme scheduler \<Rightarrow> u32 \<Rightarrow> u32 \<Rightarrow> 'a sys_scheme \<Rightarrow> (ptr \<times> 'a sys_scheme) res" where
  "spawn_initproc c sch fr entry s =
     and_then (proc_new c NULL s) (\<lambda>(p, s).
     and_then (proc_ksetup fr p entry NULL s) (\<lambda>s.
     and_then (set_proc p (\<lambda>proc. proc\<lparr>pr_state := PS_RUNNABLE, pr_groupleader := p, pr_sessionleader := p, pr_mainthread := p\<rparr>) s) (\<lambda>s.
     and_then (proc_add sch p s) (\<lambda>s. Inr (p, s)))))"

section \<open>The switch\<close>

text \<open>What \<open>switch_context\<close> needs: the two contexts in memory, and the address space of the new process.\<close>

definition switch_ok :: "'a sys_scheme \<Rightarrow> ptr \<Rightarrow> bool" where
  "switch_ok s p \<longleftrightarrow> (\<exists>proc. sy_procs s p = Some proc \<and> pr_mm proc \<in> dom (uv_mms s)) \<and>
     length (sy_tlb s) = get_tlb_entries (cpu_cp0 (sy_cpu s)) \<and> words_at (sy_words s) (proc_context (sy_current s)) \<and>
     words_at (sy_words s) (proc_context p) \<and> words_apart (proc_context (sy_current s)) (proc_context p)"

definition proc_pgindex :: "'a sys_scheme \<Rightarrow> ptr \<Rightarrow> ptr" where
  "proc_pgindex s p = mm_pgindex (the (uv_mms s (pr_mm (the (sy_procs s p)))))"

definition context_at :: "word_mem \<Rightarrow> ptr \<Rightarrow> u32 list" where
  "context_at m ctx = map (\<lambda>i. the (m (tf_word ctx i))) [0..<38]"

lemma switch_context_run:
  assumes ok: "switch_ok s p"
  shows "\<exists>u. switch_context ret p s = Inr u \<and> sy_current u = p \<and> sy_procs u = sy_procs s \<and> sy_lock u = sy_lock s \<and>
    sy_intrflags u = sy_intrflags s \<and> sy_kernelsp u = kstacktop (the (sy_procs s p)) \<and> vm_current_pgdir u = proc_pgindex s p \<and>
    continues (context_at (sy_words s) (proc_context p)) (sy_cpu u) \<and>
    (\<forall>x. (\<forall>i<38. x \<noteq> tf_word (proc_context (sy_current s)) i) \<longrightarrow> sy_words u x = sy_words s x)"
proof -
  obtain proc mm where p: "sy_procs s p = Some proc" "uv_mms s (pr_mm proc) = Some mm" using ok by (auto simp: switch_ok_def)
  let ?c = "\<lparr>mmu_cp0 = cpu_cp0 (sy_cpu s), mmu_tlb = sy_tlb s\<rparr>" and ?old = "proc_context (sy_current s)"
  obtain c where c: "tlb_flush ?c = Inr c" using tlb_flush_run [of ?c] ok by (auto simp: switch_ok_def)
  define cp where "cp = set_reg r_a0 ?old (set_reg r_a1 (proc_context p) (set_reg r_ra ret ((sy_cpu s)\<lparr>cpu_cp0 := mmu_cp0 c\<rparr>)))"
  have call: "switch_call ?old (proc_context p) cp (sy_words s)"
    using ok by (simp add: switch_call_def switch_ok_def words_at_def words_apart_def tf_word_def cp_def)
  have "frame_at (sy_words s) (proc_context p) (context_at (sy_words s) (proc_context p))"
    using ok by (auto simp: frame_at_def context_at_def switch_ok_def words_at_def tf_word_def)
  from switch_run [OF call this] obtain cp' m where run: "switch_regs (cp, sy_words s) = Inr (cp', m)"
    "continues (context_at (sy_words s) (proc_context p)) cp'" "\<forall>x. (\<forall>i<38. x \<noteq> tf_word ?old i) \<longrightarrow> m x = sy_words s x"
    by (auto simp: context_at_def tf_word_def)
  let ?u = "s\<lparr>sy_current := p, vm_current_pgdir := mm_pgindex mm, sy_tlb := mmu_tlb c, sy_kernelsp := kstacktop proc,
    uv_current_mm := Some (pr_mm proc), sy_cpu := cp', sy_words := m\<rparr>"
  have "switch_context ret p s = Inr ?u"
    using p c run(1) by (simp add: switch_context_def ld_def switch_pgindex_mmu_def switch_pgindex_def set_cp0_def Let_def cp_def)
  then show ?thesis using run(2,3) p by (simp add: proc_pgindex_def)
qed

lemma context_at_nth: "starts_at pc sp m ctx \<Longrightarrow> context_at m ctx ! r_ra = pc \<and> context_at m ctx ! r_sp = sp"
  by (simp add: context_at_def starts_at_def)

lemma forkret_run:
  assumes p: "sy_procs s (sy_current s) = Some proc" and fr: "returns_to status entry sp a0 (sy_words s) (proc_trapframe proc)"
    and erl: "status AND ST_ERL = 0"
  shows "\<exists>s'. forkret s = Inr s' \<and> cpu_pc (sy_cpu s') = entry \<and> get_reg r_sp (sy_cpu s') = sp \<and> get_reg r_a0 (sy_cpu s') = a0 \<and>
    read_c0 C0_status (cpu_cp0 (sy_cpu s')) AND (ST_IE OR ST_KSU) = status AND (ST_IE OR ST_KSU) \<and>
    read_c0 C0_status (cpu_cp0 (sy_cpu s')) AND ST_EXL = 0"
proof -
  let ?s = "sched_exit_critical s"
  have same: "sy_procs ?s = sy_procs s" "sy_current ?s = sy_current s" "sy_words ?s = sy_words s"
    by (simp_all add: sched_exit_critical_def unlock_sched_def set_cp0_def split: prod.split)
  let ?im = "read_c0 C0_status (cpu_cp0 (sy_cpu ?s)) AND ST_IM"
  obtain s' where s': "proc_trap_return (sy_current s) ?s = Inr s'" "cpu_pc (sy_cpu s') = entry" "get_reg r_sp (sy_cpu s') = sp"
    "get_reg r_a0 (sy_cpu s') = a0" "read_c0 C0_status (cpu_cp0 (sy_cpu s')) = ((status AND NOT ST_IM) OR ?im) AND NOT ST_EXL"
    using proc_trap_return_run [of ?s "sy_current s" proc status entry sp a0] p fr erl same by auto
  have "NOT ST_EXL AND (ST_IE OR ST_KSU) = ST_IE OR ST_KSU" "NOT ST_EXL AND ST_EXL = 0" "(ST_IE OR ST_KSU) AND ST_IM = 0"
    by (simp_all add: cp0_defs)
  then have "read_c0 C0_status (cpu_cp0 (sy_cpu s')) AND (ST_IE OR ST_KSU) = status AND (ST_IE OR ST_KSU)"
    "read_c0 C0_status (cpu_cp0 (sy_cpu s')) AND ST_EXL = 0"
    unfolding s'(5) and.assoc by (simp_all add: other_bits)
  then show ?thesis using s' same by (simp add: forkret_def Let_def)
qed

text \<open>
  Between the setup of \<open>p\<close> and the switch to it, in the state \<open>t\<close>, its context, its trap frame and its
  kernel stack stay as they are.
\<close>

definition not_run_yet :: "'a sys_scheme \<Rightarrow> 'a sys_scheme \<Rightarrow> ptr \<Rightarrow> bool" where
  "not_run_yet s t p \<longleftrightarrow> (\<exists>proc proc'. sy_procs s p = Some proc \<and> sy_procs t p = Some proc' \<and> kstacktop proc' = kstacktop proc \<and>
     (\<forall>i<38. sy_words t (tf_word (proc_context p) i) = sy_words s (tf_word (proc_context p) i)) \<and>
     (\<forall>i<38. sy_words t (tf_word (proc_trapframe proc) i) = sy_words s (tf_word (proc_trapframe proc) i)) \<and>
     words_apart (proc_context (sy_current t)) (proc_trapframe proc))"

lemma first_run_frames:
  assumes p: "sy_procs s p = Some proc" and ctx: "starts_at fr (proc_trapframe proc) (sy_words s) (proc_context p)"
    and fr: "returns_to status entry sp a0 (sy_words s) (proc_trapframe proc)" and erl: "status AND ST_ERL = 0"
    and t: "not_run_yet s t p" "switch_ok t p"
  shows "\<exists>u v. switch_context ret p t = Inr u \<and> cpu_pc (sy_cpu u) = fr \<and> get_reg r_sp (sy_cpu u) = proc_trapframe proc \<and>
    forkret u = Inr v \<and> cpu_pc (sy_cpu v) = entry \<and> get_reg r_sp (sy_cpu v) = sp \<and> get_reg r_a0 (sy_cpu v) = a0 \<and>
    read_c0 C0_status (cpu_cp0 (sy_cpu v)) AND (ST_IE OR ST_KSU) = status AND (ST_IE OR ST_KSU) \<and>
    read_c0 C0_status (cpu_cp0 (sy_cpu v)) AND ST_EXL = 0"
proof -
  let ?tf = "proc_trapframe proc"
  obtain proc' where p': "sy_procs t p = Some proc'" "proc_trapframe proc' = ?tf"
    and w: "\<forall>i<38. sy_words t (tf_word (proc_context p) i) = sy_words s (tf_word (proc_context p) i)"
      "\<forall>i<38. sy_words t (tf_word ?tf i) = sy_words s (tf_word ?tf i)" "words_apart (proc_context (sy_current t)) ?tf"
    using t(1) p by (auto simp: not_run_yet_def proc_trapframe_def)
  obtain u where u: "switch_context ret p t = Inr u" "sy_current u = p" "sy_procs u = sy_procs t"
    "continues (context_at (sy_words t) (proc_context p)) (sy_cpu u)"
    "\<forall>x. (\<forall>i<38. x \<noteq> tf_word (proc_context (sy_current t)) i) \<longrightarrow> sy_words u x = sy_words t x"
    using switch_context_run [OF t(2), of ret] by blast
  have "starts_at fr ?tf (sy_words t) (proc_context p)" using ctx w(1) by (simp add: starts_at_def words_at_def)
  from context_at_nth [OF this] u(4) have start: "cpu_pc (sy_cpu u) = fr" "get_reg r_sp (sy_cpu u) = ?tf" by (simp_all add: continues_def)
  have "sy_words u (tf_word ?tf i) = sy_words s (tf_word ?tf i)" if "i < 38" for i
    using u(5) w(2,3) that words_apart_eq [of "proc_context (sy_current t)" ?tf _ i] by metis
  then have "returns_to status entry sp a0 (sy_words u) (proc_trapframe proc')"
    using fr p' by (simp add: returns_to_def words_at_def tf_index)
  from forkret_run [OF _ this erl] u(2,3) p' start u(1) show ?thesis by auto
qed

text \<open>
  C16. The first run of a process. After \<open>proc_ksetup\<close>, the first switch to the process starts \<open>forkret\<close> on the kernel
  stack just below the trap frame, and \<open>forkret\<close> enters the function that was given to the setup, with its
  argument and the whole kernel stack, interrupts enabled and the exception level left.
\<close>

theorem first_run:
  assumes "proc_frames s p" "read_c0 C0_status (cpu_cp0 (sy_cpu s)) AND ST_ERL = 0"
  shows "\<exists>s'. proc_ksetup fr p entry args s = Inr s' \<and>
    (\<forall>t ret. not_run_yet s' t p \<longrightarrow> switch_ok t p \<longrightarrow>
      (\<exists>u v. switch_context ret p t = Inr u \<and> cpu_pc (sy_cpu u) = fr \<and> get_reg r_sp (sy_cpu u) = proc_trapframe (the (sy_procs s p)) \<and>
        forkret u = Inr v \<and> cpu_pc (sy_cpu v) = entry \<and> get_reg r_a0 (sy_cpu v) = args \<and>
        get_reg r_sp (sy_cpu v) = kstacktop (the (sy_procs s p)) \<and>
        read_c0 C0_status (cpu_cp0 (sy_cpu v)) AND ST_IE \<noteq> 0 \<and> read_c0 C0_status (cpu_cp0 (sy_cpu v)) AND ST_EXL = 0))"
proof -
  let ?st = "read_c0 C0_status (cpu_cp0 (sy_cpu s)) OR (ST_IE OR ST_EXL)"
  obtain proc where p: "sy_procs s p = Some proc" "words_at (sy_words s) (proc_context p)" "words_at (sy_words s) (proc_trapframe proc)"
    "words_apart (proc_context p) (proc_trapframe proc)"
    using assms(1) by (auto simp: proc_frames_def)
  define q where "q = proc\<lparr>pr_mm := uv_kernel_mm s\<rparr>"
  have q: "proc_trapframe q = proc_trapframe proc" "kstacktop q = kstacktop proc" by (simp_all add: q_def)
  obtain s' where s': "proc_ksetup fr p entry args s = Inr s'" "sy_procs s' p = Some q"
    "starts_at fr (proc_trapframe q) (sy_words s') (proc_context p)" "returns_to ?st entry (kstacktop q) args (sy_words s') (proc_trapframe q)"
    using proc_ksetup_run [OF p, of fr entry args] by (auto simp: q_def)
  have erl: "?st AND ST_ERL = 0" using assms(2) by (simp add: cp0_defs bit.conj_disj_distrib2)
  have ie: "x AND ST_IE \<noteq> 0" if "x AND (ST_IE OR ST_KSU) = ?st AND (ST_IE OR ST_KSU)" for x
  proof -
    have "x AND ST_IE = (x AND (ST_IE OR ST_KSU)) AND ST_IE" by (simp add: and.assoc cp0_defs)
    also have "\<dots> = ST_IE" unfolding that by (simp add: and.assoc cp0_defs bit.conj_disj_distrib2)
    finally show ?thesis by (simp add: cp0_defs)
  qed
  show ?thesis
    using first_run_frames [OF s'(2-4) erl] ie s'(1) p(1) q by (intro exI [of _ s']) fastforce
qed

definition sys_example :: sys where
  "sys_example = uvm.extend (uvm_example\<lparr>uv_kernel_mm := 0x100\<rparr>) (sys.fields
     [0x80010000 \<mapsto> blank_proc\<lparr>pr_kstack := 0x80020000, pr_kstack_size := 0x1000, pr_kpid := 1, pr_state := PS_RUNNABLE, pr_mm := 0x100\<rparr>,
      0x80030000 \<mapsto> blank_proc\<lparr>pr_state := PS_ONPROC, pr_mm := 0x100\<rparr>]
     [0x80040000 \<mapsto> \<lparr>lh_next = 0x800101F8, lh_prev = 0x800101F8\<rparr>, 0x800101F8 \<mapsto> \<lparr>lh_next = 0x80040000, lh_prev = 0x80040000\<rparr>]
     0x80040000 0 0 0 Map.empty 0 0x80030000 0x80030000 0 []
     \<lparr>cpu_reg = \<lambda>_. 0, cpu_lo = 0, cpu_hi = 0, cpu_pc = 0, cpu_cp0 = \<lambda>_. 0\<rparr> [te_dummy 0] (\<lambda>_. Some 0))"

lemma sys_example_sel [simp]:
  "sy_procs sys_example = [0x80010000 \<mapsto> blank_proc\<lparr>pr_kstack := 0x80020000, pr_kstack_size := 0x1000, pr_kpid := 1, pr_state := PS_RUNNABLE, pr_mm := 0x100\<rparr>,
      0x80030000 \<mapsto> blank_proc\<lparr>pr_state := PS_ONPROC, pr_mm := 0x100\<rparr>]"
  "sy_current sys_example = 0x80030000" "sy_idle sys_example = 0x80030000" "sy_words sys_example = (\<lambda>_. Some 0)" "sy_lock sys_example = 0"
  "cpu_cp0 (sy_cpu sys_example) = (\<lambda>_. 0)" "sy_tlb sys_example = [te_dummy 0]" "uv_kernel_mm sys_example = 0x100"
  "uv_mms sys_example = [0x100 \<mapsto> \<lparr>mm_vma_count = 0, mm_ref_count = 0, mm_pgindex = 0x80010000\<rparr>]"
  by (simp_all add: sys_example_def uvm_example_def vmem.defs uvm.defs sys.defs)

lemma example_frames:
  "proc_frames sys_example 0x80010000"
  "words_apart (proc_context 0x80030000) (proc_context 0x80010000)" "words_apart (proc_context 0x80030000) 0x80020F68"
proof -
  have "words_apart (0x80010034 :: ptr) 0x80020F68" "words_apart (0x80010034 :: ptr) 0x80030034" "words_apart (0x80020F68 :: ptr) 0x80030034"
    by (rule words_apartI; simp)+
  then show "proc_frames sys_example 0x80010000"
    "words_apart (proc_context 0x80030000) (proc_context 0x80010000)" "words_apart (proc_context 0x80030000) 0x80020F68"
    using words_apart_sym by (simp_all add: proc_frames_def words_at_def proc_context_def proc_trapframe_def kstacktop_def sizeof_trapframe_def)
qed

theorem first_run_witness:
  "\<exists>s' u v. proc_ksetup 0x80001000 0x80010000 0x80002000 7 sys_example = Inr s' \<and>
    switch_context 0x80003000 0x80010000 s' = Inr u \<and> cpu_pc (sy_cpu u) = 0x80001000 \<and>
    forkret u = Inr v \<and> cpu_pc (sy_cpu v) = 0x80002000 \<and> get_reg r_a0 (sy_cpu v) = 7"
proof -
  let ?p = "0x80010000 :: ptr"
  have st: "read_c0 C0_status (cpu_cp0 (sy_cpu sys_example)) AND ST_ERL = 0" by (simp add: read_c0_eq)
  obtain s' where s': "proc_ksetup 0x80001000 ?p 0x80002000 7 sys_example = Inr s'"
    and run: "\<And>t ret. not_run_yet s' t ?p \<Longrightarrow> switch_ok t ?p \<Longrightarrow> \<exists>u v. switch_context ret ?p t = Inr u \<and>
      cpu_pc (sy_cpu u) = 0x80001000 \<and> forkret u = Inr v \<and> cpu_pc (sy_cpu v) = 0x80002000 \<and> get_reg r_a0 (sy_cpu v) = 7"
    using first_run [OF example_frames(1) st, of "0x80001000" "0x80002000" 7] by blast
  obtain proc where p: "sy_procs sys_example ?p = Some proc" "words_at (sy_words sys_example) (proc_context ?p)"
    "words_at (sy_words sys_example) (proc_trapframe proc)" "words_apart (proc_context ?p) (proc_trapframe proc)"
    using example_frames(1) by (auto simp: proc_frames_def)
  obtain m where m: "s' = sys_example\<lparr>sy_procs := (sy_procs sys_example)(?p \<mapsto> proc\<lparr>pr_mm := 0x100\<rparr>), sy_words := m\<rparr>"
    "starts_at 0x80001000 (proc_trapframe proc) m (proc_context ?p)" "\<And>a. words_at (sy_words sys_example) a \<Longrightarrow> words_at m a"
    using proc_ksetup_run [OF p, of "0x80001000" "0x80002000" 7] s' by auto
  have "words_at m (proc_context 0x80030000)" by (rule m(3)) (simp add: words_at_def proc_context_def)
  have "proc_trapframe proc = 0x80020F68" using p(1) by (auto simp: proc_trapframe_def kstacktop_def sizeof_trapframe_def)
  then have "not_run_yet s' s' ?p" using example_frames(3) by (simp add: not_run_yet_def m(1))
  moreover have "switch_ok s' ?p" using m(2) \<open>words_at m (proc_context 0x80030000)\<close> example_frames(2) by (simp add: switch_ok_def m(1) starts_at_def get_tlb_entries_def read_c0_eq)
  ultimately show ?thesis using run [of s' "0x80003000"] s' by blast
qed

section \<open>The run queue\<close>

lemma each_entry_run:
  assumes h: "map_option dir (H h) = Some (hd (L @ [h]))" "h \<notin> set L"
    and step: "\<And>as x bs. L = as @ x # bs \<Longrightarrow> map_option dir (H x) = Some (hd (bs @ [h]))"
    and body: "\<And>x. x \<in> set L \<Longrightarrow> body x = Inr (B x)"
  shows "each_entry dir h body H = Inr (hd (dropWhile (\<lambda>x. \<not> B x) L @ [h]))"
proof -
  define f where "f = (\<lambda>n. if n \<noteq> h
       then and_then (body n) (\<lambda>b. if b then Inr (Break n) else and_then (ld H n) (\<lambda>x. Inr (Cont (dir x)))) else Inr (Break n))"
  have "loop f (hd (bs @ [h])) = Some (Inr (hd (dropWhile (\<lambda>x. \<not> B x) bs @ [h])))" if "L = as @ bs" for as bs
    using that
  proof (induction bs arbitrary: as)
    case Nil
    then show ?case by (simp add: loop_Break f_def)
  next
    case (Cons x bs)
    then have x: "x \<in> set L" "x \<noteq> h" using h(2) by auto
    show ?case
    proof (cases "B x")
      case True
      with body [OF x(1)] x show ?thesis by (simp add: loop_Break f_def)
    next
      case False
      have "f x = Inr (Cont (hd (bs @ [h])))"
        using step [OF Cons.prems] body [OF x(1)] x False by (auto simp: f_def ld_def)
      with Cons.IH [of "as @ [x]"] Cons.prems False show ?thesis by (simp add: loop_Cont)
    qed
  qed
  from this [of "[]" L] show ?thesis using h(1) by (auto simp: each_entry_def ld_def f_def)
qed

lemma each_entry_list:
  assumes l: "is_list H h xs" and body: "\<And>x. x \<in> set xs \<Longrightarrow> body x = Inr (B x)"
  shows "each_entry lh_next h body H = Inr (hd (dropWhile (\<lambda>x. \<not> B x) xs @ [h]))"
    "each_entry lh_prev h body H = Inr (hd (dropWhile (\<lambda>x. \<not> B x) (rev xs) @ [h]))"
proof -
  let ?nx = "field H lh_next" and ?pv = "field H lh_prev"
  have ch: "links ?nx ?pv (h # xs @ [h])" and d: "h \<notin> set xs" using l is_list_distinct [OF l] by (auto simp: is_list_def chain_def)
  have nx: "?nx x = Some (hd (bs @ [h]))" if "h # xs = as @ x # bs" for as x bs
  proof -
    have eq: "h # xs @ [h] = as @ x # hd (bs @ [h]) # tl (bs @ [h])" using that by (metis append_Cons append_assoc append_is_Nil_conv hd_Cons_tl list.distinct(1))
    have "links ?nx ?pv (as @ x # hd (bs @ [h]) # tl (bs @ [h]))" using ch by (simp only: eq)
    then have "links ?nx ?pv (x # hd (bs @ [h]) # tl (bs @ [h]))" using links_append by blast
    then show ?thesis by (simp only: links.simps)
  qed
  have pv: "?pv x = Some (last (h # as))" if "xs @ [h] = as @ x # bs" for as x bs
  proof -
    have eq: "h # xs @ [h] = butlast (h # as) @ last (h # as) # x # bs" using that by (metis append_Cons append_butlast_last_id append_assoc append_Nil list.distinct(1))
    have "links ?nx ?pv (butlast (h # as) @ last (h # as) # x # bs)" using ch by (simp only: eq)
    then have "links ?nx ?pv (last (h # as) # x # bs)" using links_append by blast
    then show ?thesis by (simp only: links.simps)
  qed
  show "each_entry lh_next h body H = Inr (hd (dropWhile (\<lambda>x. \<not> B x) xs @ [h]))"
    by (rule each_entry_run) (use nx [of "[]" h xs] nx [of "h # _"] d body in auto)
  show "each_entry lh_prev h body H = Inr (hd (dropWhile (\<lambda>x. \<not> B x) (rev xs) @ [h]))"
  proof (rule each_entry_run)
    show "?pv h = Some (hd (rev xs @ [h]))" using pv [of xs h "[]"] by (auto simp: hd_append hd_rev)
    show "?pv x = Some (hd (bs @ [h]))" if "rev xs = as @ x # bs" for as x bs
    proof -
      have "xs @ [h] = rev bs @ x # rev as @ [h]" using that by (metis append_Cons append_assoc rev.simps(2) rev_append rev_rev_ident append_Nil)
      from pv [OF this] show ?thesis by (auto simp: hd_append last_rev split: if_splits)
    qed
  qed (use d body in auto)
qed

lemma node_proc_inverse [simp]: "node_proc (proc_sched_node p) = p" "proc_sched_node (node_proc n) = n"
  by (simp_all add: node_proc_def proc_sched_node_def)

text \<open>\<open>run_queue s ps\<close>: the list of the scheduler holds the processes \<open>ps\<close>; its head is part of no process.\<close>

definition run_queue :: "'a sys_scheme \<Rightarrow> ptr list \<Rightarrow> bool" where
  "run_queue s ps \<longleftrightarrow> is_list (sy_sched s) (sy_head s) (map proc_sched_node ps) \<and> set ps \<subseteq> dom (sy_procs s) \<and>
     sy_head s \<notin> set ps \<and> NULL \<notin> set ps \<and> node_proc (sy_head s) \<notin> insert NULL (dom (sy_procs s))"

definition runnable :: "'a sys_scheme \<Rightarrow> ptr \<Rightarrow> bool" where
  "runnable s p \<longleftrightarrow> (\<exists>proc. sy_procs s p = Some proc \<and> pr_state proc = PS_RUNNABLE)"

lemma pick_run:
  assumes q: "run_queue s ps"
  shows "pick s = Inr (case dropWhile (\<lambda>p. \<not> runnable s p) (rev ps) of [] \<Rightarrow> node_proc (sy_head s) | p # _ \<Rightarrow> p)"
proof -
  let ?B = "\<lambda>n. runnable s (node_proc n)" and ?h = "sy_head s"
  define D where "D = dropWhile (\<lambda>p. \<not> runnable s p) (rev ps)"
  have l: "is_list (sy_sched s) ?h (map proc_sched_node ps)" using q by (simp add: run_queue_def)
  have D: "dropWhile (\<lambda>n. \<not> ?B n) (rev (map proc_sched_node ps)) = map proc_sched_node D"
    by (simp add: D_def rev_map dropWhile_map comp_def)
  have "each_entry lh_prev ?h (\<lambda>n. and_then (ld (sy_procs s) (node_proc n)) (\<lambda>a. Inr (pr_state a = PS_RUNNABLE))) (sy_sched s) =
      Inr (hd (map proc_sched_node D @ [?h]))"
    unfolding D [symmetric] by (rule each_entry_list(2) [OF l]) (use q in \<open>auto simp: run_queue_def ld_def runnable_def\<close>)
  moreover have "?h \<notin> set D" using q set_dropWhileD [of ?h "\<lambda>p. \<not> runnable s p" "rev ps"] by (auto simp: D_def run_queue_def)
  moreover have "node_proc ?h \<noteq> ?h" by (simp add: node_proc_def)
  ultimately show ?thesis unfolding D_def [symmetric] by (cases D) (auto simp: pick_def Let_def)
qed

lemma pick_none:
  assumes "run_queue s ps" "\<forall>p\<in>set ps. \<not> runnable s p"
  shows "pick s = Inr (node_proc (sy_head s))"
proof -
  have "dropWhile (\<lambda>p. \<not> runnable s p) (rev ps) = []" using assms(2) by (simp add: dropWhile_eq_Nil_conv)
  with pick_run [OF assms(1)] show ?thesis by simp
qed

section \<open>Deadlocks\<close>

lemma lock_sched_twice: "lock_sched s = Inr (flags, t) \<Longrightarrow> lock_sched t = Inl NoReturn"
  by (auto simp: lock_sched_def spin_lock_irq_save_def spin_lock_def set_cp0_def lock_tail_take and_then_eq_Inr split: prod.splits if_splits)

lemma lock_sched_fails: "lock_sched s = Inl e \<Longrightarrow> e = NoReturn"
  by (auto simp: lock_sched_def spin_lock_irq_save_def spin_lock_def split: prod.splits if_splits)

text \<open>
  C32. \<open>wakeup\<close> never returns: it holds the lock of the scheduler when it calls \<open>proc_next\<close>, which waits for the
  same lock. No state and no scheduler avoids it, whether or not a process sleeps.
\<close>

theorem wakeup_deadlock: "wakeup sch bed s = Inl NoReturn"
proof (cases "lock_sched s")
  case (Inl e)
  then show ?thesis using lock_sched_fails [OF Inl] by (simp add: wakeup_def)
next
  case (Inr r)
  then obtain flags t where t: "lock_sched s = Inr (flags, t)" by (cases r) simp
  then show ?thesis using lock_sched_twice [OF t] by (simp add: wakeup_def proc_next_def sched_enter_critical_def)
qed

section \<open>Scheduling\<close>

text \<open>The lock of the scheduler, taken when it is free.\<close>

lemma enter_critical_run:
  assumes "lock_head (sy_lock s) = lock_tail (sy_lock s)"
  shows "sched_enter_critical s = Inr (set_cp0 (snd (local_irq_save (cpu_cp0 (sy_cpu s))))
    (s\<lparr>sy_lock := take_ticket (sy_lock s), sy_intrflags := read_c0 C0_status (cpu_cp0 (sy_cpu s))\<rparr>))"
  using assms by (simp add: sched_enter_critical_def lock_sched_def spin_lock_irq_save_def spin_lock_def local_irq_eq set_cp0_def)

lemma exit_critical_sel:
  "sy_procs (sched_exit_critical s) = sy_procs s" "sy_sched (sched_exit_critical s) = sy_sched s" "sy_head (sched_exit_critical s) = sy_head s"
  "sy_lock (sched_exit_critical s) = spin_unlock (sy_lock s)"
  by (simp_all add: sched_exit_critical_def unlock_sched_def spin_unlock_irq_restore_def set_cp0_def)

lemma irq_save_other: "snd (local_irq_save c) (25, 0) = c (25, 0) \<and> read_c0 C0_config1 (snd (local_irq_save c)) = read_c0 C0_config1 c \<and> cpuid (snd (local_irq_save c)) = cpuid c"
  by (simp add: local_irq_eq cpuid_def read_c0_eq write_c0_eq)

text \<open>The state in which \<open>schedule\<close> picks the next process; \<open>old\<close> is the calling process then.\<close>

definition picking :: "'a sys_scheme \<Rightarrow> proc \<Rightarrow> 'a sys_scheme \<Rightarrow> bool" where
  "picking s old t \<longleftrightarrow> sy_procs t = (sy_procs s)(sy_current s \<mapsto> old) \<and> sy_sched t = sy_sched s \<and> sy_head t = sy_head s \<and>
     sy_current t = sy_current s \<and> sy_idle t = sy_idle s \<and> sy_words t = sy_words s \<and> uv_mms t = uv_mms s \<and> sy_tlb t = sy_tlb s \<and>
     sy_lock t = take_ticket (sy_lock s) \<and> cpuid (cpu_cp0 (sy_cpu t)) = cpuid (cpu_cp0 (sy_cpu s)) \<and>
     get_tlb_entries (cpu_cp0 (sy_cpu t)) = get_tlb_entries (cpu_cp0 (sy_cpu s))"

lemma schedule_enters:
  assumes old: "sy_procs s (sy_current s) = Some old" "pr_kpid old = 0 \<longleftrightarrow> sy_current s = sy_idle s"
    and free: "lock_head (sy_lock s) = lock_tail (sy_lock s)"
  shows "\<exists>t. schedule_away sch ret s = schedule_pick sch ret t \<and>
    picking s (old\<lparr>pr_state := if pr_state old = PS_ONPROC then PS_RUNNABLE else pr_state old\<rparr>) t"
proof -
  let ?old = "old\<lparr>pr_state := if pr_state old = PS_ONPROC then PS_RUNNABLE else pr_state old\<rparr>"
  define t where "t = set_cp0 (snd (local_irq_save (cpu_cp0 (sy_cpu s))))
    (s\<lparr>sy_lock := take_ticket (sy_lock s), sy_intrflags := read_c0 C0_status (cpu_cp0 (sy_cpu s))\<rparr>)"
  have t: "sched_enter_critical s = Inr t" using enter_critical_run [OF free] by (simp add: t_def)
  have ts: "sy_procs t = sy_procs s" "sy_idle t = sy_idle s" by (simp_all add: t_def set_cp0_def)
  let ?t = "t\<lparr>sy_procs := (sy_procs s)(sy_current s \<mapsto> ?old)\<rparr>"
  have "(if pr_state old = PS_ONPROC then set_proc (sy_current s) (pr_state_update (\<lambda>_. PS_RUNNABLE)) t else Inr t) = Inr ?t"
    using old(1) ts by (auto simp: set_proc_def upd_def ld_def fun_upd_idem)
  then have "schedule_away sch ret s = schedule_pick sch ret ?t"
    unfolding schedule_away_def using t old ts by (simp add: ld_def Let_def)
  moreover have "picking s ?old ?t"
    using irq_save_other [of "cpu_cp0 (sy_cpu s)"] by (simp add: picking_def t_def set_cp0_def get_tlb_entries_def)
  ultimately show ?thesis by blast
qed

text \<open>
  The interface of \<^verbatim>\<open>struct scheduler\<close>: what the functions of a scheduler do to the queue \<open>ps\<close> of processes it
  holds. New processes come to the front, and the runnable process at the back is picked.
\<close>

locale queue_scheduler =
  fixes sch :: "'a sys_scheme scheduler" and queue :: "'a sys_scheme \<Rightarrow> ptr list \<Rightarrow> bool"
  assumes pick_last: "queue s (as @ p # bs) \<Longrightarrow> runnable s p \<Longrightarrow> \<forall>x\<in>set bs. \<not> runnable s x \<Longrightarrow> sch_pick sch s = Inr p \<and> p \<noteq> NULL"
    and add_front: "queue s ps \<Longrightarrow> p \<in> dom (sy_procs s) - {NULL, sy_head s} - set ps \<Longrightarrow> proc_sched_node p \<in> dom (sy_sched s) \<Longrightarrow>
      \<exists>H. sch_add sch p s = Inr (0, s\<lparr>sy_sched := H\<rparr>) \<and> queue (s\<lparr>sy_sched := H\<rparr>) (p # ps)"
    and remove_any: "queue s (as @ p # bs) \<Longrightarrow> \<exists>H. sch_remove sch p s = Inr (0, s\<lparr>sy_sched := H\<rparr>) \<and> queue (s\<lparr>sy_sched := H\<rparr>) (as @ bs)"
    and queue_frame: "queue s ps \<Longrightarrow> sy_sched t = sy_sched s \<Longrightarrow> sy_head t = sy_head s \<Longrightarrow> dom (sy_procs t) = dom (sy_procs s) \<Longrightarrow> queue t ps"
begin

lemma critical_run:
  assumes q: "queue s ps" and free: "lock_head (sy_lock s) = lock_tail (sy_lock s)"
    and op: "\<And>t. queue t ps \<Longrightarrow> sy_procs t = sy_procs s \<Longrightarrow> sy_sched t = sy_sched s \<Longrightarrow> sy_head t = sy_head s \<Longrightarrow>
      \<exists>H. f t = Inr (0, t\<lparr>sy_sched := H\<rparr>) \<and> queue (t\<lparr>sy_sched := H\<rparr>) qs"
  shows "\<exists>s'. and_then (sched_enter_critical s) (\<lambda>s. and_then (f s) (\<lambda>(_, s). Inr (sched_exit_critical s))) = Inr s' \<and>
    queue s' qs \<and> sy_procs s' = sy_procs s \<and> lock_head (sy_lock s') = lock_tail (sy_lock s')"
proof -
  define t where "t = set_cp0 (snd (local_irq_save (cpu_cp0 (sy_cpu s))))
    (s\<lparr>sy_lock := take_ticket (sy_lock s), sy_intrflags := read_c0 C0_status (cpu_cp0 (sy_cpu s))\<rparr>)"
  have t: "sched_enter_critical s = Inr t" "sy_procs t = sy_procs s" "sy_sched t = sy_sched s" "sy_head t = sy_head s" "sy_lock t = take_ticket (sy_lock s)"
    using enter_critical_run [OF free] by (simp_all add: t_def set_cp0_def)
  have "queue t ps" by (rule queue_frame [OF q]) (simp_all add: t)
  from op [OF this t(2-4)] obtain H where H: "f t = Inr (0, t\<lparr>sy_sched := H\<rparr>)" "queue (t\<lparr>sy_sched := H\<rparr>) qs" by blast
  let ?u = "sched_exit_critical (t\<lparr>sy_sched := H\<rparr>)"
  have "queue ?u qs" by (rule queue_frame [OF H(2)]) (simp_all add: exit_critical_sel)
  moreover have "lock_head (sy_lock ?u) = lock_tail (sy_lock ?u)"
    using free t(5) by (simp add: exit_critical_sel spin_unlock_def lock_set_head lock_tail_take)
  ultimately show ?thesis using t H(1) by (simp add: exit_critical_sel)
qed

lemma proc_add_run:
  assumes "queue s ps" "lock_head (sy_lock s) = lock_tail (sy_lock s)"
    and "p \<in> dom (sy_procs s) - {NULL, sy_head s} - set ps" "proc_sched_node p \<in> dom (sy_sched s)"
  shows "\<exists>s'. proc_add sch p s = Inr s' \<and> queue s' (p # ps) \<and> sy_procs s' = sy_procs s \<and> lock_head (sy_lock s') = lock_tail (sy_lock s')"
  unfolding proc_add_def by (rule critical_run [OF assms(1,2)], rule add_front) (use assms(3,4) in simp_all)

lemma proc_remove_run:
  assumes "queue s (as @ p # bs)" "lock_head (sy_lock s) = lock_tail (sy_lock s)"
  shows "\<exists>s'. proc_remove sch p s = Inr s' \<and> queue s' (as @ bs) \<and> sy_procs s' = sy_procs s \<and> lock_head (sy_lock s') = lock_tail (sy_lock s')"
  unfolding proc_remove_def by (rule critical_run [OF assms], rule remove_any)

lemma schedule_away_run:
  assumes q: "queue s (as @ p # bs)" and p: "sy_procs s p = Some proc" "pr_state proc = PS_RUNNABLE" "p \<noteq> sy_current s"
    and bs: "\<forall>x\<in>set bs. \<not> runnable s x" "sy_current s \<in> set bs \<Longrightarrow> pr_state old \<noteq> PS_ONPROC"
    and old: "sy_procs s (sy_current s) = Some old" "pr_kpid old = 0 \<longleftrightarrow> sy_current s = sy_idle s"
    and free: "lock_head (sy_lock s) = lock_tail (sy_lock s)" and ok: "switch_ok s p"
  shows "\<exists>u. schedule_away sch ret s = Inr u \<and> sy_current u = p \<and>
    sy_procs u = (sy_procs s)(sy_current s \<mapsto> old\<lparr>pr_state := if pr_state old = PS_ONPROC then PS_RUNNABLE else pr_state old\<rparr>,
      p \<mapsto> proc\<lparr>pr_state := PS_ONPROC, pr_oncpu := cpuid (cpu_cp0 (sy_cpu s))\<rparr>) \<and>
    sy_kernelsp u = kstacktop proc \<and> vm_current_pgdir u = proc_pgindex s p \<and>
    continues (context_at (sy_words s) (proc_context p)) (sy_cpu u) \<and> sy_lock u = take_ticket (sy_lock s)"
proof -
  let ?cur = "sy_current s" and ?new = "proc\<lparr>pr_state := PS_ONPROC, pr_oncpu := cpuid (cpu_cp0 (sy_cpu s))\<rparr>"
  define old' where "old' = old\<lparr>pr_state := if pr_state old = PS_ONPROC then PS_RUNNABLE else pr_state old\<rparr>"
  obtain t where run: "schedule_away sch ret s = schedule_pick sch ret t" and t: "picking s old' t"
    using schedule_enters [OF old free] old'_def by blast
  have "queue t (as @ p # bs)"
    by (rule queue_frame [OF q]) (use old(1) t in \<open>auto simp: picking_def\<close>)
  moreover have "runnable t p" using p t by (simp add: runnable_def picking_def)
  moreover have "\<forall>x\<in>set bs. \<not> runnable t x"
    using bs old(1) t by (auto simp: runnable_def picking_def old'_def)
  ultimately have pick: "sch_pick sch t = Inr p" "p \<noteq> NULL" using pick_last by blast+
  define t2 where "t2 = t\<lparr>sy_procs := (sy_procs t)(p \<mapsto> ?new)\<rparr>"
  have t2: "update_proc p t = Inr t2" using p t by (simp add: update_proc_def set_proc_def upd_def ld_def t2_def picking_def)
  have sel: "sy_current t2 = ?cur" "sy_words t2 = sy_words s" "uv_mms t2 = uv_mms s" "sy_lock t2 = take_ticket (sy_lock s)"
    "sy_procs t2 = (sy_procs s)(?cur \<mapsto> old', p \<mapsto> ?new)"
    using t by (simp_all add: t2_def picking_def)
  have "switch_ok t2 p" using ok p t by (auto simp: switch_ok_def sel) (auto simp: t2_def picking_def)
  from switch_context_run [OF this, of ret] obtain u where u: "switch_context ret p t2 = Inr u" "sy_current u = p" "sy_procs u = sy_procs t2"
    "sy_lock u = sy_lock t2" "sy_kernelsp u = kstacktop (the (sy_procs t2 p))" "vm_current_pgdir u = proc_pgindex t2 p"
    "continues (context_at (sy_words t2) (proc_context p)) (sy_cpu u)" by blast
  have "schedule_away sch ret s = Inr u" unfolding run schedule_pick_def using pick t2 u(1) by simp
  moreover have "kstacktop (the (sy_procs t2 p)) = kstacktop proc" "proc_pgindex t2 p = proc_pgindex s p"
    using p by (simp_all add: sel kstacktop_def proc_pgindex_def)
  ultimately show ?thesis using u sel by (simp add: old'_def)
qed

end

lemma plain_add_front:
  assumes q: "run_queue s ps" and p: "p \<in> dom (sy_procs s) - {NULL, sy_head s} - set ps" "proc_sched_node p \<in> dom (sy_sched s)"
  shows "\<exists>H. add_proc p s = Inr (0, s\<lparr>sy_sched := H\<rparr>) \<and> run_queue (s\<lparr>sy_sched := H\<rparr>) (p # ps)"
proof -
  let ?n = "proc_sched_node p" and ?h = "sy_head s" and ?xs = "map proc_sched_node ps"
  have l: "is_list (sy_sched s) ?h ?xs" using q by (simp add: run_queue_def)
  have n: "?n \<notin> insert ?h (set ?xs)"
  proof
    assume "?n \<in> insert ?h (set ?xs)"
    then have "node_proc ?n \<in> insert (node_proc ?h) (set ps)" by (metis (no_types) image_iff insert_iff list.set_map node_proc_inverse(1))
    then show False using p(1) q by (auto simp: run_queue_def)
  qed
  obtain H where H: "INIT_LIST_HEAD ?n (sy_sched s) = Inr H" "dom H = dom (sy_sched s)" "\<And>x. x \<noteq> ?n \<Longrightarrow> H x = sy_sched s x"
    using INIT_LIST_HEAD_spec [OF p(2)] by auto
  have "is_list H ?h ?xs" by (rule is_list_frame [OF l], rule H(3)) (use n in blast)
  from list_add_spec [OF this, of ?n] obtain H' where "list_add ?n ?h H = Inr H'" "is_list H' ?h (map proc_sched_node (p # ps))"
    using n H(2) p(2) by auto
  then show ?thesis using H(1) q p(1) by (auto simp: add_proc_def run_queue_def)
qed

lemma plain_remove_any:
  assumes q: "run_queue s (as @ p # bs)"
  shows "\<exists>H. remove_proc p s = Inr (0, s\<lparr>sy_sched := H\<rparr>) \<and> run_queue (s\<lparr>sy_sched := H\<rparr>) (as @ bs)"
proof -
  have "is_list (sy_sched s) (sy_head s) (map proc_sched_node as @ proc_sched_node p # map proc_sched_node bs)"
    using q by (simp add: run_queue_def)
  from list_del_spec [OF this] obtain H where "list_del (proc_sched_node p) (sy_sched s) = Inr H"
    "is_list H (sy_head s) (map proc_sched_node (as @ bs))" by auto
  then show ?thesis using q by (auto simp: remove_proc_def run_queue_def)
qed

interpretation plain: queue_scheduler plain_scheduler run_queue
proof
  fix s :: "'a sys_scheme" and as p bs
  assume q: "run_queue s (as @ p # bs)" and r: "runnable s p" "\<forall>x\<in>set bs. \<not> runnable s x"
  have "dropWhile (\<lambda>p. \<not> runnable s p) (rev (as @ p # bs)) = p # rev as"
    using r by (simp add: dropWhile_append)
  then show "sch_pick plain_scheduler s = Inr p \<and> p \<noteq> NULL"
    using pick_run [OF q] q by (auto simp: plain_scheduler_def run_queue_def)
next
  show "\<exists>H. sch_add plain_scheduler p s = Inr (0, s\<lparr>sy_sched := H\<rparr>) \<and> run_queue (s\<lparr>sy_sched := H\<rparr>) (p # ps)"
    if "run_queue s ps" "p \<in> dom (sy_procs s) - {NULL, sy_head s} - set ps" "proc_sched_node p \<in> dom (sy_sched s)" for s :: "'a sys_scheme" and ps p
    using plain_add_front [OF that] by (simp add: plain_scheduler_def)
  show "\<exists>H. sch_remove plain_scheduler p s = Inr (0, s\<lparr>sy_sched := H\<rparr>) \<and> run_queue (s\<lparr>sy_sched := H\<rparr>) (as @ bs)"
    if "run_queue s (as @ p # bs)" for s :: "'a sys_scheme" and as p bs
    using plain_remove_any [OF that] by (simp add: plain_scheduler_def)
qed (simp add: run_queue_def)

text \<open>
  C19. What \<open>schedule\<close> does with the list scheduler when a process can run. It switches to the runnable process that
  was added first: the process is marked as running on this processor, its kernel stack and its page
  tables are in place and the processor continues from its saved context. The process that called
  \<open>schedule\<close> is runnable again if it was running, no other process changes, and the lock is held.
\<close>

theorem schedule_switches:
  assumes "run_queue s (as @ p # bs)" "sy_procs s p = Some proc" "pr_state proc = PS_RUNNABLE" "p \<noteq> sy_current s"
    and "\<forall>x\<in>set bs. \<not> runnable s x" "sy_current s \<notin> set bs \<or> pr_state old \<noteq> PS_ONPROC"
    and "sy_procs s (sy_current s) = Some old" "pr_kpid old = 0 \<longleftrightarrow> sy_current s = sy_idle s"
    and "lock_head (sy_lock s) = lock_tail (sy_lock s)" "switch_ok s p"
  shows "\<exists>u. schedule_away plain_scheduler ret s = Inr u \<and> sy_current u = p \<and>
    sy_procs u = (sy_procs s)(sy_current s \<mapsto> old\<lparr>pr_state := if pr_state old = PS_ONPROC then PS_RUNNABLE else pr_state old\<rparr>,
      p \<mapsto> proc\<lparr>pr_state := PS_ONPROC, pr_oncpu := cpuid (cpu_cp0 (sy_cpu s))\<rparr>) \<and>
    sy_kernelsp u = kstacktop proc \<and> vm_current_pgdir u = proc_pgindex s p \<and>
    continues (context_at (sy_words s) (proc_context p)) (sy_cpu u) \<and> spin_lock (sy_lock u) = Inl NoReturn"
proof -
  have held: "spin_lock (take_ticket (sy_lock s)) = Inl NoReturn" using assms(9) by (simp add: spin_lock_def lock_tail_take)
  show ?thesis
    using plain.schedule_away_run [OF assms(1-5) _ assms(7-10), of ret] assms(6) held by (metis (no_types))
qed

theorem schedule_switches_witness:
  "\<exists>u. schedule_away plain_scheduler 0x80003000 sys_example = Inr u \<and> sy_current u = 0x80010000 \<and>
    pr_state (the (sy_procs u 0x80010000)) = PS_ONPROC \<and> pr_state (the (sy_procs u 0x80030000)) = PS_RUNNABLE"
proof -
  let ?p = "blank_proc\<lparr>pr_kstack := 0x80020000, pr_kstack_size := 0x1000, pr_kpid := 1, pr_state := PS_RUNNABLE, pr_mm := 0x100\<rparr>"
    and ?i = "blank_proc\<lparr>pr_state := PS_ONPROC, pr_mm := 0x100\<rparr>"
  have "run_queue sys_example ([] @ 0x80010000 # [])"
    by (simp add: run_queue_def is_list_def chain_def sys_example_def uvm.defs sys.defs proc_sched_node_def node_proc_def)
  moreover have "switch_ok sys_example 0x80010000"
    using example_frames(2) by (simp add: switch_ok_def get_tlb_entries_def read_c0_eq words_at_def proc_context_def)
  ultimately obtain u where "schedule_away plain_scheduler 0x80003000 sys_example = Inr u" "sy_current u = 0x80010000"
    "sy_procs u = (sy_procs sys_example)(0x80030000 \<mapsto> ?i\<lparr>pr_state := PS_RUNNABLE\<rparr>,
      0x80010000 \<mapsto> ?p\<lparr>pr_state := PS_ONPROC, pr_oncpu := cpuid (\<lambda>_. 0)\<rparr>)"
    using schedule_switches [of sys_example "[]" "0x80010000" "[]" ?p ?i "0x80003000"]
    by (auto simp: blank_proc_def lock_head_def lock_tail_def)
  then show ?thesis by simp
qed

text \<open>
  C29. The processor never idles. When no process of the list can run, the list scheduler does not report it: the address it
  returns is that of the list head taken for a list node of a process. \<open>schedule\<close> then uses it as a process,
  which is an access outside every process, and does not switch to the idle process.
\<close>

theorem schedule_never_idles:
  assumes q: "run_queue s ps" and none: "\<forall>p\<in>set ps. \<not> runnable s p"
    and old: "sy_procs s (sy_current s) = Some old" "pr_kpid old = 0 \<longleftrightarrow> sy_current s = sy_idle s"
    and cur: "sy_current s \<notin> set ps \<or> pr_state old \<noteq> PS_ONPROC" and free: "lock_head (sy_lock s) = lock_tail (sy_lock s)"
  shows "schedule_away plain_scheduler ret s = Inl Fault"
proof -
  define old' where "old' = old\<lparr>pr_state := if pr_state old = PS_ONPROC then PS_RUNNABLE else pr_state old\<rparr>"
  obtain t where run: "schedule_away plain_scheduler ret s = schedule_pick plain_scheduler ret t" and t: "picking s old' t"
    using schedule_enters [OF old free] old'_def by blast
  have qt: "run_queue t ps" by (rule plain.queue_frame [OF q]) (use old(1) t in \<open>auto simp: picking_def\<close>)
  have "\<forall>p\<in>set ps. \<not> runnable t p" using none cur old(1) t by (auto simp: runnable_def picking_def old'_def)
  from pick_none [OF qt this] have "sch_pick plain_scheduler t = Inr (node_proc (sy_head t))" by (simp add: plain_scheduler_def)
  moreover have "node_proc (sy_head t) \<noteq> NULL" "sy_procs t (node_proc (sy_head t)) = None" using qt by (auto simp: run_queue_def)
  ultimately show ?thesis
    unfolding run by (simp add: schedule_pick_def update_proc_def set_proc_def upd_def ld_def Let_def)
qed

theorem schedule_never_idles_witness:
  "schedule_away plain_scheduler 0x80003000
     (sys_example\<lparr>sy_procs := [0x80010000 \<mapsto> blank_proc\<lparr>pr_state := PS_SLEEPING\<rparr>, 0x80030000 \<mapsto> blank_proc\<lparr>pr_state := PS_RUNNABLE\<rparr>]\<rparr>) = Inl Fault"
proof (rule schedule_never_idles [where ps = "[0x80010000]" and old = "blank_proc\<lparr>pr_state := PS_RUNNABLE\<rparr>"])
  let ?s = "sys_example\<lparr>sy_procs := [0x80010000 \<mapsto> blank_proc\<lparr>pr_state := PS_SLEEPING\<rparr>, 0x80030000 \<mapsto> blank_proc\<lparr>pr_state := PS_RUNNABLE\<rparr>]\<rparr>"
  show "run_queue ?s [0x80010000]"
    by (simp add: run_queue_def is_list_def chain_def sys_example_def uvm.defs sys.defs proc_sched_node_def node_proc_def)
  show "\<forall>p\<in>set [0x80010000]. \<not> runnable ?s p" by (simp add: runnable_def PS_SLEEPING_def PS_RUNNABLE_def)
qed (simp_all add: blank_proc_def lock_head_def lock_tail_def)

end
