(* ===== verification/Spec2Isabelle.thy ===== *)
theory Spec2Isabelle
  imports ListHead Printf Sched
begin

text \<open>
  A verification development of the AIM kernel, a teaching operating system in C and assembly, in its
  32-bit little-endian MIPS configuration. Paths are relative to \<^verbatim>\<open>src/\<close>.

  \<^bold>\<open>The program.\<close> At boot, \<^verbatim>\<open>kern/init/init.c\<close> brings up three allocators in turn: a bootstrap
  allocator that only moves a pointer, the page allocator (\<^verbatim>\<open>kern/mm/pmm\<close>), whose list nodes come from
  the object allocator, and the object allocator (\<^verbatim>\<open>kern/mm/vmm\<close>), whose pages come from the page
  allocator. Page tables (\<^verbatim>\<open>kern/arch/mips/pgtable.c\<close>) take their pages from the page allocator; user
  address spaces (\<^verbatim>\<open>kern/mm/uvm.c\<close>) are lists of areas over page tables. The processor reaches the page
  tables through the refill handler of the translation buffer, and enters the kernel through the
  exception entry, which saves a trap frame for the C handler. Processes (\<^verbatim>\<open>kern/proc\<close>) have a kernel
  stack, a context and an address space; the scheduler switches between them with
  \<^verbatim>\<open>switch_regs\<close>, under a ticket lock. Bit operations, bitmaps, lists and the C library serve all of
  these.

  \<^bold>\<open>Conventions.\<close> A C function is a function on an explicit state that returns a value of
  \<open>'a res\<close>: \<open>Inr\<close> a result, or \<open>Inl\<close> with \<open>Panic\<close> (a call of \<^verbatim>\<open>panic\<close> or a failed assertion), \<open>Fault\<close>
  (an access outside every object, or undefined arithmetic) or \<open>NoReturn\<close> (a loop that does not end, or a lock that is never
  released). Words have their width; \<^verbatim>\<open>addr_t\<close> has 64 bits and pointers have 32. Memory is a map from addresses to objects of a type,
  and states are records that extend each other: \<open>palloc\<close>, \<open>kmem\<close>, \<open>vmem\<close>, \<open>uvm\<close>, \<open>sys\<close>. A loop is \<open>loop\<close> of
  \<open>Prelude\<close>, a partial function in which not ending is \<open>None\<close>, so that every statement of a
  result is one of termination too. C names that begin with underscores lose them.

  \<^bold>\<open>Theories, in the order of the program.\<close>
  \<^item> \<open>Prelude\<close>: results, loops, memory access. \<open>Util\<close>, \<open>Errno\<close>, \<open>Addr\<close>: \<^verbatim>\<open>util.h\<close>, \<^verbatim>\<open>errno.h\<close>, addresses
    and pages.
  \<^item> \<open>Bitops\<close>, \<open>Bitmap\<close>, \<open>Kpid\<close>: \<^verbatim>\<open>bitops.h\<close> and \<^verbatim>\<open>arch-bitops.h\<close>, \<^verbatim>\<open>kern/lib/libbitmap\<close>, and the identifiers
    of \<^verbatim>\<open>kern/proc/proc.c\<close>. The portable and the MIPS searches agree, each bitmap operation is the
    operation on sets of positions, and identifiers are the smallest free ones and distinct.
  \<^item> \<open>Links\<close>, \<open>ListHead\<close>: doubly linked lists in memory and \<^verbatim>\<open>list.h\<close>; every update is the one on the
    sequence of nodes.
  \<^item> \<open>FreeList\<close>, \<open>Palloc\<close>, \<open>Pmm\<close>, \<open>Vmm\<close>, \<open>Simple\<close>, \<open>Kmem\<close>: the specification of a list of free blocks,
    the page allocator that refines it for every object allocator that keeps the contract
    \<open>node_allocator\<close>, the front ends, the two object allocators, and all of them together. \<open>Kmem\<close> interprets the contract on the
    bootstrap allocator, so the properties of the page allocator there are about the boot configuration, in which the
    release of a page takes memory for a node. The mutual calls of the running configuration are
    modelled (\<open>object_table\<close>, with fuel for the depth of the calls) but carry no property.
  \<^item> \<open>Pgtable\<close>, \<open>PgtableMap\<close>, \<open>UserMap\<close>: page tables. The contract \<open>page_source\<close> counts the pages that can be had and
    the pages that can be put back; under it, mapping, the failures of mapping, translation and unmapping are
    described by the entry of each page number. The contract is interpreted on the page allocator over the
    bootstrap allocator (\<open>boot_pgalloc\<close>), and the properties are about that configuration: the kernel itself first maps user pages
    after the object allocator has taken over.
  \<^item> \<open>Uvm\<close>: all of \<^verbatim>\<open>uvm.c\<close>, with the calls of the allocators and the page tables as arguments.
  \<^item> \<open>Sync\<close>: ticket lock, recursive lock and semaphore. The interleaving of processors is a step
    relation; the lock word is read and written in single steps, except that an \<^verbatim>\<open>ll\<close>/\<^verbatim>\<open>sc\<close> pair that
    succeeds is one step, and the semaphore runs on the steps of its ticket lock with each access to its value a step of its own. Memory is
    sequentially consistent, as the comment in \<^verbatim>\<open>arch-sync.h\<close> assumes. The bound of 65535
    processors is that of the 16-bit tickets.
  \<^item> \<open>Cp0\<close>, \<open>Decode\<close>, \<open>Trap\<close>, \<open>TrapEntry\<close>: the control coprocessor, instruction fields, the C handler, and the
    assembly code around it, instruction by instruction. \<open>Trap\<close> compares the branch targets with the MIPS manual and lists where
    the code deviates. \<open>TrapEntry\<close> composes entry, handler and exit; the handler acts on the frame as
    \<open>trap_handler\<close> does, and the stack that the compiled C code uses below the frame is not modelled.
  \<^item> \<open>Tlb\<close>: the translation buffer as a list of entries, the flush, and the refill handler in
    assembly. An entry matches by its page pair, address space and global bits; the page mask is
    written by the code but always that of 4 KB pages, and entries do not record it.
  \<^item> \<open>Switch\<close>, \<open>Proc\<close>, \<open>Sched\<close>: the context switch in assembly, processes, and the scheduler behind the contract
    \<open>queue_scheduler\<close>, which is interpreted on the list scheduler. A call that switches away goes
    on when the process is switched to again; what happens in between is an argument.
  \<^item> \<open>Libc\<close>, \<open>Printf\<close>: \<^verbatim>\<open>lib/libc\<close>, on a memory of bytes.

  \<^bold>\<open>What is shown.\<close> Each claim stands at the end of the theory of its component, with the statement in words before
  it, and most of what the claims say is functional correctness on every branch. Where the code does not do what
  it means to, the claim says what it does: \<^verbatim>\<open>unmap_pages\<close> stops after one page, two descriptors
  get the same address in the object allocator, \<^verbatim>\<open>wakeup\<close> waits for a lock that it holds, the list
  scheduler does not recognise the end of its list, and branch targets deviate from the manual in
  the cases that \<open>branch_regular\<close> lists.

  \<^bold>\<open>Fuel and bounds.\<close> Only \<open>object_table\<close> has fuel; no property depends on it. Counters of C type \<^verbatim>\<open>int\<close> are integers where
  the guards of the code keep them in range, and overflow is \<open>Fault\<close> where they do not
  (\<open>recursive_lock\<close>). Positions of bits in bitmaps are natural numbers below the range of \<^verbatim>\<open>int\<close>.

  \<^bold>\<open>Not modelled.\<close> What is printed, and the console; device drivers; the boot loader and the start of the kernel; the early
  mappings and jump handlers; bitmap shifts; the copying of the exception vectors; the 64-bit
  accessors of the coprocessor; and the i386 and ARM directories, which this configuration does not
  compile. The bytes of a page are modelled only as the objects that the code keeps there.
\<close>

end
